(* ===== verification/Prism_Prelude.thy ===== *)
theory Prism_Prelude
  imports Main "HOL-Library.Word" "HOL-Library.Multiset"
begin

text \<open>
  The vocabulary shared by every component of the development.

  \<^item> Machine integers of the Rust code, by the width the source gives them.
  \<^item> \<open>res\<close>, the result of code that may panic: an \<open>unwrap()\<close> of \<open>None\<close>, an index out of
    bounds, an \<open>unreachable!()\<close>, a failed arithmetic operation. Every panic of the source is a
    \<open>Panic\<close> value of the model that says which kind it is.
  \<^item> The loop combinators \<open>rfold\<close> (a \<open>for\<close> loop over a list that may panic) and \<open>rmap\<close>.
  \<^item> Checked accesses to vectors.
  \<^item> Generic lemmas on lists and maps that the components share.
\<close>

section \<open>Machine integers\<close>

type_synonym u8 = "8 word"
type_synonym u16 = "16 word"
type_synonym u32 = "32 word"
type_synonym u64 = "64 word"
type_synonym bytes = "8 word list"

lemma unat_lt2p: "unat (w :: 'a::len word) < 2 ^ LENGTH('a)"
  by (rule unsigned_less)

lemma unat_of_nat_less: "n < 2 ^ LENGTH('a) \<Longrightarrow> unat (word_of_nat n :: 'a::len word) = n"
  by (simp add: unat_of_nat)

lemma unat_u8_less: "unat (b :: u8) < 256"
  using unat_lt2p [of b] by simp

section \<open>Panics and results\<close>

datatype panic =
    UnwrapNone
  | UnwrapErr
  | UnreachableCode
  | OutOfBounds
  | ArithOverflow
  | DivByZero
  | ExplicitPanic
  | OutOfFuel

datatype 'a res = Ok 'a | Panic panic

fun rbind :: "'a res \<Rightarrow> ('a \<Rightarrow> 'b res) \<Rightarrow> 'b res" where
  "rbind (Ok x) f = f x"
| "rbind (Panic e) f = Panic e"

fun unwrap :: "'a option \<Rightarrow> 'a res" where
  "unwrap (Some x) = Ok x"
| "unwrap None = Panic UnwrapNone"

fun rfold :: "('a \<Rightarrow> 's \<Rightarrow> 's res) \<Rightarrow> 'a list \<Rightarrow> 's \<Rightarrow> 's res" where
  "rfold f [] s = Ok s"
| "rfold f (x # xs) s = rbind (f x s) (rfold f xs)"

fun rmap :: "('a \<Rightarrow> 'b res) \<Rightarrow> 'a list \<Rightarrow> 'b list res" where
  "rmap f [] = Ok []"
| "rmap f (x # xs) = rbind (f x) (\<lambda>y. rbind (rmap f xs) (\<lambda>ys. Ok (y # ys)))"

text \<open>Vector accesses and the subtraction of unsigned integers, with the panic of the source.\<close>

definition rnth :: "'a list \<Rightarrow> nat \<Rightarrow> 'a res" where
  "rnth xs i = (if i < length xs then Ok (xs ! i) else Panic OutOfBounds)"

definition rset :: "'a list \<Rightarrow> nat \<Rightarrow> 'a \<Rightarrow> 'a list res" where
  "rset xs i v = (if i < length xs then Ok (xs[i := v]) else Panic OutOfBounds)"

definition rsub :: "nat \<Rightarrow> nat \<Rightarrow> nat res" where
  "rsub a b = (if b \<le> a then Ok (a - b) else Panic ArithOverflow)"

fun is_ok :: "'a res \<Rightarrow> bool" where
  "is_ok (Ok x) = True"
| "is_ok (Panic e) = False"

named_theorems res_simps \<open>rewriting of results that may panic\<close>

lemma rbind_eq_Ok [res_simps]: "rbind m f = Ok y \<longleftrightarrow> (\<exists>x. m = Ok x \<and> f x = Ok y)"
  by (cases m) auto

lemma rbind_eq_Panic [res_simps]:
  "rbind m f = Panic e \<longleftrightarrow> m = Panic e \<or> (\<exists>x. m = Ok x \<and> f x = Panic e)"
  by (cases m) auto

lemma unwrap_eq_Ok [res_simps]: "unwrap x = Ok y \<longleftrightarrow> x = Some y"
  by (cases x) auto

lemma is_ok_iff: "is_ok m \<longleftrightarrow> (\<exists>x. m = Ok x)"
  by (cases m) auto

lemma rbind_assoc: "rbind (rbind m f) g = rbind m (\<lambda>x. rbind (f x) g)"
  by (cases m) auto

lemma rbind_Ok_right [simp]: "rbind m Ok = m"
  by (cases m) auto

lemma rbind_cong: "m = m' \<Longrightarrow> (\<And>x. m' = Ok x \<Longrightarrow> f x = g x) \<Longrightarrow> rbind m f = rbind m' g"
  by (cases m') auto

lemma rfold_append: "rfold f (xs @ ys) s = rbind (rfold f xs s) (rfold f ys)"
proof (induction xs arbitrary: s)
  case Nil
  then show ?case by simp
next
  case (Cons x xs)
  then show ?case by (cases "f x s") auto
qed

lemma rfold_Ok_pure:
  assumes "\<And>x s. x \<in> set xs \<Longrightarrow> f x s = Ok (g x s)"
  shows "rfold f xs s = Ok (fold g xs s)"
  using assms by (induction xs arbitrary: s) auto

lemma rfold_invariant:
  assumes "rfold f xs s = Ok t" and "I s"
    and "\<And>x s t. x \<in> set xs \<Longrightarrow> I s \<Longrightarrow> f x s = Ok t \<Longrightarrow> I t"
  shows "I t"
  using assms by (induction xs arbitrary: s) (auto simp: res_simps)

lemma rfold_total:
  assumes "I s"
    and "\<And>x s. x \<in> set xs \<Longrightarrow> I s \<Longrightarrow> \<exists>t. f x s = Ok t \<and> I t"
  shows "\<exists>t. rfold f xs s = Ok t \<and> I t"
  using assms
proof (induction xs arbitrary: s)
  case Nil
  then show ?case by simp
next
  case (Cons x xs)
  from Cons.prems obtain s' where s': "f x s = Ok s'" "I s'" by force
  from Cons.IH [OF s'(2)] Cons.prems(2) obtain t where "rfold f xs s' = Ok t \<and> I t" by auto
  with s' show ?case by auto
qed

lemma rmap_eq_Ok: "rmap f xs = Ok ys \<longleftrightarrow> list_all2 (\<lambda>x y. f x = Ok y) xs ys"
  by (induction xs arbitrary: ys) (auto simp: res_simps list_all2_Cons1)

lemma rmap_Ok_pure: "(\<And>x. x \<in> set xs \<Longrightarrow> f x = Ok (g x)) \<Longrightarrow> rmap f xs = Ok (map g xs)"
  by (induction xs) auto

lemma rmap_total:
  "(\<And>x. x \<in> set xs \<Longrightarrow> \<exists>y. f x = Ok y) \<Longrightarrow> \<exists>ys. rmap f xs = Ok ys"
  by (induction xs) fastforce+

lemma rnth_Ok [simp]: "i < length xs \<Longrightarrow> rnth xs i = Ok (xs ! i)"
  by (simp add: rnth_def)

lemma rset_Ok [simp]: "i < length xs \<Longrightarrow> rset xs i v = Ok (xs[i := v])"
  by (simp add: rset_def)

lemma rsub_Ok [simp]: "b \<le> a \<Longrightarrow> rsub a b = Ok (a - b)"
  by (simp add: rsub_def)

lemma rnth_eq_Ok [res_simps]: "rnth xs i = Ok y \<longleftrightarrow> i < length xs \<and> y = xs ! i"
  by (auto simp: rnth_def)

lemma rset_eq_Ok [res_simps]: "rset xs i v = Ok ys \<longleftrightarrow> i < length xs \<and> ys = xs[i := v]"
  by (auto simp: rset_def)

lemma rsub_eq_Ok [res_simps]: "rsub a b = Ok c \<longleftrightarrow> b \<le> a \<and> c = a - b"
  by (auto simp: rsub_def)

section \<open>Vectors\<close>

text \<open>\<open>Vec::swap_remove\<close>: the removed slot takes the last element.\<close>

definition swap_remove :: "'a list \<Rightarrow> nat \<Rightarrow> 'a list" where
  "swap_remove xs i = butlast (xs[i := last xs])"

text \<open>\<open>iter().position(p)\<close>: the first index whose element satisfies the predicate.\<close>

fun position :: "('a \<Rightarrow> bool) \<Rightarrow> 'a list \<Rightarrow> nat option" where
  "position p [] = None"
| "position p (x # xs) = (if p x then Some 0 else map_option Suc (position p xs))"

lemma position_Some:
  "position p xs = Some i \<Longrightarrow> i < length xs \<and> p (xs ! i)"
  by (induction xs arbitrary: i) (auto split: if_splits)

lemma position_None: "position p xs = None \<longleftrightarrow> (\<forall>x\<in>set xs. \<not> p x)"
  by (induction xs) auto

lemma position_total: "x \<in> set xs \<Longrightarrow> p x \<Longrightarrow> \<exists>i. position p xs = Some i"
  using position_None [of p xs] by (cases "position p xs") auto

lemma mset_swap_remove:
  assumes "i < length xs"
  shows "mset (swap_remove xs i) = mset xs - {#xs ! i#}"
proof -
  have ne: "xs \<noteq> []" using assms by auto
  let ?ys = "xs[i := last xs]"
  have last_ys: "last ?ys = last xs"
    using assms ne by (simp add: last_conv_nth nth_list_update)
  have ys_ne: "?ys \<noteq> []" using ne by simp
  have "mset ?ys = add_mset (last xs) (mset (butlast ?ys))"
    using append_butlast_last_id [OF ys_ne] last_ys
    by (metis mset_append mset.simps add_mset_add_single union_commute)
  moreover have "mset ?ys = add_mset (last xs) (mset xs - {#xs ! i#})"
    using assms by (rule mset_update)
  ultimately show ?thesis by (simp add: swap_remove_def)
qed

lemma distinct_count_le: "distinct xs \<longleftrightarrow> (\<forall>x. count (mset xs) x \<le> 1)"
  by (induction xs) (auto simp: not_in_iff [symmetric] le_Suc_eq)

lemma distinct_swap_remove:
  "i < length xs \<Longrightarrow> distinct xs \<Longrightarrow> distinct (swap_remove xs i)"
  by (auto simp: distinct_count_le mset_swap_remove intro: le_trans [OF diff_le_self])

end
