(* ===== verification/Prism_Hash.thy ===== *)
theory Prism_Hash
  imports Prism_Prelude
begin

text \<open>
  Model of \<^verbatim>\<open>src/src/crypto/hash.rs\<close>. The source's \<open>H256\<close> wraps 32 bytes and is, in its own
  words, a big endian u256; the model is the 256-bit word, with \<open>h256_as_ref\<close> and
  \<open>h256_from_bytes\<close> for the two directions of the byte conversion, the ordering of the source
  (which compares two big endian u128 halves), and its \<open>Display\<close> and \<open>Debug\<close> texts. The Keccak
  function is a parameter wherever the source calls it.
\<close>

type_synonym h256 = "256 word"

text \<open>\<open>u128::from_be_bytes\<close>, \<open>u32::from_be_bytes\<close> and \<open>to_be_bytes\<close>, over any length.\<close>

definition of_be_bytes :: "bytes \<Rightarrow> nat" where
  "of_be_bytes bs = foldl (\<lambda>a b. a * 256 + unat b) 0 bs"

fun be_bytes :: "nat \<Rightarrow> nat \<Rightarrow> bytes" where
  "be_bytes 0 v = []"
| "be_bytes (Suc n) v = be_bytes n (v div 256) @ [of_nat v]"

definition h256_as_ref :: "h256 \<Rightarrow> bytes" where
  "h256_as_ref h = be_bytes 32 (unat h)"

definition h256_from_bytes :: "bytes \<Rightarrow> h256" where
  "h256_from_bytes bs = of_nat (of_be_bytes bs)"

definition hash_h256 :: "(bytes \<Rightarrow> h256) \<Rightarrow> h256 \<Rightarrow> h256" where
  "hash_h256 keccak h = keccak (h256_as_ref h)"

datatype ordering = Less | Equal | Greater

definition nat_cmp :: "nat \<Rightarrow> nat \<Rightarrow> ordering" where
  "nat_cmp a b = (if a < b then Less else if a = b then Equal else Greater)"

definition h256_cmp :: "h256 \<Rightarrow> h256 \<Rightarrow> ordering" where
  "h256_cmp a b =
     (let self_higher = of_be_bytes (take 16 (h256_as_ref a));
          self_lower = of_be_bytes (drop 16 (h256_as_ref a));
          other_higher = of_be_bytes (take 16 (h256_as_ref b));
          other_lower = of_be_bytes (drop 16 (h256_as_ref b));
          higher = nat_cmp self_higher other_higher
      in case higher of Equal \<Rightarrow> nat_cmp self_lower other_lower | _ \<Rightarrow> higher)"

text \<open>\<open>{:>02x}\<close>: two lower case hexadecimal digits.\<close>

definition hex_digit :: "nat \<Rightarrow> char" where
  "hex_digit n = (if n < 10 then char_of (48 + n) else char_of (87 + n))"

definition hex_byte :: "u8 \<Rightarrow> string" where
  "hex_byte b = [hex_digit (unat b div 16), hex_digit (unat b mod 16)]"

text \<open>The precision of the format selects a suffix of the bytes, the whole hash by default.\<close>

definition h256_display :: "nat option \<Rightarrow> h256 \<Rightarrow> string" where
  "h256_display precision h =
     (let start = (case precision of
                     Some p \<Rightarrow> if p \<ge> 64 then 0 else 32 - p div 2
                   | None \<Rightarrow> 0)
      in concat (map hex_byte (drop start (h256_as_ref h))))"

definition h256_to_string :: "h256 \<Rightarrow> string" where
  "h256_to_string h = h256_display None h"

definition h256_debug :: "h256 \<Rightarrow> string" where
  "h256_debug h = (let bs = h256_as_ref h in
     hex_byte (bs ! 0) @ hex_byte (bs ! 1) @ ''..'' @ hex_byte (bs ! 30) @ hex_byte (bs ! 31))"

section \<open>Big endian byte strings\<close>

lemma length_be_bytes [simp]: "length (be_bytes n v) = n"
  by (induction n arbitrary: v) auto

lemma of_be_bytes_Nil [simp]: "of_be_bytes [] = 0"
  by (simp add: of_be_bytes_def)

lemma of_be_bytes_snoc [simp]: "of_be_bytes (bs @ [b]) = of_be_bytes bs * 256 + unat b"
  by (simp add: of_be_bytes_def)

lemma of_be_bytes_append:
  "of_be_bytes (xs @ ys) = of_be_bytes xs * 256 ^ length ys + of_be_bytes ys"
proof (induction ys rule: rev_induct)
  case Nil
  then show ?case by simp
next
  case (snoc y ys)
  have "of_be_bytes (xs @ ys @ [y]) = of_be_bytes ((xs @ ys) @ [y])" by simp
  also have "\<dots> = of_be_bytes (xs @ ys) * 256 + unat y" by (rule of_be_bytes_snoc)
  finally show ?case by (simp add: snoc.IH algebra_simps)
qed

lemma of_be_bytes_bound: "of_be_bytes bs < 256 ^ length bs"
proof (induction bs rule: rev_induct)
  case Nil
  then show ?case by simp
next
  case (snoc b bs)
  have "unat b < 256" by (rule unat_u8_less)
  with snoc.IH show ?case by simp
qed

lemma of_be_be_bytes: "of_be_bytes (be_bytes n v) = v mod 256 ^ n"
proof (induction n arbitrary: v)
  case 0
  then show ?case by simp
next
  case (Suc n)
  have "(v div 256) mod 256 ^ n * 256 + v mod 256 = v mod (256 * 256 ^ n)"
    by (simp add: mod_mult2_eq)
  then show ?case by (simp add: Suc unat_of_nat)
qed

lemma be_of_be_bytes: "be_bytes (length bs) (of_be_bytes bs) = bs"
proof (induction bs rule: rev_induct)
  case Nil
  then show ?case by simp
next
  case (snoc b bs)
  have b: "unat b < 256" by (rule unat_u8_less)
  have "(of_nat (of_be_bytes bs * 256 + unat b) :: u8) = of_nat (unat b)"
    by (subst word_unat_eq_iff) (simp only: unat_of_nat, simp)
  then have "of_nat (of_be_bytes bs * 256 + unat b) = b" by simp
  with snoc.IH b show ?case by simp
qed

lemma be_bytes_inj: "length xs = length ys \<Longrightarrow> of_be_bytes xs = of_be_bytes ys \<Longrightarrow> xs = ys"
  by (metis be_of_be_bytes)

section \<open>Hashes as bytes\<close>

lemma length_h256_as_ref [simp]: "length (h256_as_ref h) = 32"
  by (simp add: h256_as_ref_def)

lemma of_be_bytes_h256 [simp]: "of_be_bytes (h256_as_ref h) = unat h"
  using unat_lt2p [of h] by (simp add: h256_as_ref_def of_be_be_bytes)

lemma h256_from_as_ref [simp]: "h256_from_bytes (h256_as_ref h) = h"
  by (simp add: h256_from_bytes_def)

lemma h256_as_ref_from: "length bs = 32 \<Longrightarrow> h256_as_ref (h256_from_bytes bs) = bs"
  using of_be_bytes_bound [of bs] be_of_be_bytes [of bs]
  by (simp add: h256_as_ref_def h256_from_bytes_def unat_of_nat)

lemma h256_as_ref_inj [simp]: "h256_as_ref a = h256_as_ref b \<longleftrightarrow> a = b"
  by (metis h256_from_as_ref)

lemma lex_halves:
  fixes a b c d m :: nat
  assumes "b < m" "d < m"
  shows "a * m + b < c * m + d \<longleftrightarrow> a < c \<or> a = c \<and> b < d"
proof -
  have less: "x * m + y < z * m + w" if "x < z" "y < m" for x y z w :: nat
  proof -
    have "Suc x * m \<le> z * m" using that by (intro mult_le_mono1) simp
    with that show ?thesis by simp
  qed
  show ?thesis using less [of a c b d] less [of c a d b] assms by (cases a c rule: linorder_cases) auto
qed

lemma h256_halves:
  "unat h = of_be_bytes (take 16 (h256_as_ref h)) * 256 ^ 16 + of_be_bytes (drop 16 (h256_as_ref h))"
  using of_be_bytes_append [of "take 16 (h256_as_ref h)" "drop 16 (h256_as_ref h)"] by simp

lemma h256_lower_bound: "of_be_bytes (drop 16 (h256_as_ref h)) < 256 ^ 16"
  using of_be_bytes_bound [of "drop 16 (h256_as_ref h)"] by simp

lemma h256_cmp_word:
  "h256_cmp a b = (if a < b then Less else if a = b then Equal else Greater)"
proof -
  let ?ha = "of_be_bytes (take 16 (h256_as_ref a))" and ?la = "of_be_bytes (drop 16 (h256_as_ref a))"
  let ?hb = "of_be_bytes (take 16 (h256_as_ref b))" and ?lb = "of_be_bytes (drop 16 (h256_as_ref b))"
  have lt: "a < b \<longleftrightarrow> ?ha < ?hb \<or> ?ha = ?hb \<and> ?la < ?lb"
    unfolding word_less_nat_alt h256_halves [of a] h256_halves [of b]
    by (rule lex_halves) (rule h256_lower_bound)+
  have gt: "b < a \<longleftrightarrow> ?hb < ?ha \<or> ?hb = ?ha \<and> ?lb < ?la"
    unfolding word_less_nat_alt h256_halves [of a] h256_halves [of b]
    by (rule lex_halves) (rule h256_lower_bound)+
  show ?thesis
    using lt gt by (cases a b rule: linorder_cases) (auto simp: h256_cmp_def nat_cmp_def Let_def)
qed

section \<open>The hexadecimal text of a hash\<close>

lemma hex_digit_inj: "m < 16 \<Longrightarrow> n < 16 \<Longrightarrow> hex_digit m = hex_digit n \<longleftrightarrow> m = n"
  by (auto simp: hex_digit_def char_of_eq_iff take_bit_eq_mod split: if_splits)

lemma hex_byte_inj: "hex_byte a = hex_byte b \<longleftrightarrow> a = b"
proof
  assume eq: "hex_byte a = hex_byte b"
  have "unat a < 256" "unat b < 256" by (rule unat_u8_less)+
  then have "unat a div 16 < 16" "unat b div 16 < 16" by simp_all
  with eq have "unat a div 16 = unat b div 16" "unat a mod 16 = unat b mod 16"
    by (simp_all add: hex_byte_def hex_digit_inj)
  then have "unat a = unat b" by (metis div_mult_mod_eq)
  then show "a = b" by (simp add: word_unat_eq_iff)
qed simp

lemma concat_hex_inj: "concat (map hex_byte xs) = concat (map hex_byte ys) \<Longrightarrow> xs = ys"
proof (induction xs arbitrary: ys)
  case Nil
  then show ?case by (cases ys) (auto simp: hex_byte_def)
next
  case (Cons x xs)
  from Cons.prems obtain y ys' where ys: "ys = y # ys'" by (cases ys) (auto simp: hex_byte_def)
  with Cons.prems have "hex_byte x = hex_byte y" "concat (map hex_byte xs) = concat (map hex_byte ys')"
    by (auto simp: hex_byte_def [of x] hex_byte_def [of y])
  with ys Cons.IH show ?case by (simp add: hex_byte_inj)
qed

lemma h256_to_string_inj: "h256_to_string a = h256_to_string b \<longleftrightarrow> a = b"
  unfolding h256_to_string_def h256_display_def Let_def by (auto dest: concat_hex_inj)

lemma length_h256_to_string: "length (h256_to_string h) = 64"
proof -
  have "length (concat (map hex_byte bs)) = 2 * length bs" for bs
    by (induction bs) (auto simp: hex_byte_def)
  then show ?thesis by (simp add: h256_to_string_def h256_display_def)
qed

end
