(* ===== verification/Prism_Merge.thy ===== *)
theory Prism_Merge
  imports Prism_Hash
begin

text \<open>
  The merge operators that the blockchain database registers with RocksDB (end of
  \<open>blockchain/mod.rs\<close>). RocksDB may apply the full operator to any prefix of the pending operands and
  may combine consecutive operands by the partial operator before. The locale states what that
  freedom requires of a pair of operators; in it, merging operand by operand as soon as
  it is written gives the value that every lazy schedule gives, which is how the model of the
  database treats a merge. When no partial operator is registered, the full operator
  without existing value takes its place.
\<close>

section \<open>The operators\<close>

definition push_new :: "'a \<Rightarrow> 'a list \<Rightarrow> 'a list" where
  "push_new x xs = (if x \<in> set xs then xs else xs @ [x])"

definition h256_vec_append_merge :: "h256 list option \<Rightarrow> h256 list list \<Rightarrow> h256 list" where
  "h256_vec_append_merge existing_val operands =
     fold (fold push_new) operands (case existing_val of Some v \<Rightarrow> v | None \<Rightarrow> [])"

definition u64_plus_merge :: "nat option \<Rightarrow> nat list \<Rightarrow> nat" where
  "u64_plus_merge existing_val operands =
     fold (\<lambda>to_add existing. existing + to_add) operands (case existing_val of Some v \<Rightarrow> v | None \<Rightarrow> 0)"

definition apply_vote :: "bool \<times> nat \<times> nat \<Rightarrow> (nat \<times> nat) list \<Rightarrow> (nat \<times> nat) list res" where
  "apply_vote operation existing = (case operation of (add, chain, level) \<Rightarrow>
     if add then Ok (push_new (chain, level) existing)
     else case position (\<lambda>x. fst x = chain \<and> snd x = level) existing of
            Some p \<Rightarrow> Ok (swap_remove existing p)
          | None \<Rightarrow> Panic UnreachableCode)"

definition vote_vec_full_merge ::
  "(nat \<times> nat) list option \<Rightarrow> (bool \<times> nat \<times> nat) list list \<Rightarrow> (nat \<times> nat) list res" where
  "vote_vec_full_merge existing_val operands =
     rfold (\<lambda>op existing. rfold apply_vote op existing) operands
       (case existing_val of Some v \<Rightarrow> v | None \<Rightarrow> [])"

definition vote_vec_partial_merge :: "(bool \<times> nat \<times> nat) list list \<Rightarrow> (bool \<times> nat \<times> nat) list" where
  "vote_vec_partial_merge operands = fold (\<lambda>x operations. operations @ x) operands []"

section \<open>The contract of a merge operator\<close>

locale merge_operator =
  fixes full :: "'v option \<Rightarrow> 'o list \<Rightarrow> 'v res"
    and partial :: "'o list \<Rightarrow> 'o"
  assumes full_append:
      "xs \<noteq> [] \<Longrightarrow> full v (xs @ ys) = rbind (full v xs) (\<lambda>w. if ys = [] then Ok w else full (Some w) ys)"
    and full_partial: "xs \<noteq> [] \<Longrightarrow> full v [partial xs] = full v xs"
begin

text \<open>One operand merged as soon as it is written.\<close>

definition eager :: "'v option \<Rightarrow> 'o list \<Rightarrow> 'v option res" where
  "eager v ops = rfold (\<lambda>op w. rbind (full w [op]) (\<lambda>x. Ok (Some x))) ops v"

text \<open>A lazy schedule: the operands in consecutive groups, each group combined by the partial
  operator, then one full merge.\<close>

definition lazy_merge :: "'v option \<Rightarrow> 'o list list \<Rightarrow> 'v res" where
  "lazy_merge v groups = full v (map partial groups)"

lemma full_Cons:
  "ys \<noteq> [] \<Longrightarrow> full v (x # ys) = rbind (full v [x]) (\<lambda>w. full (Some w) ys)"
  using full_append [of "[x]" v ys] by simp

lemma full_map_partial:
  "groups \<noteq> [] \<Longrightarrow> \<forall>g \<in> set groups. g \<noteq> [] \<Longrightarrow> full v (map partial groups) = full v (concat groups)"
proof (induction groups arbitrary: v)
  case (Cons g gs)
  show ?case
  proof (cases "gs = []")
    case True
    with Cons show ?thesis by (simp add: full_partial)
  next
    case False
    then have ne: "concat gs \<noteq> []" using Cons.prems by (cases gs) auto
    have IH: "full w (map partial gs) = full w (concat gs)" for w using Cons False by simp
    from False have "full v (map partial (g # gs)) = rbind (full v [partial g]) (\<lambda>w. full (Some w) (map partial gs))"
      by (simp add: full_Cons)
    also have "\<dots> = rbind (full v g) (\<lambda>w. full (Some w) (concat gs))"
      using Cons.prems by (simp add: IH full_partial)
    also have "\<dots> = full v (concat (g # gs))" using full_append [of g v "concat gs"] Cons.prems ne by simp
    finally show ?thesis .
  qed
qed simp

lemma eager_full: "ops \<noteq> [] \<Longrightarrow> eager v ops = rbind (full v ops) (\<lambda>x. Ok (Some x))"
proof (induction ops arbitrary: v)
  case (Cons op ops)
  show ?case
  proof (cases "ops = []")
    case False
    with Cons.IH have IH: "rfold (\<lambda>op w. rbind (full w [op]) (\<lambda>x. Ok (Some x))) ops w
        = rbind (full w ops) (\<lambda>x. Ok (Some x))" for w by (simp add: eager_def)
    show ?thesis using False by (cases "full v [op]") (simp_all add: eager_def IH full_Cons [of ops])
  qed (simp add: eager_def rbind_assoc)
qed simp

lemma lazy_eager:
  assumes "groups \<noteq> []" and "\<forall>g \<in> set groups. g \<noteq> []"
  shows "rbind (lazy_merge v groups) (\<lambda>x. Ok (Some x)) = eager v (concat groups)"
proof -
  have "concat groups \<noteq> []" using assms by (cases groups) auto
  then show ?thesis using assms by (simp add: lazy_merge_def full_map_partial eager_full)
qed

end

section \<open>The registered operators meet it\<close>

lemma set_fold_push_new: "set (fold push_new ys xs) = set xs \<union> set ys"
  by (induction ys arbitrary: xs) (auto simp: push_new_def)

lemma distinct_fold_push_new: "distinct xs \<Longrightarrow> distinct (fold push_new ys xs)"
  by (induction ys arbitrary: xs) (auto simp: push_new_def)

lemma fold_push_new_subset: "set ys \<subseteq> set xs \<Longrightarrow> fold push_new ys xs = xs"
  by (induction ys) (auto simp: push_new_def)

lemma fold_push_new_snoc: "fold push_new (push_new y ys) xs = push_new y (fold push_new ys xs)"
  by (auto simp: push_new_def set_fold_push_new)

lemma fold_push_new_twice: "fold push_new (fold push_new ys zs) xs = fold push_new ys (fold push_new zs xs)"
proof (induction ys arbitrary: zs)
  case (Cons y ys)
  show ?case by (simp add: Cons.IH fold_push_new_snoc)
qed simp

lemma fold_fold_push_new: "fold (fold push_new) ops xs = fold push_new (concat ops) xs"
  by (induction ops arbitrary: xs) simp_all

interpretation append_merge: merge_operator
  "\<lambda>v ops. Ok (h256_vec_append_merge v ops)" "h256_vec_append_merge None"
proof
  fix xs ys :: "h256 list list" and v
  assume "xs \<noteq> []"
  show "Ok (h256_vec_append_merge v (xs @ ys)) = rbind (Ok (h256_vec_append_merge v xs))
      (\<lambda>w. if ys = [] then Ok w else Ok (h256_vec_append_merge (Some w) ys))"
    by (simp add: h256_vec_append_merge_def)
  show "Ok (h256_vec_append_merge v [h256_vec_append_merge None xs]) = Ok (h256_vec_append_merge v xs)"
    by (simp add: h256_vec_append_merge_def fold_fold_push_new fold_push_new_twice)
qed

lemma fold_plus: "fold (\<lambda>a e. e + a) ops x = x + sum_list (ops :: nat list)"
  by (induction ops arbitrary: x) simp_all

interpretation plus_merge: merge_operator "\<lambda>v ops. Ok (u64_plus_merge v ops)" "u64_plus_merge None"
  by unfold_locales (simp_all add: u64_plus_merge_def fold_plus split: option.split)

lemma rfold_concat: "rfold (\<lambda>op e. rfold f op e) ops x = rfold f (concat ops) x"
proof (induction ops arbitrary: x)
  case (Cons op ops)
  show ?case by (cases "rfold f op x") (simp_all add: rfold_append Cons.IH)
qed simp

lemma partial_concat: "vote_vec_partial_merge ops = concat ops"
proof -
  have "fold (\<lambda>x operations. operations @ x) ops acc = acc @ concat ops" for acc
    by (induction ops arbitrary: acc) simp_all
  then show ?thesis by (simp add: vote_vec_partial_merge_def)
qed

interpretation vote_merge: merge_operator vote_vec_full_merge vote_vec_partial_merge
proof
  fix xs ys :: "(bool \<times> nat \<times> nat) list list" and v
  show "vote_vec_full_merge v (xs @ ys) = rbind (vote_vec_full_merge v xs)
      (\<lambda>w. if ys = [] then Ok w else vote_vec_full_merge (Some w) ys)"
    unfolding vote_vec_full_merge_def rfold_append
    by (rule rbind_cong) auto
  show "vote_vec_full_merge v [vote_vec_partial_merge xs] = vote_vec_full_merge v xs"
    unfolding vote_vec_full_merge_def rfold_concat partial_concat by simp
qed

text \<open>C40: the vote operator gives the same vote list whatever schedule the database chooses:
  combining consecutive groups of operands by the partial operator and merging them at once equals
  merging every operand when it is written.\<close>

theorem vote_merge_schedule:
  assumes "groups \<noteq> []" and "\<forall>g \<in> set groups. g \<noteq> []"
  shows "rbind (vote_vec_full_merge v (map vote_vec_partial_merge groups)) (\<lambda>x. Ok (Some x)) =
    rfold (\<lambda>op w. rbind (vote_vec_full_merge w [op]) (\<lambda>x. Ok (Some x))) (concat groups) v"
  using vote_merge.lazy_eager [OF assms, of v]
  by (simp add: vote_merge.lazy_merge_def vote_merge.eager_def)

theorem vote_merge_schedule_witness:
  "rbind (vote_vec_full_merge None (map vote_vec_partial_merge
       [[[(True, 0, 1)], [(True, 1, 1)]], [[(False, 0, 1)]]])) (\<lambda>x. Ok (Some x)) =
   rfold (\<lambda>op w. rbind (vote_vec_full_merge w [op]) (\<lambda>x. Ok (Some x)))
     [[(True, 0, 1)], [(True, 1, 1)], [(False, 0, 1)]] None \<and>
   vote_vec_full_merge None [[(True, 0, 1)], [(True, 1, 1)], [(False, 0, 1)]] = Ok [(1, 1)]"
proof
  show "vote_vec_full_merge None [[(True, 0, 1)], [(True, 1, 1)], [(False, 0, 1)]] = Ok [(1, 1)]"
    by (simp add: vote_vec_full_merge_def apply_vote_def push_new_def swap_remove_def)
qed (use vote_merge_schedule [of "[[[(True, 0, 1)], [(True, 1, 1)]], [[(False, 0, 1)]]]" None] in simp)

end
