(* ===== verification/Prism_Merkle.thy ===== *)
theory Prism_Merkle
  imports Prism_Hash
begin

text \<open>
  Model of \<^verbatim>\<open>src/src/crypto/merkle.rs\<close>: a Merkle tree stored in one vector, the root in slot 0 and
  the leaves at the end, every layer but the root padded to an even number of nodes by repeating
  its last node. The operations below run over the vector with the index arithmetic of the source;
  an access outside a vector or a negative \<open>usize\<close> is a panic.

  The reference definition \<open>tree_nodes\<close> builds the same vector layer by layer. The lemmas show that
  the construction computes it, that a proof taken from a tree verifies, that an in-place update is
  the tree of the updated data, and that a verifying proof pins the leaf unless it exhibits a
  collision of the hash function.
\<close>

record merkle_tree =
  data_size :: "nat list"
  nodes :: "h256 list"

definition hash_pair :: "(bytes \<Rightarrow> h256) \<Rightarrow> h256 \<Rightarrow> h256 \<Rightarrow> h256" where
  "hash_pair keccak left right = keccak (h256_as_ref left @ h256_as_ref right)"

text \<open>The size of a layer after its last node is duplicated.\<close>

definition padded :: "nat \<Rightarrow> nat" where
  "padded n = (if odd n then n + 1 else n)"

text \<open>The loop over the layers, from the leaves to the root: the size after and before
  duplication. The source never runs it on an empty layer.\<close>

function layer_sizes :: "nat \<Rightarrow> (nat \<times> nat) list" where
  "layer_sizes n = (if n \<le> 1 then [(n, n)] else (padded n, n) # layer_sizes (padded n div 2))"
  by pat_completeness auto
termination
  by (relation "measure id") (auto simp: padded_def elim!: oddE)

declare layer_sizes.simps [simp del]

section \<open>Construction\<close>

definition duplicate_last :: "nat \<Rightarrow> nat \<Rightarrow> nat \<Rightarrow> h256 list \<Rightarrow> h256 list res" where
  "duplicate_last layer_start l d ns =
     (if l \<noteq> d then rbind (rnth ns (layer_start + d - 1)) (\<lambda>v. rset ns (layer_start + l - 1) v)
      else Ok ns)"

definition fill_bottom :: "nat \<Rightarrow> nat \<Rightarrow> nat \<Rightarrow> h256 list \<Rightarrow> h256 list \<Rightarrow> h256 list res" where
  "fill_bottom layer_start l d hashed ns =
     (if layer_start + d \<le> length ns \<and> length hashed = d
      then duplicate_last layer_start l d
             (take layer_start ns @ hashed @ drop (layer_start + d) ns)
      else Panic OutOfBounds)"

definition fill_node ::
  "(bytes \<Rightarrow> h256) \<Rightarrow> nat \<Rightarrow> nat \<Rightarrow> nat \<Rightarrow> h256 list \<Rightarrow> h256 list res" where
  "fill_node keccak last_layer_start layer_start i ns =
     rbind (rnth ns (last_layer_start + 2 * i)) (\<lambda>left.
     rbind (rnth ns (last_layer_start + 2 * i + 1)) (\<lambda>right.
     rset ns (layer_start + i) (hash_pair keccak left right)))"

fun fill_layers ::
  "(bytes \<Rightarrow> h256) \<Rightarrow> (nat \<times> nat) list \<Rightarrow> nat \<Rightarrow> h256 list \<Rightarrow> h256 list res" where
  "fill_layers keccak [] last_layer_start ns = Ok ns"
| "fill_layers keccak ((l, d) # rest) last_layer_start ns =
     rbind (rsub last_layer_start l) (\<lambda>layer_start.
     rbind (rfold (fill_node keccak last_layer_start layer_start) [0..<d] ns) (\<lambda>ns1.
     rbind (duplicate_last layer_start l d ns1) (\<lambda>ns2.
     fill_layers keccak rest layer_start ns2)))"

definition merkle_new :: "(bytes \<Rightarrow> h256) \<Rightarrow> ('a \<Rightarrow> h256) \<Rightarrow> 'a list \<Rightarrow> merkle_tree res" where
  "merkle_new keccak hash data =
     (if length data = 0 then Ok \<lparr>data_size = [0], nodes = []\<rparr>
      else
        let sizes = layer_sizes (length data);
            tree_size = sum_list (map fst sizes);
            ns = replicate tree_size 0
        in case sizes of
             [] \<Rightarrow> Panic UnwrapNone
           | (l, d) # rest \<Rightarrow>
               rbind (rsub tree_size l) (\<lambda>layer_start.
               rbind (fill_bottom layer_start l d (map hash data) ns) (\<lambda>ns1.
               rbind (fill_layers keccak rest layer_start ns1) (\<lambda>ns2.
               Ok \<lparr>data_size = map snd sizes, nodes = ns2\<rparr>))))"

definition merkle_root :: "merkle_tree \<Rightarrow> h256" where
  "merkle_root t = (case nodes t of [] \<Rightarrow> 0 | n # _ \<Rightarrow> n)"

section \<open>Proofs, leaves and updates\<close>

text \<open>The loop of \<open>proof\<close>; the list holds \<open>data_size[layer + 1 ..]\<close>.\<close>

fun proof_loop :: "h256 list \<Rightarrow> nat list \<Rightarrow> nat \<Rightarrow> nat \<Rightarrow> h256 list res" where
  "proof_loop ns ds layer_start index =
     (let nodes_index = layer_start + index in
      rbind (if odd nodes_index then Ok (nodes_index + 1) else rsub nodes_index 1) (\<lambda>sibling_index.
      rbind (rnth ns sibling_index) (\<lambda>h.
        case ds of
          [] \<Rightarrow> Panic OutOfBounds
        | [_] \<Rightarrow> Ok [h]
        | d # d' # ds' \<Rightarrow>
            rbind (rsub layer_start (padded d)) (\<lambda>s.
            rbind (proof_loop ns (d' # ds') s (index div 2)) (\<lambda>r. Ok (h # r))))))"

declare proof_loop.simps [simp del]

definition merkle_proof :: "merkle_tree \<Rightarrow> nat \<Rightarrow> h256 list res" where
  "merkle_proof t index =
     (if length (data_size t) = 1 then Ok []
      else rbind (rnth (data_size t) 0) (\<lambda>d0.
        if index \<ge> d0 then Ok []
        else rbind (rsub (length (nodes t)) (padded d0)) (\<lambda>layer_start.
             proof_loop (nodes t) (tl (data_size t)) layer_start index)))"

definition merkle_leaf :: "merkle_tree \<Rightarrow> nat \<Rightarrow> h256 res" where
  "merkle_leaf t index =
     rbind (rnth (data_size t) 0) (\<lambda>d0.
       if index \<ge> d0 then Ok 0
       else if d0 = 1 then rnth (nodes t) 0
       else rbind (rsub (length (nodes t)) (padded d0)) (\<lambda>last_layer_start.
            rnth (nodes t) (last_layer_start + index)))"

definition updated_node ::
  "(bytes \<Rightarrow> h256) \<Rightarrow> h256 \<Rightarrow> nat \<Rightarrow> nat \<Rightarrow> nat \<Rightarrow> nat \<Rightarrow> h256 list \<Rightarrow> h256 res" where
  "updated_node keccak h last_layer_start layer_start d index ns =
     (let nodes_index = layer_start + index in
      if nodes_index \<ge> last_layer_start then Ok h
      else if nodes_index > 0 then
        (let left_index = layer_start + 2 * index + padded d in
         rbind (rnth ns left_index) (\<lambda>left.
         rbind (rnth ns (left_index + 1)) (\<lambda>right. Ok (hash_pair keccak left right))))
      else
        rbind (rnth ns 1) (\<lambda>left.
        rbind (rnth ns 2) (\<lambda>right. Ok (hash_pair keccak left right))))"

text \<open>The loop of \<open>update\<close>; the list holds \<open>data_size[layer ..]\<close>.\<close>

fun update_loop ::
  "(bytes \<Rightarrow> h256) \<Rightarrow> h256 \<Rightarrow> nat \<Rightarrow> nat list \<Rightarrow> nat \<Rightarrow> nat \<Rightarrow> h256 list \<Rightarrow> h256 list res" where
  "update_loop keccak h last_layer_start [] layer_start index ns = Panic OutOfBounds"
| "update_loop keccak h last_layer_start (d # ds) layer_start index ns =
     (let nodes_index = layer_start + index in
      rbind (updated_node keccak h last_layer_start layer_start d index ns) (\<lambda>v.
      rbind (rset ns nodes_index v) (\<lambda>ns1.
      rbind (if nodes_index = layer_start + d - 1 \<and> odd nodes_index
             then rset ns1 (nodes_index + 1) v else Ok ns1) (\<lambda>ns2.
        case ds of
          [] \<Rightarrow> Ok ns2
        | d' # ds' \<Rightarrow>
            if ds' = [] then update_loop keccak h last_layer_start ds 0 (index div 2) ns2
            else rbind (rsub layer_start (padded d')) (\<lambda>s.
                 update_loop keccak h last_layer_start ds s (index div 2) ns2)))))"

definition merkle_update ::
  "(bytes \<Rightarrow> h256) \<Rightarrow> ('a \<Rightarrow> h256) \<Rightarrow> merkle_tree \<Rightarrow> nat \<Rightarrow> 'a \<Rightarrow> merkle_tree res" where
  "merkle_update keccak hash t index x =
     rbind (rnth (data_size t) 0) (\<lambda>d0.
       if index \<ge> d0 then Ok t
       else if d0 = 1 then
         rbind (rset (nodes t) 0 (hash x)) (\<lambda>ns. Ok (t\<lparr>nodes := ns\<rparr>))
       else
         rbind (rsub (length (nodes t)) (padded d0)) (\<lambda>last_layer_start.
         rbind (update_loop keccak (hash x) last_layer_start (data_size t)
                  last_layer_start index (nodes t)) (\<lambda>ns.
         Ok (t\<lparr>nodes := ns\<rparr>))))"

section \<open>Verification of a proof\<close>

text \<open>The loop of \<open>verify\<close>; the list holds \<open>layer_size[layer + 1 ..]\<close>, \<open>None\<close> is the early
  \<open>return false\<close>.\<close>

fun verify_loop ::
  "(bytes \<Rightarrow> h256) \<Rightarrow> h256 list \<Rightarrow> nat list \<Rightarrow> nat \<Rightarrow> nat \<Rightarrow> h256 \<Rightarrow> h256 option res" where
  "verify_loop keccak [] ls layer_start index acc = Ok (Some acc)"
| "verify_loop keccak (h # hs) ls layer_start index acc =
     (let nodes_index = layer_start + index in
      if nodes_index = 0 then Ok None
      else
        let acc' = (if odd nodes_index then hash_pair keccak acc h else hash_pair keccak h acc)
        in case ls of
             [] \<Rightarrow> Panic OutOfBounds
           | l # ls' \<Rightarrow>
               rbind (rsub layer_start l) (\<lambda>s. verify_loop keccak hs ls' s (index div 2) acc'))"

text \<open>The layer sizes are computed in \<open>usize\<close>. For a leaf count below \<open>2 ^ 62\<close> no sum of them
  reaches \<open>2 ^ 64\<close>; beyond that the additions may wrap (for \<open>usize::MAX\<close> the layer size wraps to 0 and
  the loop that halves it never reaches 1), which the model reports as an overflow.\<close>

definition usize_safe :: "nat \<Rightarrow> bool" where
  "usize_safe n \<longleftrightarrow> n < 2 ^ 62"

definition verify ::
  "(bytes \<Rightarrow> h256) \<Rightarrow> h256 \<Rightarrow> h256 \<Rightarrow> h256 list \<Rightarrow> nat \<Rightarrow> nat \<Rightarrow> bool res" where
  "verify keccak root data pf index leaf_size =
     (if index \<ge> leaf_size then Ok False
      else if \<not> usize_safe leaf_size then Panic ArithOverflow
      else
        let layer_size = map fst (layer_sizes leaf_size) in
        if length layer_size \<noteq> length pf + 1 then Ok False
        else
          rbind (verify_loop keccak pf (tl layer_size) (sum_list (tl layer_size)) index data) (\<lambda>r.
            case r of None \<Rightarrow> Ok False | Some acc \<Rightarrow> Ok (acc = root)))"

section \<open>The reference tree\<close>

definition pad :: "'a list \<Rightarrow> 'a list" where
  "pad xs = (if odd (length xs) then xs @ [last xs] else xs)"

fun pair_up :: "('a \<Rightarrow> 'a \<Rightarrow> 'a) \<Rightarrow> 'a list \<Rightarrow> 'a list" where
  "pair_up f (x # y # zs) = f x y # pair_up f zs"
| "pair_up f zs = []"

lemma length_pair_up [simp]: "length (pair_up f xs) = length xs div 2"
  by (induction f xs rule: pair_up.induct) auto

lemma length_pad [simp]: "length (pad xs) = padded (length xs)"
  by (simp add: pad_def padded_def)

lemma padded_half_less: "1 < n \<Longrightarrow> padded n div 2 < n"
  by (auto simp: padded_def elim!: oddE)

text \<open>One layer above another, and the whole vector of a tree.\<close>

definition parent_layer :: "('a \<Rightarrow> 'a \<Rightarrow> 'a) \<Rightarrow> 'a list \<Rightarrow> 'a list" where
  "parent_layer f xs = pair_up f (pad xs)"

lemma length_parent_layer [simp]: "length (parent_layer f xs) = padded (length xs) div 2"
  by (simp add: parent_layer_def)

function tree_nodes :: "('a \<Rightarrow> 'a \<Rightarrow> 'a) \<Rightarrow> 'a list \<Rightarrow> 'a list" where
  "tree_nodes f xs =
     (if length xs \<le> 1 then xs else tree_nodes f (parent_layer f xs) @ pad xs)"
  by pat_completeness auto
termination
  by (relation "measure (\<lambda>(f, xs). length xs)") (auto simp: padded_half_less)

declare tree_nodes.simps [simp del]

lemma tree_nodes_le1: "length xs \<le> 1 \<Longrightarrow> tree_nodes f xs = xs"
  by (simp add: tree_nodes.simps [of f xs])

section \<open>Layer sizes\<close>

text \<open>The number of slots above the layer of \<open>n\<close> data nodes, where that layer starts, and the
  size of a layer after duplication (the root layer is not duplicated).\<close>

definition above :: "nat \<Rightarrow> nat" where
  "above n = sum_list (map fst (tl (layer_sizes n)))"

definition slots :: "nat \<Rightarrow> nat" where
  "slots n = (if n \<le> 1 then n else padded n)"

lemma layer_sizes_le1: "n \<le> 1 \<Longrightarrow> layer_sizes n = [(n, n)]"
  by (simp add: layer_sizes.simps [of n])

lemma layer_sizes_step: "1 < n \<Longrightarrow> layer_sizes n = (padded n, n) # layer_sizes (padded n div 2)"
  by (simp add: layer_sizes.simps [of n])

lemma layer_sizes_Cons: "layer_sizes n = (slots n, n) # tl (layer_sizes n)"
  by (simp add: layer_sizes.simps [of n] slots_def)

lemma above_le1 [simp]: "n \<le> 1 \<Longrightarrow> above n = 0"
  by (simp add: above_def layer_sizes_le1)

lemma above_step: "1 < n \<Longrightarrow> above n = slots (padded n div 2) + above (padded n div 2)"
  by (simp add: above_def layer_sizes_step layer_sizes_Cons [of "padded n div 2", symmetric]
      flip: layer_sizes_Cons)
     (metis layer_sizes_Cons fst_conv list.simps(9) sum_list.Cons)

lemma sum_layer_sizes: "sum_list (map fst (layer_sizes n)) = slots n + above n"
  unfolding above_def by (subst layer_sizes_Cons) simp

lemma even_padded [simp]: "even (padded n)"
  by (simp add: padded_def)

lemma padded_ge: "n \<le> padded n" "padded n \<le> Suc n"
  by (simp_all add: padded_def)

lemma padded_half_pos: "0 < n \<Longrightarrow> 0 < padded n div 2"
  by (auto simp: padded_def elim!: oddE evenE)

lemma half_index: "i < n \<Longrightarrow> i div 2 < padded n div 2"
  by (auto simp: padded_def elim!: oddE evenE)

lemma odd_above: "1 < n \<Longrightarrow> odd (above n)"
proof (induction n rule: less_induct)
  case (less n)
  let ?m = "padded n div 2"
  from less.prems have pos: "0 < ?m" by (intro padded_half_pos) simp
  show ?case
  proof (cases "?m = 1")
    case True
    with less.prems show ?thesis by (simp add: above_step slots_def)
  next
    case False
    with pos have "1 < ?m" by simp
    moreover have "?m < n" using less.prems by (rule padded_half_less)
    ultimately have "odd (above ?m)" by (intro less.IH)
    with less.prems \<open>1 < ?m\<close> show ?thesis by (simp add: above_step slots_def)
  qed
qed

lemma length_tree_nodes: "length (tree_nodes f xs) = slots (length xs) + above (length xs)"
proof (induction f xs rule: tree_nodes.induct)
  case (1 f xs)
  show ?case
  proof (cases "length xs \<le> 1")
    case True
    then show ?thesis by (simp add: tree_nodes.simps [of f xs] slots_def)
  next
    case False
    with 1 show ?thesis
      by (simp add: tree_nodes.simps [of f xs] above_step) (simp add: slots_def)
  qed
qed

lemma nth_pair_up: "i < length xs div 2 \<Longrightarrow> pair_up f xs ! i = f (xs ! (2 * i)) (xs ! (2 * i + 1))"
proof (induction f xs arbitrary: i rule: pair_up.induct)
  case (1 f x y zs)
  then show ?case by (cases i) auto
qed auto

lemma nth_pad: "i < length xs \<Longrightarrow> pad xs ! i = xs ! i"
  by (simp add: pad_def nth_append)

lemma nth_pad_last: "odd (length xs) \<Longrightarrow> pad xs ! length xs = xs ! (length xs - 1)"
  by (cases xs rule: rev_cases) (auto simp: pad_def nth_append)

lemma nth_parent_layer:
  "i < padded (length xs) div 2 \<Longrightarrow>
   parent_layer f xs ! i = f (pad xs ! (2 * i)) (pad xs ! (2 * i + 1))"
  by (simp add: parent_layer_def nth_pair_up)

section \<open>The construction computes the reference tree\<close>

lemma nth_append3:
  "length A + length B + j < length A + length B + length C + length D \<Longrightarrow> j < length C \<Longrightarrow>
   (A @ B @ C @ D) ! (length A + length B + j) = C ! j"
  by (simp add: nth_append)

lemma fill_nodes:
  assumes "k \<le> length ys" and ys: "ys = parent_layer (hash_pair keccak) xs" and "length ys \<le> l"
  shows "rfold (fill_node keccak (length A + l) (length A)) [0..<k] (A @ replicate l 0 @ pad xs @ suf)
       = Ok (A @ take k ys @ replicate (l - k) 0 @ pad xs @ suf)"
  using assms(1)
proof (induction k)
  case 0
  then show ?case by simp
next
  case (Suc k)
  let ?ns = "A @ take k ys @ replicate (l - k) 0 @ pad xs @ suf"
  from Suc.prems have k: "k < length ys" by simp
  with ys have kn: "2 * k + 1 < padded (length xs)" by (auto elim!: evenE)
  have len: "length (take k ys @ replicate (l - k) 0) = l" using k assms(3) by simp
  have at: "?ns ! (length A + l + j) = pad xs ! j" if "j < padded (length xs)" for j
    using nth_append3 [of A "take k ys @ replicate (l - k) 0" j "pad xs" suf] that len by simp
  have l: "replicate (l - k) 0 = 0 # replicate (l - Suc k) (0 :: h256)"
    using k assms(3) by (cases "l - k") (auto simp: Suc_diff_Suc)
  have upd: "?ns[length A + k := v] = A @ take (Suc k) ys @ replicate (l - Suc k) 0 @ pad xs @ suf"
    if "v = ys ! k" for v
    using k that by (simp add: list_update_append l take_Suc_conv_app_nth)
  have "fill_node keccak (length A + l) (length A) k ?ns
      = Ok (A @ take (Suc k) ys @ replicate (l - Suc k) 0 @ pad xs @ suf)"
  proof -
    have "ys ! k = hash_pair keccak (pad xs ! (2 * k)) (pad xs ! (2 * k + 1))"
      using k by (simp add: ys nth_parent_layer)
    then have "?ns[length A + k := hash_pair keccak (?ns ! (length A + l + 2 * k)) (?ns ! (length A + l + (2 * k + 1)))]
      = A @ take (Suc k) ys @ replicate (l - Suc k) 0 @ pad xs @ suf"
      using kn at [of "2 * k"] at [of "2 * k + 1"] by (intro upd) simp
    moreover have "length ?ns = length A + l + padded (length xs) + length suf" using k assms(3) by simp
    ultimately show ?thesis using kn k assms(3) by (simp add: fill_node_def add.assoc)
  qed
  with Suc show ?case by (simp add: rfold_append)
qed

lemma duplicate_last_pad:
  assumes "xs \<noteq> []" and "length xs \<le> 1 \<longrightarrow> l = length xs" and "1 < length xs \<longrightarrow> l = padded (length xs)"
  shows "duplicate_last (length A) l (length xs) (A @ xs @ replicate (l - length xs) 0 @ B)
       = Ok (A @ (if length xs \<le> 1 then xs else pad xs) @ B)"
proof (cases "l = length xs")
  case True
  then show ?thesis using assms by (auto simp: duplicate_last_def pad_def padded_def)
next
  case False
  with assms have odd: "odd (length xs)" and l: "l = Suc (length xs)" and n: "1 < length xs"
    by (auto simp: padded_def split: if_splits)
  have "(A @ xs @ 0 # B) ! (length A + length xs - 1) = last xs"
    using assms(1) by (cases xs rule: rev_cases) (simp_all add: nth_append)
  moreover have "(A @ xs @ 0 # B)[length A + length xs := last xs] = A @ (xs @ [last xs]) @ B"
    by (simp add: list_update_append)
  ultimately show ?thesis using odd l n assms(1)
    by (simp add: duplicate_last_def pad_def)
qed

lemma fill_layers_tree:
  assumes "xs \<noteq> []"
  shows "fill_layers keccak (tl (layer_sizes (length xs))) (above (length xs))
           (replicate (above (length xs)) 0 @ (if length xs \<le> 1 then xs else pad xs) @ suf)
       = Ok (tree_nodes (hash_pair keccak) xs @ suf)"
  using assms
proof (induction "hash_pair keccak" xs arbitrary: suf rule: tree_nodes.induct)
  case (1 xs)
  let ?f = "hash_pair keccak"
  show ?case
  proof (cases "length xs \<le> 1")
    case True
    then show ?thesis by (simp add: tree_nodes.simps [of ?f xs] layer_sizes_le1)
  next
    case False
    let ?ys = "parent_layer ?f xs" and ?m = "padded (length xs) div 2"
    let ?A = "replicate (above ?m) 0 :: h256 list"
    have n: "1 < length xs" using False by simp
    have m: "length ?ys = ?m" by simp
    have ys: "?ys \<noteq> []" using n padded_half_pos [of "length xs"] m by (metis length_0_conv less_numeral_extra(3) less_trans zero_less_one)
    have sl: "?m \<le> slots ?m" by (simp add: slots_def padded_ge)
    have tl: "tl (layer_sizes (length xs)) = (slots ?m, ?m) # tl (layer_sizes ?m)"
      using n by (simp add: layer_sizes_step flip: layer_sizes_Cons)
    have "rfold (fill_node keccak (length ?A + slots ?m) (length ?A)) [0..<?m]
            (?A @ replicate (slots ?m) 0 @ pad xs @ suf)
        = Ok (?A @ take ?m ?ys @ replicate (slots ?m - ?m) 0 @ pad xs @ suf)"
      by (rule fill_nodes) (use m sl in simp_all)
    then have fold: "rfold (fill_node keccak (above ?m + slots ?m) (above ?m)) [0..<?m]
            (?A @ replicate (slots ?m) 0 @ pad xs @ suf)
        = Ok (?A @ ?ys @ replicate (slots ?m - ?m) 0 @ pad xs @ suf)"
      using m by simp
    have "duplicate_last (length ?A) (slots ?m) (length ?ys) (?A @ ?ys @ replicate (slots ?m - length ?ys) 0 @ pad xs @ suf)
        = Ok (?A @ (if length ?ys \<le> 1 then ?ys else pad ?ys) @ pad xs @ suf)"
      using ys m by (intro duplicate_last_pad) (simp_all add: slots_def)
    then have dup: "duplicate_last (above ?m) (slots ?m) ?m (?A @ ?ys @ replicate (slots ?m - ?m) 0 @ pad xs @ suf)
        = Ok (?A @ (if length ?ys \<le> 1 then ?ys else pad ?ys) @ pad xs @ suf)"
      using m by simp
    have rest: "fill_layers keccak (tl (layer_sizes ?m)) (above ?m)
            (?A @ (if length ?ys \<le> 1 then ?ys else pad ?ys) @ pad xs @ suf)
        = Ok (tree_nodes ?f ?ys @ pad xs @ suf)"
      using 1(1) [OF False ys, of "pad xs @ suf"] m by simp
    show ?thesis
      using False n fold dup rest
      by (simp add: tl replicate_add above_step add.commute tree_nodes.simps [of ?f xs])
  qed
qed

lemma merkle_new_tree:
  assumes "data \<noteq> []"
  shows "merkle_new keccak hash data =
    Ok \<lparr>data_size = map snd (layer_sizes (length data)), nodes = tree_nodes (hash_pair keccak) (map hash data)\<rparr>"
proof -
  let ?n = "length data" and ?xs = "map hash data"
  let ?A = "replicate (above ?n) 0 :: h256 list"
  have n: "0 < ?n" using assms by simp
  have sl: "?n \<le> slots ?n" by (simp add: slots_def padded_ge)
  have "fill_bottom (above ?n) (slots ?n) ?n ?xs (replicate (slots ?n + above ?n) 0)
      = duplicate_last (length ?A) (slots ?n) (length ?xs) (?A @ ?xs @ replicate (slots ?n - length ?xs) 0 @ [])"
    using sl by (simp add: fill_bottom_def min_def)
  also have "\<dots> = Ok (?A @ (if length ?xs \<le> 1 then ?xs else pad ?xs) @ [])"
    using n by (intro duplicate_last_pad) (auto simp: slots_def)
  finally have bottom: "fill_bottom (above ?n) (slots ?n) ?n ?xs (replicate (slots ?n + above ?n) 0)
      = Ok (?A @ (if ?n \<le> 1 then ?xs else pad ?xs))" by simp
  have "fill_layers keccak (tl (layer_sizes (length ?xs))) (above (length ?xs))
          (replicate (above (length ?xs)) 0 @ (if length ?xs \<le> 1 then ?xs else pad ?xs) @ [])
      = Ok (tree_nodes (hash_pair keccak) ?xs @ [])"
    using n by (intro fill_layers_tree) simp
  moreover obtain rest where "layer_sizes ?n = (slots ?n, ?n) # rest" using layer_sizes_Cons by blast
  ultimately show ?thesis
    using bottom n unfolding merkle_new_def Let_def sum_layer_sizes by simp
qed

section \<open>Authentication paths\<close>

definition sibling :: "nat \<Rightarrow> nat" where
  "sibling i = (if even i then i + 1 else i - 1)"

function merkle_path :: "('a \<Rightarrow> 'a \<Rightarrow> 'a) \<Rightarrow> 'a list \<Rightarrow> nat \<Rightarrow> 'a list" where
  "merkle_path f xs i =
     (if length xs \<le> 1 then [] else pad xs ! sibling i # merkle_path f (parent_layer f xs) (i div 2))"
  by pat_completeness auto
termination
  by (relation "measure (\<lambda>(f, xs, i). length xs)") (auto simp: padded_half_less)

declare merkle_path.simps [simp del]

lemma sibling_bound: "i < n \<Longrightarrow> sibling i < padded n"
  by (auto simp: sibling_def padded_def elim!: oddE evenE)

lemma nth_layer: "1 < length xs \<Longrightarrow> j < padded (length xs) \<Longrightarrow>
   (tree_nodes f xs @ suf) ! (above (length xs) + j) = pad xs ! j"
  by (simp add: tree_nodes.simps [of f xs] above_step nth_append length_tree_nodes)

lemma nth_parent_sibling:
  assumes "i < length xs"
  shows "parent_layer f xs ! (i div 2) =
    (if even i then f (xs ! i) (pad xs ! sibling i) else f (pad xs ! sibling i) (xs ! i))"
proof -
  have "parent_layer f xs ! (i div 2) = f (pad xs ! (2 * (i div 2))) (pad xs ! (2 * (i div 2) + 1))"
    using half_index [OF assms] by (rule nth_parent_layer)
  then show ?thesis using assms nth_pad [OF assms] by (auto simp: sibling_def elim!: evenE oddE)
qed

lemma map_fst_layer_sizes:
  assumes "1 < n"
  shows "map fst (tl (layer_sizes n))
       = slots (padded n div 2) # map fst (tl (layer_sizes (padded n div 2)))"
proof -
  have "tl (layer_sizes n) = (slots (padded n div 2), padded n div 2) # tl (layer_sizes (padded n div 2))"
    using assms layer_sizes_Cons [of "padded n div 2"] by (simp add: layer_sizes_step)
  then show ?thesis by simp
qed

lemma rsub_above: "1 < n \<Longrightarrow> rsub (above n) (slots (padded n div 2)) = Ok (above (padded n div 2))"
  by (simp add: above_step)

lemma proof_loop_path:
  assumes "1 < length xs" and "i < length xs"
  shows "proof_loop (tree_nodes f xs @ suf) (map snd (tl (layer_sizes (length xs)))) (above (length xs)) i
       = Ok (merkle_path f xs i)"
  using assms
proof (induction f xs i arbitrary: suf rule: merkle_path.induct)
  case (1 f xs i)
  let ?n = "length xs" and ?ys = "parent_layer f xs" and ?m = "padded (length xs) div 2"
  have n: "\<not> ?n \<le> 1" using 1 by simp
  have m: "0 < ?m" using 1(2) by (intro padded_half_pos) linarith
  have len: "above ?n + sibling i < length (tree_nodes f xs @ suf)"
    using 1 sibling_bound [of i ?n] by (simp add: length_tree_nodes slots_def)
  have sib: "(if odd (above ?n + i) then Ok (above ?n + i + 1) else rsub (above ?n + i) 1) = Ok (above ?n + sibling i)"
    using odd_above [of ?n] 1 by (auto simp: sibling_def elim!: oddE)
  have at: "rnth (tree_nodes f xs @ suf) (above ?n + sibling i) = Ok (pad xs ! sibling i)"
    using len nth_layer [of xs "sibling i" f suf] 1 sibling_bound [of i ?n] by simp
  show ?case
  proof (cases "?m = 1")
    case True
    then show ?thesis
      using n 1(2,3) sib at
      by (subst proof_loop.simps) (simp add: layer_sizes_step layer_sizes_le1 merkle_path.simps)
  next
    case False
    then have m1: "1 < ?m" using m by simp
    have IH: "proof_loop (tree_nodes f ?ys @ (pad xs @ suf)) (map snd (tl (layer_sizes ?m))) (above ?m) (i div 2)
            = Ok (merkle_path f ?ys (i div 2))"
      using 1(1) [OF n, of "pad xs @ suf"] m1 half_index 1(3) by simp
    moreover have "tree_nodes f xs @ suf = tree_nodes f ?ys @ (pad xs @ suf)"
      using n by (simp add: tree_nodes.simps [of f xs])
    moreover have "map snd (tl (layer_sizes ?n)) = ?m # map snd (layer_sizes (padded ?m div 2))"
      using 1(2) m1 by (simp add: layer_sizes_step)
    moreover obtain r where "layer_sizes (padded ?m div 2) = (slots (padded ?m div 2), padded ?m div 2) # r"
      using layer_sizes_Cons by blast
    moreover have "rsub (above ?n) (padded ?m) = Ok (above ?m)"
      using 1(2) m1 rsub_above [of ?n] by (simp add: slots_def)
    ultimately show ?thesis
      using n m1 sib at
      by (subst proof_loop.simps) (simp add: layer_sizes_step [of ?m] merkle_path.simps [of f xs])
  qed
qed

lemma merkle_new_eq:
  assumes "merkle_new keccak hash data = Ok t" and "i < length data"
  shows "t = \<lparr>data_size = map snd (layer_sizes (length data)),
              nodes = tree_nodes (hash_pair keccak) (map hash data)\<rparr>"
proof -
  from assms(2) have "data \<noteq> []" by auto
  from merkle_new_tree [OF this] assms(1) show ?thesis by simp
qed

lemma merkle_proof_path:
  assumes "merkle_new keccak hash data = Ok t" and "i < length data"
  shows "merkle_proof t i = Ok (merkle_path (hash_pair keccak) (map hash data) i)"
proof (cases "length data = 1")
  case True
  then have "data \<noteq> []" by auto
  with True show ?thesis using assms merkle_new_tree [of data keccak hash]
    by (auto simp: merkle_proof_def layer_sizes_le1 merkle_path.simps)
next
  case False
  let ?xs = "map hash data" and ?f = "hash_pair keccak"
  from False assms have n: "1 < length ?xs" and i: "i < length ?xs" by auto
  note t = merkle_new_eq [OF assms]
  obtain r where r: "layer_sizes (padded (length data) div 2) = (slots (padded (length data) div 2), padded (length data) div 2) # r"
    using layer_sizes_Cons by blast
  show ?thesis
    using proof_loop_path [OF n i, of ?f "[]"] n i
    by (simp add: merkle_proof_def t layer_sizes_step r length_tree_nodes slots_def)
qed

lemma tree_nodes_neq_Nil: "xs \<noteq> [] \<Longrightarrow> tree_nodes f xs \<noteq> []"
  by (simp add: tree_nodes.simps [of f xs] pad_def)

lemma verify_loop_path:
  assumes "i < length xs"
  shows "verify_loop keccak (merkle_path (hash_pair keccak) xs i) (map fst (tl (layer_sizes (length xs))))
           (above (length xs)) i (xs ! i)
       = Ok (Some (hd (tree_nodes (hash_pair keccak) xs)))"
  using assms
proof (induction "hash_pair keccak" xs i rule: merkle_path.induct)
  case (1 xs i)
  let ?n = "length xs" and ?f = "hash_pair keccak" and ?ys = "parent_layer (hash_pair keccak) xs"
  let ?m = "padded (length xs) div 2"
  show ?case
  proof (cases "?n \<le> 1")
    case True
    with 1(2) have "?n = 1" by linarith
    then show ?thesis using 1(2) by (auto simp: merkle_path.simps tree_nodes.simps [of ?f xs] length_Suc_conv)
  next
    case False
    have IH: "verify_loop keccak (merkle_path ?f ?ys (i div 2)) (map fst (tl (layer_sizes ?m))) (above ?m)
                (i div 2) (?ys ! (i div 2)) = Ok (Some (hd (tree_nodes ?f ?ys)))"
      using 1(1) [OF False] half_index 1(2) by simp
    have "0 < ?n" using False by linarith
    from padded_half_pos [OF this] have "?ys \<noteq> []" by (metis length_parent_layer length_greater_0_conv)
    then have hd: "hd (tree_nodes ?f xs) = hd (tree_nodes ?f ?ys)"
      using False tree_nodes_neq_Nil [of ?ys ?f] by (subst tree_nodes.simps) (auto simp: hd_append)
    have ls: "map fst (tl (layer_sizes ?n)) = slots ?m # map fst (tl (layer_sizes ?m))"
      using False by (simp add: map_fst_layer_sizes)
    have od: "odd (above ?n)" using False by (intro odd_above) simp
    show ?thesis
      using False od odd_pos [OF od] rsub_above [of ?n] IH nth_parent_sibling [OF 1(2), of ?f]
      by (auto simp: merkle_path.simps [of ?f xs] ls hd)
  qed
qed

lemma length_merkle_path: "length (merkle_path f xs i) = length (layer_sizes (length xs)) - 1"
proof (induction f xs i rule: merkle_path.induct)
  case (1 f xs i)
  show ?case
  proof (cases "length xs \<le> 1")
    case False
    then have "length (layer_sizes (length xs)) = Suc (length (layer_sizes (padded (length xs) div 2)))"
      by (simp add: layer_sizes_step)
    moreover have "0 < length (layer_sizes (padded (length xs) div 2))"
      by (subst layer_sizes_Cons) simp
    ultimately show ?thesis using 1 False by (simp add: merkle_path.simps [of f xs])
  qed (simp add: merkle_path.simps layer_sizes_le1)
qed

lemma length_layer_sizes_pos: "0 < length (layer_sizes n)"
  by (subst layer_sizes_Cons) simp

lemma verify_path:
  assumes "i < length xs" and "usize_safe (length xs)"
  shows "verify keccak (hd (tree_nodes (hash_pair keccak) xs)) (xs ! i) (merkle_path (hash_pair keccak) xs i) i (length xs)
       = Ok True"
  using verify_loop_path [OF assms(1), of keccak] assms length_layer_sizes_pos [of "length xs"]
  by (simp add: verify_def Let_def length_merkle_path map_tl above_def)

section \<open>Soundness of verification\<close>

definition keccak_collision :: "(bytes \<Rightarrow> h256) \<Rightarrow> bool" where
  "keccak_collision keccak \<longleftrightarrow>
     (\<exists>a b. length a = 64 \<and> length b = 64 \<and> a \<noteq> b \<and> keccak a = keccak b)"

lemma hash_pair_inj:
  assumes "hash_pair keccak a b = hash_pair keccak c d"
  shows "(a = c \<and> b = d) \<or> keccak_collision keccak"
proof (cases "h256_as_ref a @ h256_as_ref b = h256_as_ref c @ h256_as_ref d")
  case True
  then show ?thesis by (simp add: h256_as_ref_inj)
next
  case False
  with assms have "keccak_collision keccak" unfolding keccak_collision_def hash_pair_def
    by (intro exI [of _ "h256_as_ref a @ h256_as_ref b"] exI [of _ "h256_as_ref c @ h256_as_ref d"]) simp
  then show ?thesis ..
qed

lemma verify_loop_total:
  assumes "length pf = length (tl (layer_sizes n))"
  shows "\<exists>r. verify_loop keccak pf (map fst (tl (layer_sizes n))) (above n) i acc = Ok r"
  using assms
proof (induction n arbitrary: pf i acc rule: less_induct)
  case (less n)
  show ?case
  proof (cases "n \<le> 1")
    case True
    with less.prems show ?thesis by (simp add: layer_sizes_le1)
  next
    case False
    let ?m = "padded n div 2"
    from False have "length pf = length (layer_sizes ?m)" using less.prems by (simp add: layer_sizes_step)
    then obtain h hs where pf: "pf = h # hs" and hs: "length hs = length (tl (layer_sizes ?m))"
      using length_layer_sizes_pos [of ?m] by (cases pf) auto
    show ?thesis
      using less.IH [OF padded_half_less hs] False rsub_above [of n]
      by (auto simp: pf map_fst_layer_sizes Let_def)
  qed
qed

lemma verify_loop_sound:
  assumes "i < length xs" and "length pf = length (tl (layer_sizes (length xs)))"
    and "verify_loop keccak pf (map fst (tl (layer_sizes (length xs)))) (above (length xs)) i acc
         = Ok (Some (hd (tree_nodes (hash_pair keccak) xs)))"
  shows "acc = xs ! i \<or> keccak_collision keccak"
  using assms
proof (induction "hash_pair keccak" xs i arbitrary: pf acc rule: merkle_path.induct)
  case (1 xs i)
  let ?n = "length xs" and ?f = "hash_pair keccak" and ?ys = "parent_layer (hash_pair keccak) xs"
  let ?m = "padded (length xs) div 2"
  show ?case
  proof (cases "?n \<le> 1")
    case True
    with 1(2) have "?n = 1" by linarith
    then show ?thesis using 1(2-4) by (auto simp: tree_nodes.simps [of ?f xs] layer_sizes_le1 length_Suc_conv)
  next
    case False
    then have pos: "0 < ?n" by linarith
    from padded_half_pos [OF this] have "?ys \<noteq> []" by (metis length_parent_layer length_greater_0_conv)
    then have hd: "hd (tree_nodes ?f xs) = hd (tree_nodes ?f ?ys)"
      using False tree_nodes_neq_Nil [of ?ys ?f] by (subst tree_nodes.simps) (auto simp: hd_append)
    from False have "length pf = length (layer_sizes ?m)" using 1(3) by (simp add: layer_sizes_step)
    then obtain h hs where pf: "pf = h # hs" and hs: "length hs = length (tl (layer_sizes ?m))"
      using length_layer_sizes_pos [of ?m] by (cases pf) auto
    have od: "odd (above ?n)" using False by (intro odd_above) simp
    let ?acc = "if even i then hash_pair keccak acc h else hash_pair keccak h acc"
    have "verify_loop keccak hs (map fst (tl (layer_sizes (length ?ys)))) (above (length ?ys)) (i div 2) ?acc
        = Ok (Some (hd (tree_nodes ?f ?ys)))"
      using 1(4) False od odd_pos [OF od] rsub_above [of ?n]
      by (simp add: pf map_fst_layer_sizes hd split: if_splits)
    moreover have "i div 2 < length ?ys" using half_index [OF 1(2)] by simp
    moreover have "length hs = length (tl (layer_sizes (length ?ys)))" using hs by simp
    ultimately have "?acc = ?ys ! (i div 2) \<or> keccak_collision keccak"
      using 1(1) [OF False] by blast
    then show ?thesis
      using nth_parent_sibling [OF 1(2), of ?f] by (auto split: if_splits dest!: hash_pair_inj)
  qed
qed

lemma verify_Ok_True:
  assumes "verify keccak (hd (tree_nodes (hash_pair keccak) xs)) d pf i (length xs) = Ok True"
  shows "i < length xs" and "d = xs ! i \<or> keccak_collision keccak"
proof -
  show i: "i < length xs" using assms by (auto simp: verify_def split: if_splits)
  from assms have "length pf = length (tl (layer_sizes (length xs)))"
    by (auto simp: verify_def Let_def split: if_splits)
  moreover have "verify_loop keccak pf (map fst (tl (layer_sizes (length xs)))) (above (length xs)) i d
         = Ok (Some (hd (tree_nodes (hash_pair keccak) xs)))"
    using assms by (auto simp: verify_def Let_def map_tl above_def rbind_eq_Ok split: if_splits option.splits)
  ultimately show "d = xs ! i \<or> keccak_collision keccak" by (rule verify_loop_sound [OF i])
qed

section \<open>Updates\<close>

lemma pad_update:
  assumes "j < length xs"
  shows "pad (xs[j := v]) =
    (if j = length xs - 1 \<and> even j then (pad xs)[j := v, j + 1 := v] else (pad xs)[j := v])"
proof (cases xs rule: rev_cases)
  case (snoc zs z)
  then show ?thesis using assms
    by (cases "j = length zs") (auto simp: pad_def list_update_append)
qed (use assms in simp)

lemma parent_layer_update:
  assumes "j < length xs" and "xs' = xs[j := v]"
  shows "parent_layer f xs' = (parent_layer f xs)
           [j div 2 := f (pad xs' ! (2 * (j div 2))) (pad xs' ! (2 * (j div 2) + 1))]"
proof (rule nth_equalityI)
  show "length (parent_layer f xs') = length ((parent_layer f xs)
           [j div 2 := f (pad xs' ! (2 * (j div 2))) (pad xs' ! (2 * (j div 2) + 1))])"
    using assms by simp
next
  fix i assume "i < length (parent_layer f xs')"
  then have i: "i < padded (length xs) div 2" using assms by simp
  show "parent_layer f xs' ! i = (parent_layer f xs)
           [j div 2 := f (pad xs' ! (2 * (j div 2))) (pad xs' ! (2 * (j div 2) + 1))] ! i"
  proof (cases "i = j div 2")
    case True
    then show ?thesis using i assms by (simp add: nth_parent_layer)
  next
    case False
    then have ij: "2 * i \<noteq> j" "2 * i + 1 \<noteq> j" "2 * i + 1 \<noteq> j + 1"
      by auto
    have "2 * i \<noteq> j + 1" if "even j" using that by presburger
    then have "pad xs' ! (2 * i) = pad xs ! (2 * i)" "pad xs' ! (2 * i + 1) = pad xs ! (2 * i + 1)"
      using ij assms by (auto simp: pad_update)
    then show ?thesis using False i assms by (simp add: nth_parent_layer)
  qed
qed

lemma set_layer:
  assumes "1 < length xs" and "j < length xs"
  shows "(let ns1 = (tree_nodes f xs @ suf)[above (length xs) + j := v] in
          if above (length xs) + j = above (length xs) + length xs - 1 \<and> odd (above (length xs) + j)
          then ns1[above (length xs) + j + 1 := v] else ns1)
       = tree_nodes f (parent_layer f xs) @ pad (xs[j := v]) @ suf"
proof -
  let ?n = "length xs" and ?U = "tree_nodes f (parent_layer f xs)"
  have ns: "tree_nodes f xs @ suf = ?U @ pad xs @ suf"
    using assms by (simp add: tree_nodes.simps [of f xs])
  have U: "length ?U = above ?n" using assms by (simp add: length_tree_nodes above_step)
  have j: "j < padded ?n" using assms padded_ge [of ?n] by simp
  have od: "odd (above ?n)" using assms by (intro odd_above)
  have last: "(above ?n + j = above ?n + ?n - 1) = (j = ?n - 1)" using assms by auto
  show ?thesis
  proof (cases "j = ?n - 1 \<and> even j")
    case True
    then have n: "?n = Suc j" using assms by auto
    from True have "even j" ..
    with n have "odd ?n" by simp
    then have "j + 1 < padded ?n" using n by (simp add: padded_def)
    then show ?thesis
      using \<open>even j\<close> od j pad_update [OF assms(2), of v]
      by (simp add: Let_def ns list_update_append U n)
  next
    case False
    then show ?thesis
      using od j assms
      by (auto simp: Let_def ns pad_update list_update_append U last)
  qed
qed

lemma updated_node_parent:
  assumes "j < length us" and us: "length us = padded (length ws) div 2"
    and "above (length us) + j < last_layer_start"
  shows "updated_node keccak h last_layer_start (above (length us)) (length us) j
           (tree_nodes (hash_pair keccak) us @ pad ws @ suf)
       = Ok (hash_pair keccak (pad ws ! (2 * j)) (pad ws ! (2 * j + 1)))"
proof -
  let ?n = "length us" and ?ns = "tree_nodes (hash_pair keccak) us @ pad ws @ suf"
  have j: "2 * j + 1 < padded (length ws)" using assms(1,2) by (auto elim!: evenE)
  have at: "?ns ! (slots ?n + above ?n + k) = pad ws ! k" if "k < padded (length ws)" for k
    using that by (simp add: nth_append length_tree_nodes)
  have len: "length ?ns \<ge> slots ?n + above ?n + padded (length ws)"
    by (simp add: length_tree_nodes)
  show ?thesis
  proof (cases "?n = 1")
    case True
    then show ?thesis using assms j at [of 0] at [of 1] len
      by (simp add: updated_node_def slots_def Let_def numeral_2_eq_2)
  next
    case False
    then have n: "1 < ?n" using assms(1) by linarith
    have sl: "padded ?n = slots ?n" using n by (simp add: slots_def)
    have "0 < above ?n" using odd_pos [OF odd_above [OF n]] .
    moreover have "?ns ! (above ?n + 2 * j + slots ?n) = pad ws ! (2 * j)"
      using at [of "2 * j"] j by (simp add: ac_simps)
    moreover have "?ns ! (above ?n + 2 * j + slots ?n + 1) = pad ws ! (2 * j + 1)"
      using at [of "2 * j + 1"] j by (simp add: ac_simps)
    ultimately show ?thesis using assms(3) j len
      by (simp add: updated_node_def Let_def sl)
  qed
qed

lemma rset_twice:
  assumes "i < length ns" and "c \<Longrightarrow> k < length ns"
    and "(let ns1 = ns[i := v] in if c then ns1[k := v] else ns1) = r"
  shows "rbind (rset ns i v) (\<lambda>ns1. if c then rset ns1 k v else Ok ns1) = Ok r"
  using assms by auto

lemma update_loop_step:
  assumes "updated_node keccak h last_layer_start s d j ns = Ok v"
    and "rbind (rset ns (s + j) v) (\<lambda>ns1. if s + j = s + d - 1 \<and> odd (s + j)
           then rset ns1 (s + j + 1) v else Ok ns1) = Ok ns'"
  shows "update_loop keccak h last_layer_start (d # d' # ds) s j ns =
    rbind (if ds = [] then Ok 0 else rsub s (padded d')) (\<lambda>s'.
      update_loop keccak h last_layer_start (d' # ds) s' (j div 2) ns')"
  using assms by (cases "rset ns (s + j) v") (simp_all add: Let_def del: update_loop.simps(2) add: update_loop.simps(2) [of _ _ _ d])

lemma update_loop_tree:
  assumes "j < length xs" and "above (length xs) \<le> last_layer_start"
    and "updated_node keccak h last_layer_start (above (length xs)) (length xs) j
           (tree_nodes (hash_pair keccak) xs @ suf) = Ok v"
  shows "update_loop keccak h last_layer_start (map snd (layer_sizes (length xs))) (above (length xs)) j
           (tree_nodes (hash_pair keccak) xs @ suf)
       = Ok (tree_nodes (hash_pair keccak) (xs[j := v]) @ suf)"
  using assms
proof (induction "hash_pair keccak" xs j arbitrary: suf v rule: merkle_path.induct)
  case (1 xs j)
  let ?n = "length xs" and ?f = "hash_pair keccak" and ?ys = "parent_layer (hash_pair keccak) xs"
  let ?m = "padded (length xs) div 2"
  show ?case
  proof (cases "?n \<le> 1")
    case True
    with 1(2) have "?n = 1" by linarith
    then show ?thesis using 1(2-4)
      by (auto simp: tree_nodes_le1 layer_sizes_le1 length_Suc_conv)
  next
    case False
    let ?xs' = "xs[j := v]" and ?k = "j div 2"
    let ?ns = "tree_nodes ?f xs @ suf" and ?ns' = "tree_nodes ?f ?ys @ pad ?xs' @ suf"
    let ?v = "hash_pair keccak (pad ?xs' ! (2 * ?k)) (pad ?xs' ! (2 * ?k + 1))"
    have n: "1 < ?n" using False by simp
    have k: "?k < length ?ys" using half_index [OF 1(2)] by simp
    have m: "0 < ?m" using k by simp
    have up: "above ?m + ?k < last_layer_start"
      using 1(3) n k padded_ge [of ?m] by (simp add: above_step slots_def split: if_splits)
    have "updated_node keccak h last_layer_start (above (length ?ys)) (length ?ys) ?k ?ns' = Ok ?v"
      by (rule updated_node_parent) (use k up in simp_all)
    with 1(1) [OF False, of "pad ?xs' @ suf" ?v] k up
    have IH: "update_loop keccak h last_layer_start (map snd (layer_sizes ?m)) (above ?m) ?k ?ns'
            = Ok (tree_nodes ?f (?ys[?k := ?v]) @ pad ?xs' @ suf)"
      by simp
    have "parent_layer ?f ?xs' = ?ys[?k := ?v]"
      using 1(2) by (intro parent_layer_update) simp_all
    with n have new: "tree_nodes ?f ?xs' @ suf = tree_nodes ?f (?ys[?k := ?v]) @ pad ?xs' @ suf"
      by (simp add: tree_nodes.simps [of ?f ?xs'])
    have len: "above ?n + j < length ?ns"
      using 1(2) n padded_ge [of ?n] by (simp add: length_tree_nodes slots_def)
    have dup: "above ?n + j + 1 < length ?ns" if "above ?n + j = above ?n + ?n - 1 \<and> odd (above ?n + j)"
    proof -
      have j: "j = ?n - 1" using that n by linarith
      then have "odd ?n" using that odd_above [OF n] n by auto
      then show ?thesis using j n by (simp add: length_tree_nodes slots_def padded_def)
    qed
    have set: "rbind (rset ?ns (above ?n + j) v) (\<lambda>ns1.
        if above ?n + j = above ?n + ?n - 1 \<and> odd (above ?n + j)
        then rset ns1 (above ?n + j + 1) v else Ok ns1) = Ok ?ns'"
      by (rule rset_twice [OF len dup set_layer [OF n 1(2)]])
    have next_start: "(if ds = [] then Ok 0 else rsub (above ?n) (padded ?m)) = Ok (above ?m)"
      if ds: "map snd (layer_sizes ?m) = ?m # ds" for ds
    proof (cases "?m = 1")
      case True
      then show ?thesis using ds by (simp add: layer_sizes_le1)
    next
      case False
      then have "1 < ?m" using m by linarith
      moreover from this have "ds \<noteq> []"
        using ds length_layer_sizes_pos [of "padded ?m div 2"] by (auto simp: layer_sizes_step)
      ultimately show ?thesis using rsub_above [OF n] by (simp add: slots_def)
    qed
    have "map snd (layer_sizes ?m) = ?m # map snd (tl (layer_sizes ?m))"
      by (subst layer_sizes_Cons) simp
    then obtain ds where ds: "map snd (layer_sizes ?m) = ?m # ds" ..
    show ?thesis
      using update_loop_step [OF 1(4) set, of ?m ds] next_start [OF ds] IH ds new
      by (simp add: layer_sizes_step [OF n] del: update_loop.simps)
  qed
qed

lemma merkle_update_tree:
  assumes "merkle_new keccak hash data = Ok t" and "i < length data"
  shows "merkle_update keccak hash t i x = merkle_new keccak hash (data[i := x])"
proof -
  let ?xs = "map hash data" and ?f = "hash_pair keccak" and ?n = "length data"
  have t: "t = \<lparr>data_size = map snd (layer_sizes (length ?xs)), nodes = tree_nodes ?f ?xs\<rparr>"
    using merkle_new_eq [OF assms] by simp
  have new: "merkle_new keccak hash (data[i := x]) =
      Ok \<lparr>data_size = map snd (layer_sizes (length ?xs)), nodes = tree_nodes ?f (?xs[i := hash x])\<rparr>"
    using assms(2) merkle_new_tree [of "data[i := x]" keccak hash]
    by (cases "data = []") (simp_all add: map_update)
  have d0: "rnth (map snd (layer_sizes (length ?xs))) 0 = Ok ?n"
    by (subst layer_sizes_Cons) simp
  show ?thesis
  proof (cases "?n = 1")
    case True
    then show ?thesis using assms(2) new d0
      by (simp add: merkle_update_def t tree_nodes_le1)
  next
    case False
    then have n: "1 < length ?xs" using assms(2) by simp
    have "updated_node keccak (hash x) (above ?n) (above ?n) ?n i (tree_nodes ?f ?xs) = Ok (hash x)"
      by (simp add: updated_node_def)
    then have "update_loop keccak (hash x) (above ?n) (map snd (layer_sizes (length ?xs))) (above ?n) i (tree_nodes ?f ?xs)
        = Ok (tree_nodes ?f (?xs[i := hash x]))"
      using update_loop_tree [of i ?xs "above ?n" keccak "hash x" "[]" "hash x"] assms(2) by simp
    then show ?thesis using n assms(2) new d0
      by (simp add: merkle_update_def t length_tree_nodes slots_def)
  qed
qed

section \<open>Properties\<close>

lemma merkle_root_tree:
  assumes "merkle_new keccak hash data = Ok t" and "i < length data"
  shows "merkle_root t = hd (tree_nodes (hash_pair keccak) (map hash data))"
proof -
  have "map hash data \<noteq> []" using assms(2) by auto
  from tree_nodes_neq_Nil [OF this, of "hash_pair keccak"] show ?thesis
    using merkle_new_eq [OF assms] by (simp add: merkle_root_def split: list.split)
qed

text \<open>C14: building a tree over non-empty data never panics and yields exactly the reference tree:
  the vector of all layers, root first, each layer padded by its last node and obtained by hashing
  the pairs of the layer below, together with the unpadded layer sizes.\<close>

theorem merkle_new_correct:
  assumes "data \<noteq> []"
  shows "merkle_new keccak hash data =
    Ok \<lparr>data_size = map snd (layer_sizes (length data)),
        nodes = tree_nodes (hash_pair keccak) (map hash data)\<rparr>"
  using assms by (rule merkle_new_tree)

theorem merkle_new_correct_witness:
  "merkle_new (\<lambda>bs. word_of_nat (length bs)) id [1, 2, 3] =
     Ok \<lparr>data_size = [3, 2, 1], nodes = [64, 64, 64, 1, 2, 3, 3]\<rparr>"
  using merkle_new_correct [of "[1, 2, 3 :: h256]" "\<lambda>bs. word_of_nat (length bs)" id]
  by (simp add: layer_sizes.simps padded_def tree_nodes.simps pad_def parent_layer_def hash_pair_def)

text \<open>C15: completeness of inclusion proofs: for every in-range index the proof that the tree
  produces is accepted by \<open>verify\<close> against the tree's root.\<close>

theorem merkle_proof_verifies:
  assumes "merkle_new keccak hash data = Ok t" and "i < length data" and "usize_safe (length data)"
  shows "rbind (merkle_proof t i) (\<lambda>p. verify keccak (merkle_root t) (hash (data ! i)) p i (length data))
       = Ok True"
  using verify_path [of i "map hash data" keccak] assms
  by (simp add: merkle_proof_path [OF assms(1,2)] merkle_root_tree [OF assms(1,2)])

theorem merkle_proof_verifies_witness:
  "\<exists>t. merkle_new (\<lambda>bs. word_of_nat (length bs)) id [1, 2, 3 :: h256] = Ok t \<and>
     rbind (merkle_proof t 2) (\<lambda>p. verify (\<lambda>bs. word_of_nat (length bs)) (merkle_root t) 3 p 2 3) = Ok True"
proof -
  obtain t where t: "merkle_new (\<lambda>bs. word_of_nat (length bs)) id [1, 2, 3 :: h256] = Ok t"
    using merkle_new_tree [of "[1, 2, 3 :: h256]" "\<lambda>bs. word_of_nat (length bs)" id] by simp
  from merkle_proof_verifies [OF t, of 2] t show ?thesis by (simp add: numeral_3_eq_3 usize_safe_def)
qed



lemma verify_total:
  assumes "usize_safe leaf_size"
  shows "is_ok (verify keccak root d pf i leaf_size)"
proof (cases "length (layer_sizes leaf_size) = length pf + 1")
  case True
  then have "length pf = length (tl (layer_sizes leaf_size))" by simp
  from verify_loop_total [OF this, of keccak i d] assms show ?thesis
    by (auto simp: verify_def Let_def map_tl above_def split: option.split)
qed (use assms in \<open>simp add: verify_def Let_def\<close>)

text \<open>C17: \<open>verify\<close> is safe on untrusted input: for every root, hash, proof, index and every leaf
  count below the overflow bound it returns a verdict and never indexes out of bounds or
  underflows.\<close>

theorem verify_never_panics:
  assumes "usize_safe leaf_size"
  shows "is_ok (verify keccak root d pf i leaf_size)"
  by (rule verify_total [OF assms])

theorem verify_never_panics_witness:
  "usize_safe 5 \<and> is_ok (verify (\<lambda>bs. word_of_nat (length bs)) 1 2 [3, 4] 4 5)"
  using verify_never_panics [of 5 "\<lambda>bs. word_of_nat (length bs)" 1 2 "[3, 4]" 4] by (simp add: usize_safe_def)

text \<open>C18: updating one leaf in place gives the tree that a full rebuild over the changed data
  gives, the duplicated last nodes of odd layers included.\<close>

theorem merkle_update_rebuilds:
  assumes "merkle_new keccak hash data = Ok t" and "i < length data"
  shows "merkle_update keccak hash t i x = merkle_new keccak hash (data[i := x])"
  using assms by (rule merkle_update_tree)

theorem merkle_update_rebuilds_witness:
  "\<exists>t. merkle_new (\<lambda>bs. word_of_nat (length bs)) id [1, 2, 3 :: h256] = Ok t \<and>
     merkle_update (\<lambda>bs. word_of_nat (length bs)) id t 2 9
     = merkle_new (\<lambda>bs. word_of_nat (length bs)) id [1, 2, 9]"
proof -
  obtain t where t: "merkle_new (\<lambda>bs. word_of_nat (length bs)) id [1, 2, 3 :: h256] = Ok t"
    using merkle_new_tree [of "[1, 2, 3 :: h256]" "\<lambda>bs. word_of_nat (length bs)" id] by simp
  from merkle_update_rebuilds [OF t, of 2 9] t show ?thesis by (simp add: numeral_2_eq_2)
qed

end
