(* ===== verification/Prism_Transaction.thy ===== *)
theory Prism_Transaction
  imports Prism_Hash
begin

text \<open>
  Transactions as the node uses them (\<open>transaction/mod.rs\<close> and the Ethereum transaction type it
  re-exports, \<open>parity-ethereum/ethcore/types/src/transaction/transaction.rs\<close>). The RLP encodings,
  Keccak and the elliptic-curve operations are the components of the parameter record \<open>crypto\<close>.
\<close>

type_synonym address = "160 word"
type_synonym u256 = "256 word"
type_synonym public = "512 word"
type_synonym signature = "h256 \<times> h256 \<times> u8"

datatype action = Create | Call address

record raw_transaction =
  rtx_nonce :: u256
  rtx_gas_price :: u256
  rtx_gas :: u256
  rtx_action :: action
  rtx_value :: u256
  rtx_data :: bytes

record unverified_transaction =
  utx_unsigned :: raw_transaction
  utx_v :: u64
  utx_r :: u256
  utx_s :: u256
  utx_hash :: h256

record transaction =
  stx_transaction :: unverified_transaction
  stx_sender :: address
  stx_public :: "public option"

text \<open>Keccak, the two RLP encodings, recovery of a public key, the address of a key, the low-s
  test and signing.\<close>

record crypto =
  cr_keccak :: "bytes \<Rightarrow> h256"
  cr_rlp_unsigned :: "raw_transaction \<Rightarrow> u64 option \<Rightarrow> bytes"
  cr_rlp_sealed :: "unverified_transaction \<Rightarrow> bytes"
  cr_recover :: "signature \<Rightarrow> h256 \<Rightarrow> public option"
  cr_public_to_address :: "public \<Rightarrow> address"
  cr_is_low_s :: "signature \<Rightarrow> bool"
  cr_sign :: "h256 \<Rightarrow> h256 \<Rightarrow> signature option"

section \<open>Replay protection\<close>

definition add_chain_replay_protection :: "u64 \<Rightarrow> u64 option \<Rightarrow> u64" where
  "add_chain_replay_protection v cid = v + (case cid of Some n \<Rightarrow> 35 + n * 2 | None \<Rightarrow> 27)"

definition check_replay_protection :: "u64 \<Rightarrow> u8" where
  "check_replay_protection v =
     (if v = 27 then 0 else if v = 28 then 1 else if 35 \<le> v then ucast ((v - 1) mod 2) else 4)"

section \<open>Unverified transactions\<close>

definition raw_hash :: "crypto \<Rightarrow> raw_transaction \<Rightarrow> u64 option \<Rightarrow> h256" where
  "raw_hash cr t cid = cr_keccak cr (cr_rlp_unsigned cr t cid)"

definition compute_hash :: "crypto \<Rightarrow> unverified_transaction \<Rightarrow> unverified_transaction" where
  "compute_hash cr t = t\<lparr>utx_hash := cr_keccak cr (cr_rlp_sealed cr t)\<rparr>"

definition with_signature ::
  "crypto \<Rightarrow> raw_transaction \<Rightarrow> signature \<Rightarrow> u64 option \<Rightarrow> unverified_transaction" where
  "with_signature cr t sig cid = (case sig of (r, s, v) \<Rightarrow>
     compute_hash cr \<lparr>utx_unsigned = t, utx_v = add_chain_replay_protection (ucast v) cid,
       utx_r = r, utx_s = s, utx_hash = 0\<rparr>)"

definition is_unsigned :: "unverified_transaction \<Rightarrow> bool" where
  "is_unsigned t \<longleftrightarrow> utx_r t = 0 \<and> utx_s t = 0"

definition receiver :: "unverified_transaction \<Rightarrow> address option" where
  "receiver t = (case rtx_action (utx_unsigned t) of Create \<Rightarrow> None | Call a \<Rightarrow> Some a)"

definition standard_v :: "unverified_transaction \<Rightarrow> u8" where
  "standard_v t = check_replay_protection (utx_v t)"

definition chain_id :: "unverified_transaction \<Rightarrow> u64 option" where
  "chain_id t =
     (if is_unsigned t then Some (utx_v t)
      else if 35 \<le> utx_v t then Some ((utx_v t - 35) div 2)
      else None)"

definition tx_signature :: "unverified_transaction \<Rightarrow> signature" where
  "tx_signature t = (utx_r t, utx_s t, standard_v t)"

definition check_low_s :: "crypto \<Rightarrow> unverified_transaction \<Rightarrow> bool" where
  "check_low_s cr t = cr_is_low_s cr (tx_signature t)"

definition recover_public :: "crypto \<Rightarrow> unverified_transaction \<Rightarrow> public option" where
  "recover_public cr t = cr_recover cr (tx_signature t) (raw_hash cr (utx_unsigned t) (chain_id t))"

datatype tx_error = InvalidSignature | InvalidChainId

definition verify_basic ::
  "crypto \<Rightarrow> unverified_transaction \<Rightarrow> bool \<Rightarrow> u64 option \<Rightarrow> tx_error option" where
  "verify_basic cr t low_s cid =
     (if is_unsigned t then Some InvalidSignature
      else if low_s \<and> \<not> check_low_s cr t then Some InvalidSignature
      else case (chain_id t, cid) of
             (None, _) \<Rightarrow> None
           | (Some n, Some m) \<Rightarrow> if n = m then None else Some InvalidChainId
           | (Some n, None) \<Rightarrow> Some InvalidChainId)"

section \<open>Signed transactions\<close>

definition signed_new :: "crypto \<Rightarrow> unverified_transaction \<Rightarrow> transaction option" where
  "signed_new cr t =
     (if is_unsigned t then None
      else case recover_public cr t of
             None \<Rightarrow> None
           | Some public \<Rightarrow>
               Some \<lparr>stx_transaction = t, stx_sender = cr_public_to_address cr public,
                     stx_public = Some public\<rparr>)"

definition verify_unordered :: "crypto \<Rightarrow> unverified_transaction \<Rightarrow> transaction option" where
  "verify_unordered cr t = signed_new cr t"

text \<open>Signing and \<open>SignedTransaction::new\<close> are unwrapped in the source.\<close>

definition sign :: "crypto \<Rightarrow> raw_transaction \<Rightarrow> h256 \<Rightarrow> u64 option \<Rightarrow> transaction res" where
  "sign cr t secret cid =
     rbind (unwrap (cr_sign cr secret (raw_hash cr t cid))) (\<lambda>sig.
     unwrap (signed_new cr (with_signature cr t sig cid)))"

definition deconstruct :: "transaction \<Rightarrow> unverified_transaction \<times> address \<times> public option" where
  "deconstruct t = (stx_transaction t, stx_sender t, stx_public t)"

definition tx_hash :: "transaction \<Rightarrow> h256" where
  "tx_hash t = utx_hash (stx_transaction t)"

definition tx_size :: "transaction \<Rightarrow> nat" where
  "tx_size t = 1"

section \<open>Batch signature check\<close>

fun check_signature_batch :: "crypto \<Rightarrow> transaction list \<Rightarrow> bool" where
  "check_signature_batch cr [] = True"
| "check_signature_batch cr (t # ts) =
     (case deconstruct t of (unverified, addr, public) \<Rightarrow>
        case verify_unordered cr unverified of
          Some tx \<Rightarrow>
            if addr \<noteq> stx_sender tx \<or> public \<noteq> stx_public tx then False
            else check_signature_batch cr ts
        | None \<Rightarrow> False)"

section \<open>Properties\<close>

lemma protected_v:
  assumes "v = 0 \<or> v = (1 :: u64)"
  shows "check_replay_protection (add_chain_replay_protection v None) = ucast v"
    and "\<not> 35 \<le> add_chain_replay_protection v None"
  using assms by (auto simp: add_chain_replay_protection_def check_replay_protection_def)

lemma protected_v_chain:
  assumes v: "v = 0 \<or> v = (1 :: u64)" and n: "unat n < 2 ^ 62"
  defines "x \<equiv> add_chain_replay_protection v (Some n)"
  shows "35 \<le> x" and "(x - 35) div 2 = n" and "check_replay_protection x = ucast v"
proof -
  have "x = word_of_nat (unat v + 35 + 2 * unat n)"
    by (simp add: x_def add_chain_replay_protection_def)
  moreover have "unat v + 35 + 2 * unat n < 2 ^ 64" using v n by auto
  then have "unat (word_of_nat (unat v + 35 + 2 * unat n) :: u64) = unat v + 35 + 2 * unat n"
    by (intro unat_of_nat_less) simp
  ultimately have x: "unat x = unat v + 35 + 2 * unat n" by (simp only:)
  then show le: "35 \<le> x" by (simp add: word_le_nat_alt)
  have "unat (x - 35) = unat v + 2 * unat n" using le x by (simp add: unat_sub)
  then have "unat ((x - 35) div 2) = unat n" using v by (auto simp: unat_div)
  then show "(x - 35) div 2 = n" by (simp add: word_unat_eq_iff)
  have "1 \<le> x" using x by (simp add: word_le_nat_alt)
  then have "unat (x - 1) = unat v + 34 + 2 * unat n" using x by (simp add: unat_sub)
  then have "unat ((x - 1) mod 2) = unat v" using v by (auto simp: unat_mod)
  then have "(x - 1) mod 2 = v" by (simp add: word_unat_eq_iff)
  moreover have "x \<noteq> 27" "x \<noteq> 28" using x by auto
  ultimately show "check_replay_protection x = ucast v" using le by (simp add: check_replay_protection_def)
qed

lemma with_signature_fields:
  "utx_unsigned (with_signature cr t (r, s, v) cid) = t"
  "utx_v (with_signature cr t (r, s, v) cid) = add_chain_replay_protection (ucast v) cid"
  "utx_r (with_signature cr t (r, s, v) cid) = r"
  "utx_s (with_signature cr t (r, s, v) cid) = s"
  by (simp_all add: with_signature_def compute_hash_def)

lemma with_signature_recovers:
  assumes v: "v = 0 \<or> v = (1 :: u8)" and rs: "r \<noteq> 0 \<or> s \<noteq> 0"
    and cid: "\<And>n. cid = Some n \<Longrightarrow> unat n < 2 ^ 62"
  shows "chain_id (with_signature cr t (r, s, v) cid) = cid"
    and "tx_signature (with_signature cr t (r, s, v) cid) = (r, s, v)"
proof -
  have v': "ucast v = (0 :: u64) \<or> ucast v = (1 :: u64)" "ucast (ucast v :: u64) = v" using v by auto
  show "chain_id (with_signature cr t (r, s, v) cid) = cid"
    using rs protected_v(2) [OF v'(1)] protected_v_chain(1,2) [OF v'(1)] cid
    by (cases cid) (auto simp: chain_id_def is_unsigned_def with_signature_fields)
  show "tx_signature (with_signature cr t (r, s, v) cid) = (r, s, v)"
    using protected_v(1) [OF v'(1)] protected_v_chain(3) [OF v'(1)] cid v'(2)
    by (cases cid) (auto simp: tx_signature_def standard_v_def with_signature_fields)
qed

text \<open>What signing promises about a secret key: a signature with recovery id 0 or 1 that is not
  the empty one and from which the public key is recovered.\<close>

definition signs_as :: "crypto \<Rightarrow> h256 \<Rightarrow> public \<Rightarrow> bool" where
  "signs_as cr secret pub \<longleftrightarrow>
     (\<forall>m. \<exists>r s v. cr_sign cr secret m = Some (r, s, v) \<and> (v = 0 \<or> v = 1) \<and> (r \<noteq> 0 \<or> s \<noteq> 0) \<and>
        cr_recover cr (r, s, v) m = Some pub)"

lemma sign_result:
  assumes "signs_as cr secret pub" and "\<And>n. cid = Some n \<Longrightarrow> unat n < 2 ^ 62"
  shows "\<exists>u. sign cr t secret cid = Ok \<lparr>stx_transaction = u, stx_sender = cr_public_to_address cr pub, stx_public = Some pub\<rparr> \<and>
    verify_unordered cr u = Some \<lparr>stx_transaction = u, stx_sender = cr_public_to_address cr pub, stx_public = Some pub\<rparr> \<and>
    utx_unsigned u = t"
proof -
  from assms(1) obtain r s v where sig: "cr_sign cr secret (raw_hash cr t cid) = Some (r, s, v)"
    and v: "v = 0 \<or> v = 1" and rs: "r \<noteq> 0 \<or> s \<noteq> 0"
    and rec: "cr_recover cr (r, s, v) (raw_hash cr t cid) = Some pub"
    unfolding signs_as_def by blast
  let ?u = "with_signature cr t (r, s, v) cid"
  note u = with_signature_recovers [OF v rs assms(2)] with_signature_fields
  have "recover_public cr ?u = Some pub" using rec by (simp add: recover_public_def u)
  moreover have "\<not> is_unsigned ?u" using rs by (auto simp: is_unsigned_def u)
  ultimately have "signed_new cr ?u = Some \<lparr>stx_transaction = ?u,
      stx_sender = cr_public_to_address cr pub, stx_public = Some pub\<rparr>"
    by (simp add: signed_new_def)
  then show ?thesis by (intro exI [of _ ?u]) (simp add: sign_def sig verify_unordered_def u)
qed

text \<open>C35: signing never panics for a usable key, and the transaction it makes passes the batch
  signature check with the sender that belongs to the key, on a network with or without a
  chain id.\<close>

theorem sign_checks:
  assumes "signs_as cr secret pub" and "\<And>n. cid = Some n \<Longrightarrow> unat n < 2 ^ 62"
  shows "\<exists>tx. sign cr t secret cid = Ok tx \<and> check_signature_batch cr [tx] \<and>
    stx_sender tx = cr_public_to_address cr pub \<and> utx_unsigned (stx_transaction tx) = t"
  using sign_result [OF assms] by (fastforce simp: deconstruct_def)

definition example_crypto :: crypto where
  "example_crypto = \<lparr>cr_keccak = (\<lambda>bs. word_of_nat (of_be_bytes bs)),
     cr_rlp_unsigned = (\<lambda>t cid. rtx_data t), cr_rlp_sealed = (\<lambda>t. rtx_data (utx_unsigned t)),
     cr_recover = (\<lambda>(r, s, v) m. if s = m then Some (ucast r) else None),
     cr_public_to_address = ucast, cr_is_low_s = (\<lambda>_. True),
     cr_sign = (\<lambda>secret m. Some (secret, m, 0))\<rparr>"

theorem sign_checks_witness:
  "\<exists>tx. sign example_crypto \<lparr>rtx_nonce = 0, rtx_gas_price = 1, rtx_gas = 21000, rtx_action = Create,
       rtx_value = 5, rtx_data = [7]\<rparr> 3 (Some 1) = Ok tx \<and> check_signature_batch example_crypto [tx] \<and>
     stx_sender tx = 3"
proof -
  have "signs_as example_crypto 3 3" by (simp add: signs_as_def example_crypto_def)
  from sign_checks [OF this, of "Some 1"] show ?thesis by (fastforce simp: example_crypto_def)
qed

text \<open>C36: the batch signature check never reads the stored hash of a transaction: replacing it by
  any other value, which the encoding received from a peer can do, keeps the verdict.\<close>

theorem check_signature_ignores_hash:
  "check_signature_batch cr
     (map (\<lambda>t. t\<lparr>stx_transaction := (stx_transaction t)\<lparr>utx_hash := f t\<rparr>\<rparr>) ts)
   = check_signature_batch cr ts"
proof -
  have u: "is_unsigned (u\<lparr>utx_hash := h\<rparr>) = is_unsigned u"
    "recover_public cr (u\<lparr>utx_hash := h\<rparr>) = recover_public cr u" for u h
    by (simp_all add: is_unsigned_def recover_public_def tx_signature_def standard_v_def chain_id_def)
  show ?thesis
    by (induction ts) (simp_all add: deconstruct_def verify_unordered_def signed_new_def u split: option.split)
qed

end
