(* ===== verification/Prism_Float.thy ===== *)
theory Prism_Float
  imports Prism_Prelude
begin

text \<open>
  The IEEE 754 arithmetic behind Rust's \<open>f32\<close> and \<open>f64\<close>: every operation computes the exact rational
  result and rounds it to nearest, ties to even. A finite value is a sign, a significand and
  a binary exponent. Comparison goes through the exact values, so a value needs no unique
  representation. Operations whose precision Rust leaves to the platform (\<open>ln\<close>, \<open>powi\<close>)
  are not here; they are parameters of the definitions that call them.
\<close>

datatype flt = NaN | Inf bool | Fin bool nat int

datatype fmt = Fmt nat int int

text \<open>Precision, least exponent and greatest exponent of an integer significand.\<close>

definition f32 :: fmt where "f32 = Fmt 24 (- 149) 104"

definition f64 :: fmt where "f64 = Fmt 53 (- 1074) 971"

section \<open>Rounding\<close>

fun bit_len :: "nat \<Rightarrow> nat" where
  "bit_len n = (if n = 0 then 0 else Suc (bit_len (n div 2)))"

declare bit_len.simps [simp del]

text \<open>The fraction \<open>n / (d * 2 ^ e)\<close>.\<close>

definition scale :: "nat \<Rightarrow> nat \<Rightarrow> int \<Rightarrow> nat \<times> nat" where
  "scale n d e = (if 0 \<le> e then (n, d * 2 ^ nat e) else (n * 2 ^ nat (- e), d))"

definition half_even :: "nat \<Rightarrow> nat \<Rightarrow> nat" where
  "half_even n d =
     (let m = n div d; r = n mod d in if d < 2 * r \<or> (2 * r = d \<and> odd m) then m + 1 else m)"

fun fround :: "fmt \<Rightarrow> bool \<Rightarrow> nat \<Rightarrow> nat \<Rightarrow> flt" where
  "fround (Fmt p emin emax) s n d =
     (if n = 0 then Fin s 0 emin
      else
        let e0 = int (bit_len n) - int (bit_len d) - int p;
            e1 = (case scale n d e0 of (n', d') \<Rightarrow> if 2 ^ p \<le> n' div d' then e0 + 1 else e0);
            e = max emin e1;
            m = (case scale n d e of (n', d') \<Rightarrow> half_even n' d');
            e' = (if 2 ^ p \<le> m then e + 1 else e);
            m' = (if 2 ^ p \<le> m then m div 2 else m)
        in if emax < e' then Inf s else Fin s m' e')"

text \<open>Rounding of an integer times a power of two, the sign of a zero given.\<close>

definition fround_int :: "fmt \<Rightarrow> bool \<Rightarrow> int \<Rightarrow> int \<Rightarrow> flt" where
  "fround_int f zs x e =
     (if x = 0 then fround f zs 0 1
      else case scale 1 1 (- e) of (n, d) \<Rightarrow> fround f (x < 0) (nat \<bar>x\<bar> * n) d)"

section \<open>Arithmetic\<close>

definition signed :: "bool \<Rightarrow> nat \<Rightarrow> int" where
  "signed s m = (if s then - int m else int m)"

text \<open>Both significands at the smaller exponent.\<close>

definition align :: "int \<Rightarrow> int \<Rightarrow> int \<Rightarrow> int \<Rightarrow> int \<times> int \<times> int" where
  "align a ea b eb = (let e = min ea eb in (a * 2 ^ nat (ea - e), b * 2 ^ nat (eb - e), e))"

fun fneg :: "flt \<Rightarrow> flt" where
  "fneg NaN = NaN"
| "fneg (Inf s) = Inf (\<not> s)"
| "fneg (Fin s m e) = Fin (\<not> s) m e"

fun fabs :: "flt \<Rightarrow> flt" where
  "fabs NaN = NaN"
| "fabs (Inf s) = Inf False"
| "fabs (Fin s m e) = Fin False m e"

fun fadd :: "fmt \<Rightarrow> flt \<Rightarrow> flt \<Rightarrow> flt" where
  "fadd f NaN y = NaN"
| "fadd f x NaN = NaN"
| "fadd f (Inf s) (Inf t) = (if s = t then Inf s else NaN)"
| "fadd f (Inf s) (Fin t m e) = Inf s"
| "fadd f (Fin t m e) (Inf s) = Inf s"
| "fadd f (Fin s m e) (Fin t n k) =
     (case align (signed s m) e (signed t n) k of (a, b, j) \<Rightarrow> fround_int f (s \<and> t) (a + b) j)"

definition fsub :: "fmt \<Rightarrow> flt \<Rightarrow> flt \<Rightarrow> flt" where
  "fsub f x y = fadd f x (fneg y)"

fun fmul :: "fmt \<Rightarrow> flt \<Rightarrow> flt \<Rightarrow> flt" where
  "fmul f NaN y = NaN"
| "fmul f x NaN = NaN"
| "fmul f (Inf s) (Inf t) = Inf (s \<noteq> t)"
| "fmul f (Inf s) (Fin t m e) = (if m = 0 then NaN else Inf (s \<noteq> t))"
| "fmul f (Fin t m e) (Inf s) = (if m = 0 then NaN else Inf (s \<noteq> t))"
| "fmul f (Fin s m e) (Fin t n k) =
     (case scale 1 1 (- (e + k)) of (a, b) \<Rightarrow> fround f (s \<noteq> t) (m * n * a) b)"

fun fdiv :: "fmt \<Rightarrow> flt \<Rightarrow> flt \<Rightarrow> flt" where
  "fdiv f NaN y = NaN"
| "fdiv f x NaN = NaN"
| "fdiv f (Inf s) (Inf t) = NaN"
| "fdiv f (Inf s) (Fin t m e) = Inf (s \<noteq> t)"
| "fdiv f (Fin t m e) (Inf s) = fround f (s \<noteq> t) 0 1"
| "fdiv f (Fin s m e) (Fin t n k) =
     (if n = 0 then (if m = 0 then NaN else Inf (s \<noteq> t))
      else case scale 1 1 (k - e) of (a, b) \<Rightarrow> fround f (s \<noteq> t) (m * a) (n * b))"

text \<open>Integer square root, one binary digit at a time from the digit of weight \<open>2 ^ k\<close>.\<close>

fun isqrt_from :: "nat \<Rightarrow> nat \<Rightarrow> nat \<Rightarrow> nat" where
  "isqrt_from 0 n r = (if (r + 1)\<^sup>2 \<le> n then r + 1 else r)"
| "isqrt_from (Suc k) n r =
     isqrt_from k n (if (r + 2 ^ Suc k)\<^sup>2 \<le> n then r + 2 ^ Suc k else r)"

definition isqrt :: "nat \<Rightarrow> nat" where
  "isqrt n = isqrt_from (bit_len n) n 0"

text \<open>The square root to more digits than any format keeps, with a sticky last digit, then
  rounded.\<close>

fun fsqrt :: "fmt \<Rightarrow> flt \<Rightarrow> flt" where
  "fsqrt f NaN = NaN"
| "fsqrt f (Inf s) = (if s then NaN else Inf False)"
| "fsqrt f (Fin s m e) =
     (if m = 0 then Fin s 0 e
      else if s then NaN
      else
        let m1 = (if even e then m else 2 * m); e1 = (if even e then e else e - 1);
            n = m1 * 2 ^ 128; r = isqrt n;
            q = 2 * r + (if r\<^sup>2 = n then 0 else 1)
        in fround_int f False (int q) (e1 div 2 - 65))"

section \<open>Comparison and conversion\<close>

fun flt_lt :: "flt \<Rightarrow> flt \<Rightarrow> bool" where
  "flt_lt NaN y = False"
| "flt_lt x NaN = False"
| "flt_lt (Inf s) (Inf t) = (s \<and> \<not> t)"
| "flt_lt (Inf s) (Fin t m e) = s"
| "flt_lt (Fin t m e) (Inf s) = (\<not> s)"
| "flt_lt (Fin s m e) (Fin t n k) = (case align (signed s m) e (signed t n) k of (a, b, _) \<Rightarrow> a < b)"

fun flt_le :: "flt \<Rightarrow> flt \<Rightarrow> bool" where
  "flt_le NaN y = False"
| "flt_le x NaN = False"
| "flt_le x y = (\<not> flt_lt y x)"

fun fconv :: "fmt \<Rightarrow> flt \<Rightarrow> flt" where
  "fconv f NaN = NaN"
| "fconv f (Inf s) = Inf s"
| "fconv f (Fin s m e) = (case scale 1 1 (- e) of (a, b) \<Rightarrow> fround f s (m * a) b)"

definition f_of_nat :: "fmt \<Rightarrow> nat \<Rightarrow> flt" where
  "f_of_nat f n = fround f False n 1"

definition f_of_frac :: "fmt \<Rightarrow> nat \<Rightarrow> nat \<Rightarrow> flt" where
  "f_of_frac f n d = fround f False n d"

fun fceil :: "fmt \<Rightarrow> flt \<Rightarrow> flt" where
  "fceil f NaN = NaN"
| "fceil f (Inf s) = Inf s"
| "fceil f (Fin s m e) =
     (case scale 1 1 (- e) of (a, b) \<Rightarrow>
        fround f s (if s then m * a div b else (m * a + b - 1) div b) 1)"

text \<open>The saturating cast \<open>as u64\<close>, \<open>as u32\<close>: towards zero, negative values and NaN to 0.\<close>

fun f_as_uint :: "nat \<Rightarrow> flt \<Rightarrow> nat" where
  "f_as_uint w NaN = 0"
| "f_as_uint w (Inf s) = (if s then 0 else 2 ^ w - 1)"
| "f_as_uint w (Fin s m e) =
     (if s then 0 else case scale 1 1 (- e) of (a, b) \<Rightarrow> min (m * a div b) (2 ^ w - 1))"

definition f_zero :: "flt" where "f_zero = Fin False 0 0"

definition f_one :: "flt" where "f_one = Fin False 1 0"

text \<open>\<open>std::f32::EPSILON\<close>.\<close>

definition f32_epsilon :: "flt" where "f32_epsilon = Fin False 1 (- 23)"

end
