(* ===== verification/Prism_Config.thy ===== *)
theory Prism_Config
  imports Prism_Hash Prism_Float
begin

text \<open>
  The blockchain configuration and the sortition of block hashes (\<open>config.rs\<close>). Chain ids and the
  number of voter chains are \<open>u16\<close>, the sortition widths are computed in wrapping \<open>u64\<close> arithmetic,
  the rates in \<open>f32\<close>. The \<open>U256\<close> arithmetic of the \<open>bigint\<close> crate is exact and panics
  when a result does not fit.
\<close>

definition AVG_TX_SIZE :: u32 where "AVG_TX_SIZE = 533"

definition PROPOSER_TX_REF_HEADROOM :: flt where "PROPOSER_TX_REF_HEADROOM = f_of_nat f32 10"

definition SORTITION_PRECISION :: u64 where "SORTITION_PRECISION = - 1"

definition DECONFIRM_HEADROOM :: flt where "DECONFIRM_HEADROOM = f_of_frac f32 105 100"

definition PROPOSER_INDEX :: u16 where "PROPOSER_INDEX = 0"

definition TRANSACTION_INDEX :: u16 where "TRANSACTION_INDEX = 1"

definition FIRST_VOTER_INDEX :: u16 where "FIRST_VOTER_INDEX = 2"

definition LAZY_ANNOTATION :: bytes where "LAZY_ANNOTATION = replicate 32 0x42"

definition DEFAULT_DIFFICULTY :: h256 where "DEFAULT_DIFFICULTY = h256_from_bytes (replicate 32 255)"

lemmas index_defs = PROPOSER_INDEX_def TRANSACTION_INDEX_def FIRST_VOTER_INDEX_def

record blockchain_config =
  voter_chains :: u16
  tx_txs :: u32
  proposer_tx_refs :: u32
  proposer_mining_rate :: flt
  voter_mining_rate :: flt
  tx_mining_rate :: flt
  proposer_genesis :: h256
  voter_genesis :: "h256 list"
  total_mining_rate :: flt
  total_sortition_width :: nat
  proposer_sortition_width :: nat
  voter_sortition_width :: nat
  tx_sortition_width :: nat
  adversary_ratio :: flt
  log_epsilon :: flt
  quantile_epsilon_confirm :: flt
  quantile_epsilon_deconfirm :: flt

section \<open>Construction\<close>

text \<open>A hash that is all zero but for the big-endian index in its last two bytes.\<close>

definition index_hash :: "u16 \<Rightarrow> h256" where
  "index_hash i = h256_from_bytes (replicate 30 0 @ be_bytes 2 (unat i))"

definition voter_genesis_hashes :: "u16 \<Rightarrow> h256 list" where
  "voter_genesis_hashes vc =
     map (\<lambda>c. index_hash (word_of_nat c + FIRST_VOTER_INDEX)) [0..<unat vc]"

text \<open>The share \<open>rate / total_rate\<close> of the sortition precision, rounded up.\<close>

definition sortition_width :: "flt \<Rightarrow> flt \<Rightarrow> u64" where
  "sortition_width rate total_rate =
     word_of_nat (f_as_uint 64 (fceil f32 (fmul f32 (fdiv f32 rate total_rate)
       (f_of_nat f32 (unat SORTITION_PRECISION)))))"

text \<open>The constant is the source's \<open>3.141_692_6\<close>.\<close>

definition quantile :: "(flt \<Rightarrow> flt) \<Rightarrow> flt \<Rightarrow> flt" where
  "quantile ln e =
     (let two = f_of_nat f32 2; x = fmul f32 two e in
      fsqrt f32 (fsub f32 (fsub f32 x (ln x)) (ln (fmul f32 two (f_of_frac f32 31416926 10000000)))))"

definition config_new ::
  "(flt \<Rightarrow> flt) \<Rightarrow> u16 \<Rightarrow> u32 \<Rightarrow> u32 \<Rightarrow> flt \<Rightarrow> flt \<Rightarrow> flt \<Rightarrow> flt \<Rightarrow> blockchain_config" where
  "config_new ln vc tx_size tx_throughput proposer_rate voter_rate adv_ratio log_eps =
     (let txs = tx_size div AVG_TX_SIZE;
          tx_rate = fdiv f32 (f_of_nat f32 (unat tx_throughput)) (f_of_nat f32 (unat txs));
          total_rate = fadd f32 (fadd f32 proposer_rate (fmul f32 voter_rate (f_of_nat f32 (unat vc)))) tx_rate;
          proposer_width = sortition_width proposer_rate total_rate;
          voter_width = sortition_width voter_rate total_rate;
          tx_width = SORTITION_PRECISION - proposer_width - voter_width * ucast vc
      in \<lparr>voter_chains = vc,
          tx_txs = txs,
          proposer_tx_refs = word_of_nat (f_as_uint 32 (fceil f32
            (fmul f32 (fdiv f32 tx_rate proposer_rate) PROPOSER_TX_REF_HEADROOM))),
          proposer_mining_rate = proposer_rate,
          voter_mining_rate = voter_rate,
          tx_mining_rate = tx_rate,
          proposer_genesis = index_hash PROPOSER_INDEX,
          voter_genesis = voter_genesis_hashes vc,
          total_mining_rate = total_rate,
          total_sortition_width = unat SORTITION_PRECISION,
          proposer_sortition_width = unat proposer_width,
          voter_sortition_width = unat voter_width,
          tx_sortition_width = unat tx_width,
          adversary_ratio = adv_ratio,
          log_epsilon = log_eps,
          quantile_epsilon_confirm = quantile ln (fmul f32 log_eps DECONFIRM_HEADROOM),
          quantile_epsilon_deconfirm = quantile ln log_eps\<rparr>)"

section \<open>Sortition\<close>

definition u256_result :: "nat \<Rightarrow> nat res" where
  "u256_result x = (if x < 2 ^ 256 then Ok x else Panic ArithOverflow)"

definition u256_div :: "nat \<Rightarrow> nat \<Rightarrow> nat res" where
  "u256_div x y = (if y = 0 then Panic DivByZero else Ok (x div y))"

definition u256_mod :: "nat \<Rightarrow> nat \<Rightarrow> nat res" where
  "u256_mod x y = (if y = 0 then Panic DivByZero else Ok (x mod y))"

definition sortition_hash :: "blockchain_config \<Rightarrow> h256 \<Rightarrow> h256 \<Rightarrow> u16 option res" where
  "sortition_hash c h d =
     (let hash = of_be_bytes (h256_as_ref h); difficulty = of_be_bytes (h256_as_ref d) in
      rbind (u256_div difficulty (total_sortition_width c)) (\<lambda>multiplier.
      rbind (u256_result (multiplier * proposer_sortition_width c)) (\<lambda>proposer_width.
      rbind (u256_result (proposer_sortition_width c + tx_sortition_width c)) (\<lambda>w.
      rbind (u256_result (multiplier * w)) (\<lambda>transaction_width.
        if hash < proposer_width then Ok (Some PROPOSER_INDEX)
        else rbind (u256_result (transaction_width + proposer_width)) (\<lambda>bound.
          if hash < bound then Ok (Some TRANSACTION_INDEX)
          else if hash < difficulty then
            rbind (rsub hash proposer_width) (\<lambda>h1.
            rbind (rsub h1 transaction_width) (\<lambda>h2.
            rbind (u256_mod h2 (unat (voter_chains c))) (\<lambda>voter_idx.
            Ok (Some (word_of_nat voter_idx + FIRST_VOTER_INDEX)))))
          else Ok None))))))"

section \<open>What sortition computes\<close>

text \<open>Sortition widths whose products stay below the difficulty, and few enough voter chains for
  every chain id to fit in 16 bits.\<close>

definition wf_widths :: "blockchain_config \<Rightarrow> bool" where
  "wf_widths c \<longleftrightarrow> 0 < total_sortition_width c \<and> total_sortition_width c < 2 ^ 64 \<and>
     2 * proposer_sortition_width c + tx_sortition_width c \<le> total_sortition_width c \<and>
     0 < unat (voter_chains c) \<and> unat (voter_chains c) + 2 \<le> 2 ^ 16"

definition multiplier :: "blockchain_config \<Rightarrow> h256 \<Rightarrow> nat" where
  "multiplier c d = unat d div total_sortition_width c"

definition proposer_bound :: "blockchain_config \<Rightarrow> h256 \<Rightarrow> nat" where
  "proposer_bound c d = multiplier c d * proposer_sortition_width c"

definition transaction_bound :: "blockchain_config \<Rightarrow> h256 \<Rightarrow> nat" where
  "transaction_bound c d =
     multiplier c d * (2 * proposer_sortition_width c + tx_sortition_width c)"

definition sortition_class :: "blockchain_config \<Rightarrow> h256 \<Rightarrow> h256 \<Rightarrow> nat option" where
  "sortition_class c h d =
     (if unat h < proposer_bound c d then Some 0
      else if unat h < transaction_bound c d then Some 1
      else if unat h < unat d
        then Some (2 + (unat h - transaction_bound c d) mod unat (voter_chains c))
      else None)"

lemma transaction_bound_le: "wf_widths c \<Longrightarrow> transaction_bound c d \<le> unat d"
  unfolding wf_widths_def transaction_bound_def multiplier_def
  by (metis (no_types, lifting) div_times_less_eq_dividend le_trans mult_le_mono2)

lemma proposer_bound_le: "proposer_bound c d \<le> transaction_bound c d"
  by (simp add: proposer_bound_def transaction_bound_def add_mult_distrib2)

lemma unat_h256_less: "unat (h :: h256) < 2 ^ 256"
  using unat_lt2p [of h] by simp

lemma sortition_hash_class:
  assumes "wf_widths c"
  shows "sortition_hash c h d = Ok (map_option word_of_nat (sortition_class c h d))"
proof -
  let ?m = "multiplier c d" and ?p = "proposer_sortition_width c" and ?t = "tx_sortition_width c"
  have tb: "?m * (?p + ?t) + ?m * ?p = transaction_bound c d"
    by (simp add: transaction_bound_def add_mult_distrib2)
  have fit: "transaction_bound c d < 2 ^ 256"
    using transaction_bound_le [OF assms, of d] unat_h256_less [of d] by linarith
  then have fits: "?m * ?p < 2 ^ 256" "?m * (?p + ?t) < 2 ^ 256" using tb by linarith+
  have w: "?p + ?t < 2 ^ 256" using assms by (simp add: wf_widths_def)
  have pos: "unat (voter_chains c) \<noteq> 0" "total_sortition_width c \<noteq> 0"
    using assms by (auto simp: wf_widths_def)
  have tb': "?m * (?p + ?t) + ?m * ?p = transaction_bound c d" "?m * ?p = proposer_bound c d"
    using tb by (simp_all add: proposer_bound_def)
  have diff: "unat h - ?m * ?p - ?m * (?p + ?t) = unat h - transaction_bound c d" using tb by simp
  show ?thesis
    using pos w fits fit tb'
    unfolding sortition_hash_def Let_def of_be_bytes_h256 u256_div_def multiplier_def [symmetric]
    by (simp add: u256_result_def u256_mod_def sortition_class_def index_defs diff add.commute)
qed

lemma sortition_class_less:
  assumes "wf_widths c" and "sortition_class c h d = Some i"
  shows "i < unat (voter_chains c) + 2"
  using assms by (auto simp: sortition_class_def wf_widths_def split: if_splits)

text \<open>A configuration with three voter chains, at which the properties are exercised.\<close>

definition example_config :: blockchain_config where
  "example_config = \<lparr>voter_chains = 3, tx_txs = 10, proposer_tx_refs = 5,
     proposer_mining_rate = f_one, voter_mining_rate = f_one, tx_mining_rate = f_one,
     proposer_genesis = index_hash PROPOSER_INDEX, voter_genesis = voter_genesis_hashes 3,
     total_mining_rate = Fin False 5 0, total_sortition_width = 100,
     proposer_sortition_width = 20, voter_sortition_width = 20, tx_sortition_width = 20,
     adversary_ratio = Fin False 1 (- 2), log_epsilon = Fin False 10 0,
     quantile_epsilon_confirm = f_one, quantile_epsilon_deconfirm = f_one\<rparr>"

text \<open>C33: sortition never panics on well-formed widths; it rejects exactly the hashes that are not
  below the difficulty, and every id it returns is that of the proposer chain, the
  transaction chain or an existing voter chain.\<close>

theorem sortition_hash_correct:
  assumes "wf_widths c"
  shows "\<exists>r. sortition_hash c h d = Ok r \<and> (r = None \<longleftrightarrow> unat d \<le> unat h) \<and>
    (\<forall>i. r = Some i \<longrightarrow> unat i < unat (voter_chains c) + 2)"
proof -
  have none: "sortition_class c h d = None \<longleftrightarrow> unat d \<le> unat h"
    using transaction_bound_le [OF assms, of d] proposer_bound_le [of c d]
    by (auto simp: sortition_class_def)
  have "unat (word_of_nat i :: u16) < unat (voter_chains c) + 2" if "sortition_class c h d = Some i" for i
  proof -
    have "i < unat (voter_chains c) + 2" using assms that by (rule sortition_class_less)
    moreover from this assms have "i < 2 ^ 16" by (simp add: wf_widths_def)
    ultimately show ?thesis by (simp add: unat_of_nat)
  qed
  with none show ?thesis by (auto simp: sortition_hash_class [OF assms])
qed

theorem sortition_hash_correct_witness:
  "\<exists>r. sortition_hash example_config 70 1000 = Ok r \<and> (r = None \<longleftrightarrow> False)"
proof -
  have "wf_widths example_config" by (simp add: wf_widths_def example_config_def)
  from sortition_hash_correct [OF this, of 70 1000] show ?thesis by auto
qed

text \<open>C34: the hashes that sortition assigns to the transaction chain: their number is the
  multiplier times the proposer width plus the transaction width, not times the transaction
  width alone, because the proposer share is added a second time.\<close>

theorem transaction_share:
  assumes "wf_widths c"
  shows "card {h. sortition_hash c h d = Ok (Some TRANSACTION_INDEX)} =
    multiplier c d * (proposer_sortition_width c + tx_sortition_width c)"
proof -
  have "sortition_hash c h d = Ok (Some TRANSACTION_INDEX) \<longleftrightarrow>
      proposer_bound c d \<le> unat h \<and> unat h < transaction_bound c d" for h
  proof -
    have ne: "(word_of_nat (2 + k mod n) :: u16) \<noteq> 1" if "n + 2 \<le> 2 ^ 16" "0 < n" for k n
    proof -
      have "2 + k mod n < 2 ^ 16" using that mod_less_divisor [of n k] by linarith
      then have "unat (word_of_nat (2 + k mod n) :: u16) = 2 + k mod n" by (intro unat_of_nat_less) simp
      then show ?thesis by (metis add_2_eq_Suc nat.inject old.nat.distinct(2) unat_1 One_nat_def)
    qed
    show ?thesis
      using assms ne [of "unat (voter_chains c)"]
      by (auto simp: sortition_hash_class [OF assms] sortition_class_def index_defs wf_widths_def
          split: if_splits)
  qed
  then have "{h. sortition_hash c h d = Ok (Some TRANSACTION_INDEX)} =
      {h :: h256. unat h \<in> {proposer_bound c d ..< transaction_bound c d}}" by auto
  also have "card \<dots> = card {proposer_bound c d ..< transaction_bound c d}"
  proof (rule bij_betw_same_card [of unat])
    have "x \<in> unat ` {h :: h256. unat h \<in> {proposer_bound c d ..< transaction_bound c d}}"
      if "x \<in> {proposer_bound c d ..< transaction_bound c d}" for x
    proof (rule image_eqI)
      have "x < 2 ^ 256"
        using that transaction_bound_le [OF assms, of d] unat_h256_less [of d] by auto
      then show "x = unat (word_of_nat x :: h256)" by (simp add: unat_of_nat)
      with that show "(word_of_nat x :: h256) \<in> {h. unat h \<in> {proposer_bound c d ..< transaction_bound c d}}"
        by simp
    qed
    then show "bij_betw unat {h :: h256. unat h \<in> {proposer_bound c d ..< transaction_bound c d}}
        {proposer_bound c d ..< transaction_bound c d}"
      by (auto simp: bij_betw_def inj_on_def word_unat_eq_iff)
  qed
  also have "\<dots> = multiplier c d * (proposer_sortition_width c + tx_sortition_width c)"
    by (simp add: proposer_bound_def transaction_bound_def add_mult_distrib2)
  finally show ?thesis .
qed

theorem transaction_share_witness:
  "card {h. sortition_hash example_config h 1000 = Ok (Some TRANSACTION_INDEX)} = 400"
proof -
  have "wf_widths example_config" by (simp add: wf_widths_def example_config_def)
  moreover have "multiplier example_config 1000 *
      (proposer_sortition_width example_config + tx_sortition_width example_config) = 400"
    by (simp add: multiplier_def example_config_def)
  ultimately show ?thesis using transaction_share [of example_config 1000] by (simp only:)
qed

section \<open>Genesis hashes\<close>

lemma of_be_bytes_zeros: "of_be_bytes (replicate k 0) = 0"
  by (induction k) (simp_all add: of_be_bytes_def flip: replicate_append_same)

lemma unat_index_hash: "unat (index_hash i) = unat i"
proof -
  have "unat i < 256 ^ 2" using unat_lt2p [of i] by simp
  then have "of_be_bytes (replicate 30 0 @ be_bytes 2 (unat i)) = unat i"
    unfolding of_be_bytes_append of_be_bytes_zeros by (simp add: of_be_be_bytes)
  moreover have "unat i < 2 ^ 256"
  proof -
    have "unat i < 2 ^ 16" using unat_lt2p [of i] by simp
    also have "(2 :: nat) ^ 16 \<le> 2 ^ 256" by (intro power_increasing) simp_all
    finally show ?thesis .
  qed
  then have "unat (word_of_nat (unat i) :: h256) = unat i" by (intro unat_of_nat_less) simp
  ultimately show ?thesis by (simp only: index_hash_def h256_from_bytes_def)
qed

lemma index_hash_inj: "index_hash i = index_hash j \<longleftrightarrow> i = j"
  by (metis unat_index_hash word_unat_eq_iff)

lemma length_voter_genesis_hashes [simp]: "length (voter_genesis_hashes vc) = unat vc"
  by (simp add: voter_genesis_hashes_def)

lemma distinct_genesis:
  assumes "unat vc + 2 \<le> 2 ^ 16"
  shows "distinct (index_hash PROPOSER_INDEX # voter_genesis_hashes vc)"
proof -
  have id: "unat (word_of_nat c + FIRST_VOTER_INDEX) = c + 2" if "c < unat vc" for c
  proof -
    have "(word_of_nat c + FIRST_VOTER_INDEX :: u16) = word_of_nat (c + 2)" by (simp add: index_defs)
    moreover have "c + 2 < 2 ^ 16" using that assms by simp
    ultimately show ?thesis by (simp only: unat_of_nat) simp
  qed
  have "inj_on (\<lambda>c. index_hash (word_of_nat c + FIRST_VOTER_INDEX)) {0..<unat vc}"
    by (rule inj_onI) (metis id index_hash_inj add_right_cancel atLeastLessThan_iff)
  moreover have "index_hash PROPOSER_INDEX \<noteq> index_hash (word_of_nat c + FIRST_VOTER_INDEX)" if "c < unat vc" for c
    using id [OF that] by (auto simp: index_hash_inj index_defs)
  ultimately show ?thesis by (fastforce simp: voter_genesis_hashes_def distinct_map)
qed

end
