(* ===== verification/Prism_Block.thy ===== *)
theory Prism_Block
  imports Prism_Merkle Prism_Transaction Prism_Config
begin

text \<open>
  Blocks, their headers and the three kinds of content (\<open>block/*.rs\<close>). The bincode serialisation
  of a header is the parameter \<open>ser\<close>; timestamps are naturals (\<open>u128\<close> in the source).
\<close>

record header =
  parent :: h256
  timestamp :: nat
  nonce :: u32
  content_merkle_root :: h256
  extra_content :: bytes
  difficulty :: h256

record transaction_content =
  transactions :: "transaction list"

record proposer_content =
  transaction_refs :: "h256 list"
  proposer_refs :: "h256 list"

record voter_content =
  chain_number :: u16
  voter_parent :: h256
  votes :: "h256 list"

datatype content =
    Transaction transaction_content
  | Proposer proposer_content
  | Voter voter_content

record block =
  header :: header
  content :: content
  sortition_proof :: "h256 list"

section \<open>Construction\<close>

definition header_new :: "h256 \<Rightarrow> nat \<Rightarrow> u32 \<Rightarrow> h256 \<Rightarrow> bytes \<Rightarrow> h256 \<Rightarrow> header" where
  "header_new p t n root extra d =
     \<lparr>parent = p, timestamp = t, nonce = n, content_merkle_root = root, extra_content = extra,
      difficulty = d\<rparr>"

definition block_from_header :: "header \<Rightarrow> content \<Rightarrow> h256 list \<Rightarrow> block" where
  "block_from_header h c pf = \<lparr>header = h, content = c, sortition_proof = pf\<rparr>"

definition block_new ::
  "h256 \<Rightarrow> nat \<Rightarrow> u32 \<Rightarrow> h256 \<Rightarrow> h256 list \<Rightarrow> content \<Rightarrow> bytes \<Rightarrow> h256 \<Rightarrow> block" where
  "block_new p t n root pf c extra d =
     \<lparr>header = header_new p t n root extra d, content = c, sortition_proof = pf\<rparr>"

definition proposer_genesis_block :: block where
  "proposer_genesis_block =
     block_new 0 0 0 0 [] (Proposer \<lparr>transaction_refs = [], proposer_refs = []\<rparr>) (replicate 32 0)
       DEFAULT_DIFFICULTY"

definition voter_genesis_block :: "u16 \<Rightarrow> block" where
  "voter_genesis_block chain_num =
     block_new 0 0 0 0 [] (Voter \<lparr>chain_number = chain_num, voter_parent = 0, votes = []\<rparr>)
       (replicate 32 0) DEFAULT_DIFFICULTY"

section \<open>Hashes\<close>

definition header_hash :: "(bytes \<Rightarrow> h256) \<Rightarrow> (header \<Rightarrow> bytes) \<Rightarrow> header \<Rightarrow> h256" where
  "header_hash keccak ser h = keccak (ser h)"

definition block_hash :: "(bytes \<Rightarrow> h256) \<Rightarrow> (header \<Rightarrow> bytes) \<Rightarrow> block \<Rightarrow> h256" where
  "block_hash keccak ser b = header_hash keccak ser (header b)"

definition tree_root :: "(bytes \<Rightarrow> h256) \<Rightarrow> ('a \<Rightarrow> h256) \<Rightarrow> 'a list \<Rightarrow> h256 res" where
  "tree_root keccak hash xs = rbind (merkle_new keccak hash xs) (\<lambda>t. Ok (merkle_root t))"

definition transaction_content_hash :: "(bytes \<Rightarrow> h256) \<Rightarrow> transaction_content \<Rightarrow> h256 res" where
  "transaction_content_hash keccak c = tree_root keccak tx_hash (transactions c)"

definition proposer_content_hash :: "(bytes \<Rightarrow> h256) \<Rightarrow> proposer_content \<Rightarrow> h256 res" where
  "proposer_content_hash keccak c =
     rbind (tree_root keccak (hash_h256 keccak) (transaction_refs c)) (\<lambda>tx_root.
     rbind (tree_root keccak (hash_h256 keccak) (proposer_refs c)) (\<lambda>prop_root.
     Ok (keccak (h256_as_ref tx_root @ h256_as_ref prop_root))))"

definition voter_content_hash :: "(bytes \<Rightarrow> h256) \<Rightarrow> voter_content \<Rightarrow> h256 res" where
  "voter_content_hash keccak c =
     rbind (tree_root keccak (hash_h256 keccak) (votes c)) (\<lambda>root.
     Ok (keccak (be_bytes 2 (unat (chain_number c)) @ h256_as_ref (voter_parent c) @ h256_as_ref root)))"

fun content_hash :: "(bytes \<Rightarrow> h256) \<Rightarrow> content \<Rightarrow> h256 res" where
  "content_hash keccak (Transaction c) = transaction_content_hash keccak c"
| "content_hash keccak (Proposer c) = proposer_content_hash keccak c"
| "content_hash keccak (Voter c) = voter_content_hash keccak c"

section \<open>Payload sizes\<close>

text \<open>\<open>size_of::<H256>()\<close> is 32 and \<open>size_of::<u16>()\<close> is 2; the size of a header depends on the layout
  the compiler chooses and is a parameter.\<close>

fun content_size :: "content \<Rightarrow> nat" where
  "content_size (Transaction c) = sum_list (map tx_size (transactions c))"
| "content_size (Proposer c) = 32 * (length (transaction_refs c) + length (proposer_refs c))"
| "content_size (Voter c) = 2 + 32 + length (votes c) * 32"

definition block_size :: "nat \<Rightarrow> block \<Rightarrow> nat" where
  "block_size header_size b =
     header_size + content_size (content b) + length (sortition_proof b) * 32"

section \<open>Hashing never panics\<close>

lemma tree_root_Ok: "tree_root keccak hash xs =
   Ok (if xs = [] then 0 else hd (tree_nodes (hash_pair keccak) (map hash xs)))"
proof (cases "xs = []")
  case True
  then show ?thesis by (simp add: tree_root_def merkle_new_def merkle_root_def)
next
  case False
  then have t: "merkle_new keccak hash xs =
      Ok \<lparr>data_size = map snd (layer_sizes (length xs)), nodes = tree_nodes (hash_pair keccak) (map hash xs)\<rparr>"
    by (rule merkle_new_tree)
  from False merkle_root_tree [OF t, of 0] t show ?thesis by (simp add: tree_root_def)
qed

lemma content_hash_total: "\<exists>h. content_hash keccak c = Ok h"
  by (cases c) (simp_all add: transaction_content_hash_def proposer_content_hash_def
      voter_content_hash_def tree_root_Ok)

section \<open>Contents with the same hash\<close>

lemma pad_pad: "pad (pad xs) = pad xs"
  using even_padded [of "length xs"] unfolding length_pad [symmetric] by (simp add: pad_def)

lemma hd_tree_nodes_pad:
  assumes "1 < length xs"
  shows "hd (tree_nodes f (pad xs)) = hd (tree_nodes f xs)"
proof -
  have up: "hd (tree_nodes f ys) = hd (tree_nodes f (parent_layer f ys))" if "1 < length ys" for ys
  proof -
    have "0 < length ys" using that by linarith
    then have "0 < length (parent_layer f ys)" using padded_half_pos by simp
    then have "tree_nodes f (parent_layer f ys) \<noteq> []"
      by (intro tree_nodes_neq_Nil) (metis length_greater_0_conv)
    then show ?thesis using that by (subst tree_nodes.simps) (simp add: hd_append)
  qed
  have "1 < length (pad xs)" using assms padded_ge [of "length xs"] by simp
  from up [OF this] up [OF assms] show ?thesis by (simp add: parent_layer_def pad_pad)
qed

lemma tree_root_pad:
  assumes "1 < length xs"
  shows "tree_root keccak hash (pad xs) = tree_root keccak hash xs"
proof -
  have "map hash (pad xs) = pad (map hash xs)" using assms by (cases xs rule: rev_cases) (auto simp: pad_def)
  moreover have "pad xs \<noteq> []" "xs \<noteq> []" using assms by (auto simp: pad_def)
  ultimately show ?thesis using assms hd_tree_nodes_pad [of "map hash xs"] by (simp add: tree_root_Ok)
qed


definition example_tx :: transaction where
  "example_tx = \<lparr>stx_transaction = \<lparr>utx_unsigned = \<lparr>rtx_nonce = 0, rtx_gas_price = 1, rtx_gas = 21000,
     rtx_action = Create, rtx_value = 5, rtx_data = [7]\<rparr>, utx_v = 27, utx_r = 3, utx_s = 7,
     utx_hash = 7\<rparr>, stx_sender = 3, stx_public = Some 3\<rparr>"


end
