(* ===== verification/Prism_Counter.thy ===== *)
theory Prism_Counter
  imports Prism_Block
begin

text \<open>
  The global performance counters (\<open>experiment/performance_counter.rs\<close>). Atomic additions wrap, so
  every counter is a 64-bit word; the two \<open>AtomicIsize\<close> counters are read as signed words. The current
  time in milliseconds is the argument \<open>now\<close>, the size of a header the argument \<open>hs\<close>.
\<close>

type_synonym usize = "64 word"

record counter_part1 =
  generated_transactions :: usize
  generated_transaction_bytes :: usize
  generate_transaction_failures :: usize
  confirmed_transactions :: usize
  confirmed_transaction_bytes :: usize
  deconfirmed_transactions :: usize
  deconfirmed_transaction_bytes :: usize
  confirmed_transaction_blocks :: usize
  deconfirmed_transaction_blocks :: usize
  processed_proposer_blocks :: usize

record counter_part2 = counter_part1 +
  processed_proposer_block_bytes :: usize
  processed_voter_blocks :: usize
  processed_voter_block_bytes :: usize
  processed_transaction_blocks :: usize
  processed_transaction_block_bytes :: usize
  mined_proposer_blocks :: usize
  mined_proposer_block_bytes :: usize
  mined_voter_blocks :: usize
  mined_voter_block_bytes :: usize
  mined_transaction_blocks :: usize

record counter_part3 = counter_part2 +
  mined_transaction_block_bytes :: usize
  total_proposer_block_delay :: usize
  total_voter_block_delay :: usize
  total_transaction_block_delay :: usize
  total_proposer_block_squared_delay :: usize
  total_voter_block_squared_delay :: usize
  total_transaction_block_squared_delay :: usize
  received_proposer_blocks :: usize
  received_voter_blocks :: usize
  received_transaction_blocks :: usize

record counter = counter_part3 +
  incoming_message_queue :: usize
  total_transaction_block_confirmation_latency :: usize
  total_transaction_block_squared_confirmation_latency :: usize
  proposer_main_chain_length :: usize
  voter_main_chain_length_sum :: usize
  insert_block_db_time :: usize
  insert_block_db_count :: usize
  processed_message_bytes :: usize


definition counter_default :: counter where
  "counter_default = \<lparr>
     generated_transactions = 0,
     generated_transaction_bytes = 0,
     generate_transaction_failures = 0,
     confirmed_transactions = 0,
     confirmed_transaction_bytes = 0,
     deconfirmed_transactions = 0,
     deconfirmed_transaction_bytes = 0,
     confirmed_transaction_blocks = 0,
     deconfirmed_transaction_blocks = 0,
     processed_proposer_blocks = 0,
     processed_proposer_block_bytes = 0,
     processed_voter_blocks = 0,
     processed_voter_block_bytes = 0,
     processed_transaction_blocks = 0,
     processed_transaction_block_bytes = 0,
     mined_proposer_blocks = 0,
     mined_proposer_block_bytes = 0,
     mined_voter_blocks = 0,
     mined_voter_block_bytes = 0,
     mined_transaction_blocks = 0,
     mined_transaction_block_bytes = 0,
     total_proposer_block_delay = 0,
     total_voter_block_delay = 0,
     total_transaction_block_delay = 0,
     total_proposer_block_squared_delay = 0,
     total_voter_block_squared_delay = 0,
     total_transaction_block_squared_delay = 0,
     received_proposer_blocks = 0,
     received_voter_blocks = 0,
     received_transaction_blocks = 0,
     incoming_message_queue = 0,
     total_transaction_block_confirmation_latency = 0,
     total_transaction_block_squared_confirmation_latency = 0,
     proposer_main_chain_length = 0,
     voter_main_chain_length_sum = 0,
     insert_block_db_time = 0,
     insert_block_db_count = 0,
     processed_message_bytes = 0\<rparr>"

record snapshot_part1 =
  sn_generated_transactions :: nat
  sn_generated_transaction_bytes :: nat
  sn_generate_transaction_failures :: nat
  sn_confirmed_transactions :: nat
  sn_confirmed_transaction_bytes :: nat
  sn_deconfirmed_transactions :: nat
  sn_deconfirmed_transaction_bytes :: nat
  sn_confirmed_transaction_blocks :: nat
  sn_deconfirmed_transaction_blocks :: nat
  sn_processed_proposer_blocks :: nat

record snapshot_part2 = snapshot_part1 +
  sn_processed_proposer_block_bytes :: nat
  sn_processed_voter_blocks :: nat
  sn_processed_voter_block_bytes :: nat
  sn_processed_transaction_blocks :: nat
  sn_processed_transaction_block_bytes :: nat
  sn_mined_proposer_blocks :: nat
  sn_mined_proposer_block_bytes :: nat
  sn_mined_voter_blocks :: nat
  sn_mined_voter_block_bytes :: nat
  sn_mined_transaction_blocks :: nat

record snapshot_part3 = snapshot_part2 +
  sn_mined_transaction_block_bytes :: nat
  sn_total_proposer_block_delay :: nat
  sn_total_voter_block_delay :: nat
  sn_total_transaction_block_delay :: nat
  sn_total_proposer_block_squared_delay :: nat
  sn_total_voter_block_squared_delay :: nat
  sn_total_transaction_block_squared_delay :: nat
  sn_received_proposer_blocks :: nat
  sn_received_voter_blocks :: nat
  sn_received_transaction_blocks :: nat

record snapshot = snapshot_part3 +
  sn_incoming_message_queue :: int
  sn_total_transaction_block_confirmation_latency :: nat
  sn_total_transaction_block_squared_confirmation_latency :: nat
  sn_proposer_main_chain_length :: nat
  sn_voter_main_chain_length_sum :: int
  sn_avg_insert_block_db_time :: nat
  sn_processed_message_bytes :: nat


section \<open>Recording\<close>

definition record_insert_block_db_time :: "nat \<Rightarrow> counter \<Rightarrow> counter" where
  "record_insert_block_db_time time c =
     c\<lparr>insert_block_db_time := insert_block_db_time c + word_of_nat time,
       insert_block_db_count := insert_block_db_count c + 1\<rparr>"

definition record_process_message :: "nat \<Rightarrow> counter \<Rightarrow> counter" where
  "record_process_message bytes c =
     c\<lparr>incoming_message_queue := incoming_message_queue c - 1,
       processed_message_bytes := processed_message_bytes c + word_of_nat bytes\<rparr>"

definition record_receive_message :: "counter \<Rightarrow> counter" where
  "record_receive_message c = c\<lparr>incoming_message_queue := incoming_message_queue c + 1\<rparr>"

definition block_delay :: "nat \<Rightarrow> block \<Rightarrow> nat" where
  "block_delay now b =
     (let mined_time = timestamp (header b) in if now \<le> mined_time then 0 else now - mined_time)"

definition record_receive_block :: "nat \<Rightarrow> block \<Rightarrow> counter \<Rightarrow> counter" where
  "record_receive_block now b c =
     (let delay = block_delay now b in
      case content b of
        Transaction _ \<Rightarrow>
          c\<lparr>total_transaction_block_delay := total_transaction_block_delay c + word_of_nat delay,
            total_transaction_block_squared_delay :=
              total_transaction_block_squared_delay c + word_of_nat (delay * delay),
            received_transaction_blocks := received_transaction_blocks c + 1\<rparr>
      | Proposer _ \<Rightarrow>
          c\<lparr>total_proposer_block_delay := total_proposer_block_delay c + word_of_nat delay,
            total_proposer_block_squared_delay :=
              total_proposer_block_squared_delay c + word_of_nat (delay * delay),
            received_proposer_blocks := received_proposer_blocks c + 1\<rparr>
      | Voter _ \<Rightarrow>
          c\<lparr>total_voter_block_delay := total_voter_block_delay c + word_of_nat delay,
            total_voter_block_squared_delay :=
              total_voter_block_squared_delay c + word_of_nat (delay * delay),
            received_voter_blocks := received_voter_blocks c + 1\<rparr>)"

definition record_process_block :: "nat \<Rightarrow> block \<Rightarrow> counter \<Rightarrow> counter" where
  "record_process_block hs b c =
     (case content b of
        Transaction _ \<Rightarrow>
          c\<lparr>processed_transaction_blocks := processed_transaction_blocks c + 1,
            processed_transaction_block_bytes :=
              processed_transaction_block_bytes c + word_of_nat (block_size hs b)\<rparr>
      | Voter _ \<Rightarrow>
          c\<lparr>processed_voter_blocks := processed_voter_blocks c + 1,
            processed_voter_block_bytes :=
              processed_voter_block_bytes c + word_of_nat (block_size hs b)\<rparr>
      | Proposer _ \<Rightarrow>
          c\<lparr>processed_proposer_blocks := processed_proposer_blocks c + 1,
            processed_proposer_block_bytes :=
              processed_proposer_block_bytes c + word_of_nat (block_size hs b)\<rparr>)"

definition record_mine_block :: "nat \<Rightarrow> block \<Rightarrow> counter \<Rightarrow> counter" where
  "record_mine_block hs b c =
     (case content b of
        Transaction _ \<Rightarrow>
          c\<lparr>mined_transaction_blocks := mined_transaction_blocks c + 1,
            mined_transaction_block_bytes :=
              mined_transaction_block_bytes c + word_of_nat (block_size hs b)\<rparr>
      | Voter _ \<Rightarrow>
          c\<lparr>mined_voter_blocks := mined_voter_blocks c + 1,
            mined_voter_block_bytes := mined_voter_block_bytes c + word_of_nat (block_size hs b)\<rparr>
      | Proposer _ \<Rightarrow>
          c\<lparr>mined_proposer_blocks := mined_proposer_blocks c + 1,
            mined_proposer_block_bytes :=
              mined_proposer_block_bytes c + word_of_nat (block_size hs b)\<rparr>)"

definition record_update_proposer_main_chain :: "nat \<Rightarrow> counter \<Rightarrow> counter" where
  "record_update_proposer_main_chain new_height c =
     c\<lparr>proposer_main_chain_length := word_of_nat new_height\<rparr>"

definition record_update_voter_main_chain :: "nat \<Rightarrow> nat \<Rightarrow> counter \<Rightarrow> counter" where
  "record_update_voter_main_chain prev_height new_height c =
     (if prev_height \<le> new_height
      then c\<lparr>voter_main_chain_length_sum :=
             voter_main_chain_length_sum c + word_of_nat (new_height - prev_height)\<rparr>
      else c\<lparr>voter_main_chain_length_sum :=
             voter_main_chain_length_sum c - word_of_nat (prev_height - new_height)\<rparr>)"

definition record_confirm_transaction_block :: "nat \<Rightarrow> block \<Rightarrow> counter \<Rightarrow> counter" where
  "record_confirm_transaction_block now b c =
     (let delay = block_delay now b in
      c\<lparr>total_transaction_block_confirmation_latency :=
          total_transaction_block_confirmation_latency c + word_of_nat delay,
        total_transaction_block_squared_confirmation_latency :=
          total_transaction_block_squared_confirmation_latency c + word_of_nat (delay * delay),
        confirmed_transaction_blocks := confirmed_transaction_blocks c + 1\<rparr>)"

definition record_deconfirm_transaction_blocks :: "nat \<Rightarrow> counter \<Rightarrow> counter" where
  "record_deconfirm_transaction_blocks num_blocks c =
     c\<lparr>deconfirmed_transaction_blocks := deconfirmed_transaction_blocks c + word_of_nat num_blocks\<rparr>"

definition record_confirm_transaction :: "transaction \<Rightarrow> counter \<Rightarrow> counter" where
  "record_confirm_transaction t c =
     c\<lparr>confirmed_transactions := confirmed_transactions c + 1,
       confirmed_transaction_bytes := confirmed_transaction_bytes c + word_of_nat (tx_size t)\<rparr>"

definition record_deconfirm_transaction :: "transaction \<Rightarrow> counter \<Rightarrow> counter" where
  "record_deconfirm_transaction t c =
     c\<lparr>deconfirmed_transactions := deconfirmed_transactions c + 1,
       deconfirmed_transaction_bytes := deconfirmed_transaction_bytes c + word_of_nat (tx_size t)\<rparr>"

text \<open>The argument is the generated transaction, or \<open>None\<close> for a wallet error.\<close>

definition record_generate_transaction :: "transaction option \<Rightarrow> counter \<Rightarrow> counter" where
  "record_generate_transaction t c =
     (case t of
        Some t \<Rightarrow>
          c\<lparr>generated_transactions := generated_transactions c + 1,
            generated_transaction_bytes := generated_transaction_bytes c + word_of_nat (tx_size t)\<rparr>
      | None \<Rightarrow> c\<lparr>generate_transaction_failures := generate_transaction_failures c + 1\<rparr>)"

section \<open>Snapshots\<close>

definition avg_insert_time :: "counter \<Rightarrow> nat" where
  "avg_insert_time c =
     f_as_uint 64 (fdiv f64 (f_of_nat f64 (unat (insert_block_db_time c)))
                            (f_of_nat f64 (unat (insert_block_db_count c))))"

definition counter_snapshot :: "counter \<Rightarrow> snapshot" where
  "counter_snapshot c = \<lparr>
     sn_generated_transactions = unat (generated_transactions c),
     sn_generated_transaction_bytes = unat (generated_transaction_bytes c),
     sn_generate_transaction_failures = unat (generate_transaction_failures c),
     sn_confirmed_transactions = unat (confirmed_transactions c),
     sn_confirmed_transaction_bytes = unat (confirmed_transaction_bytes c),
     sn_deconfirmed_transactions = unat (deconfirmed_transactions c),
     sn_deconfirmed_transaction_bytes = unat (deconfirmed_transaction_bytes c),
     sn_confirmed_transaction_blocks = unat (confirmed_transaction_blocks c),
     sn_deconfirmed_transaction_blocks = unat (deconfirmed_transaction_blocks c),
     sn_processed_proposer_blocks = unat (processed_proposer_blocks c),
     sn_processed_proposer_block_bytes = unat (processed_proposer_block_bytes c),
     sn_processed_voter_blocks = unat (processed_voter_blocks c),
     sn_processed_voter_block_bytes = unat (processed_voter_block_bytes c),
     sn_processed_transaction_blocks = unat (processed_transaction_blocks c),
     sn_processed_transaction_block_bytes = unat (processed_transaction_block_bytes c),
     sn_mined_proposer_blocks = unat (mined_proposer_blocks c),
     sn_mined_proposer_block_bytes = unat (mined_proposer_block_bytes c),
     sn_mined_voter_blocks = unat (mined_voter_blocks c),
     sn_mined_voter_block_bytes = unat (mined_voter_block_bytes c),
     sn_mined_transaction_blocks = unat (mined_transaction_blocks c),
     sn_mined_transaction_block_bytes = unat (mined_transaction_block_bytes c),
     sn_total_proposer_block_delay = unat (total_proposer_block_delay c),
     sn_total_voter_block_delay = unat (total_voter_block_delay c),
     sn_total_transaction_block_delay = unat (total_transaction_block_delay c),
     sn_total_proposer_block_squared_delay = unat (total_proposer_block_squared_delay c),
     sn_total_voter_block_squared_delay = unat (total_voter_block_squared_delay c),
     sn_total_transaction_block_squared_delay = unat (total_transaction_block_squared_delay c),
     sn_received_proposer_blocks = unat (received_proposer_blocks c),
     sn_received_voter_blocks = unat (received_voter_blocks c),
     sn_received_transaction_blocks = unat (received_transaction_blocks c),
     sn_incoming_message_queue = max 0 (sint (incoming_message_queue c)),
     sn_total_transaction_block_confirmation_latency = unat (total_transaction_block_confirmation_latency c),
     sn_total_transaction_block_squared_confirmation_latency = unat (total_transaction_block_squared_confirmation_latency c),
     sn_proposer_main_chain_length = unat (proposer_main_chain_length c),
     sn_voter_main_chain_length_sum = max 0 (sint (voter_main_chain_length_sum c)),
     sn_avg_insert_block_db_time = avg_insert_time c,
     sn_processed_message_bytes = unat (processed_message_bytes c)\<rparr>"

end
