(* ===== verification/Prism_Blockchain.thy ===== *)
theory Prism_Blockchain
  imports Prism_Merge Prism_Counter "HOL-Library.AList"
begin

text \<open>
  The block graph (\<open>blockchain/mod.rs\<close>): the state, its initialisation, insertion of blocks and the
  queries that other components use. Every column family of the database is a map, with the names
  of the source; a write batch is a simultaneous update from values read before. The in-memory
  hash maps are association lists with distinct keys. Chain numbers, levels and
  timestamps are naturals. Input/output errors of the database are not modelled, reads of a missing
  key that the source unwraps are panics. The last component is the global performance counter.
\<close>

section \<open>State\<close>

record blockchain =
  proposer_node_level_cf :: "h256 \<rightharpoonup> nat"
  voter_node_level_cf :: "h256 \<rightharpoonup> nat"
  voter_node_chain_cf :: "h256 \<rightharpoonup> nat"
  voter_tree_level_count_cf :: "nat \<times> nat \<rightharpoonup> nat"
  proposer_tree_level_cf :: "nat \<rightharpoonup> h256 list"
  voter_node_voted_level_cf :: "h256 \<rightharpoonup> nat"
  proposer_node_vote_cf :: "h256 \<rightharpoonup> (nat \<times> nat) list"
  proposer_leader_sequence_cf :: "nat \<rightharpoonup> h256"
  proposer_ledger_order_cf :: "nat \<rightharpoonup> h256 list"
  proposer_vote_count_cf :: "h256 \<rightharpoonup> nat"
  parent_neighbor_cf :: "h256 \<rightharpoonup> h256"
  vote_neighbor_cf :: "h256 \<rightharpoonup> h256 list"
  voter_parent_neighbor_cf :: "h256 \<rightharpoonup> h256"
  transaction_ref_neighbor_cf :: "h256 \<rightharpoonup> h256 list"
  proposer_ref_neighbor_cf :: "h256 \<rightharpoonup> h256 list"
  proposer_best_level :: nat
  voter_best :: "(h256 \<times> nat) list"
  unreferred_transactions :: "(h256 \<times> nat) list"
  unreferred_proposers :: "(h256 \<times> nat) list"
  unconfirmed_proposers :: "h256 set"
  proposer_ledger_tip :: nat
  voter_ledger_tips :: "h256 list"
  config :: blockchain_config
  perf :: counter

text \<open>Merging one operand into a column family.\<close>

definition merge_append :: "'k \<Rightarrow> h256 list \<Rightarrow> ('k \<rightharpoonup> h256 list) \<Rightarrow> ('k \<rightharpoonup> h256 list)" where
  "merge_append k op cf = cf(k \<mapsto> h256_vec_append_merge (cf k) [op])"

definition merge_plus :: "'k \<Rightarrow> nat \<Rightarrow> ('k \<rightharpoonup> nat) \<Rightarrow> ('k \<rightharpoonup> nat)" where
  "merge_plus k op cf = cf(k \<mapsto> u64_plus_merge (cf k) [op])"

definition merge_vote ::
  "h256 \<Rightarrow> (bool \<times> nat \<times> nat) list \<Rightarrow> (h256 \<rightharpoonup> (nat \<times> nat) list) \<Rightarrow> (h256 \<rightharpoonup> (nat \<times> nat) list) res" where
  "merge_vote k op cf = rbind (vote_vec_full_merge (cf k) [op]) (\<lambda>v. Ok (cf(k \<mapsto> v)))"

definition num_chains :: "blockchain \<Rightarrow> nat" where
  "num_chains bc = unat (voter_chains (config bc))"

section \<open>Initialisation\<close>

definition blockchain_open :: "blockchain_config \<Rightarrow> counter \<Rightarrow> blockchain" where
  "blockchain_open c ctr = \<lparr>
     proposer_node_level_cf = Map.empty, voter_node_level_cf = Map.empty,
     voter_node_chain_cf = Map.empty, voter_tree_level_count_cf = Map.empty,
     proposer_tree_level_cf = Map.empty, voter_node_voted_level_cf = Map.empty,
     proposer_node_vote_cf = Map.empty, proposer_leader_sequence_cf = Map.empty,
     proposer_ledger_order_cf = Map.empty, proposer_vote_count_cf = Map.empty,
     parent_neighbor_cf = Map.empty, vote_neighbor_cf = Map.empty,
     voter_parent_neighbor_cf = Map.empty, transaction_ref_neighbor_cf = Map.empty,
     proposer_ref_neighbor_cf = Map.empty,
     proposer_best_level = 0, voter_best = replicate (unat (voter_chains c)) (0, 0),
     unreferred_transactions = [], unreferred_proposers = [], unconfirmed_proposers = {},
     proposer_ledger_tip = 0, voter_ledger_tips = replicate (unat (voter_chains c)) 0,
     config = c, perf = ctr\<rparr>"

definition init_proposer :: "blockchain \<Rightarrow> blockchain" where
  "init_proposer bc =
     (let g = proposer_genesis (config bc) in
      bc\<lparr>proposer_node_level_cf := (proposer_node_level_cf bc)(g \<mapsto> 0),
         proposer_tree_level_cf := merge_append 0 [g] (proposer_tree_level_cf bc),
         unreferred_proposers := AList.update g 0 (unreferred_proposers bc),
         proposer_leader_sequence_cf := (proposer_leader_sequence_cf bc)(0 \<mapsto> g),
         proposer_ledger_order_cf := (proposer_ledger_order_cf bc)(0 \<mapsto> [g]),
         proposer_ref_neighbor_cf := (proposer_ref_neighbor_cf bc)(g \<mapsto> []),
         transaction_ref_neighbor_cf := (transaction_ref_neighbor_cf bc)(g \<mapsto> [])\<rparr>)"

definition init_voter :: "nat \<Rightarrow> blockchain \<Rightarrow> blockchain res" where
  "init_voter chain_num bc =
     (let g = proposer_genesis (config bc) in
      rbind (rnth (voter_genesis (config bc)) chain_num) (\<lambda>v.
      rbind (merge_vote g [(True, chain_num, 0)] (proposer_node_vote_cf bc)) (\<lambda>node_vote.
      rbind (rnth (voter_best bc) chain_num) (\<lambda>best.
      rbind (rset (voter_best bc) chain_num (v, snd best)) (\<lambda>vb.
      rbind (rset (voter_ledger_tips bc) chain_num v) (\<lambda>tips.
      Ok (bc\<lparr>parent_neighbor_cf := (parent_neighbor_cf bc)(v \<mapsto> g),
             vote_neighbor_cf := merge_append v [g] (vote_neighbor_cf bc),
             proposer_vote_count_cf := merge_plus g 1 (proposer_vote_count_cf bc),
             proposer_node_vote_cf := node_vote,
             voter_node_level_cf := (voter_node_level_cf bc)(v \<mapsto> 0),
             voter_node_voted_level_cf := (voter_node_voted_level_cf bc)(v \<mapsto> 0),
             voter_node_chain_cf := (voter_node_chain_cf bc)(v \<mapsto> chain_num),
             voter_tree_level_count_cf := merge_plus (chain_num, 0) 1 (voter_tree_level_count_cf bc),
             voter_best := vb,
             voter_ledger_tips := tips\<rparr>)))))))"

definition blockchain_new :: "blockchain_config \<Rightarrow> counter \<Rightarrow> blockchain res" where
  "blockchain_new c ctr =
     rfold init_voter [0..<unat (voter_chains c)] (init_proposer (blockchain_open c ctr))"

section \<open>Insertion\<close>

definition insert_proposer :: "h256 \<Rightarrow> header \<Rightarrow> proposer_content \<Rightarrow> blockchain \<Rightarrow> blockchain res" where
  "insert_proposer bh hdr c bc =
     (let parent_hash = parent hdr;
          refed_proposer = parent_hash # proposer_refs c in
      rbind (unwrap (proposer_node_level_cf bc parent_hash)) (\<lambda>parent_level.
        let self_level = parent_level + 1;
            bc1 = bc\<lparr>parent_neighbor_cf := (parent_neighbor_cf bc)(bh \<mapsto> parent_hash),
                     proposer_ref_neighbor_cf := (proposer_ref_neighbor_cf bc)(bh \<mapsto> refed_proposer),
                     transaction_ref_neighbor_cf :=
                       (transaction_ref_neighbor_cf bc)(bh \<mapsto> transaction_refs c),
                     proposer_node_level_cf := (proposer_node_level_cf bc)(bh \<mapsto> self_level),
                     proposer_tree_level_cf := merge_append self_level [bh] (proposer_tree_level_cf bc),
                     unreferred_proposers :=
                       AList.update bh (timestamp hdr) (unreferred_proposers bc),
                     unconfirmed_proposers := insert bh (unconfirmed_proposers bc)\<rparr>;
            bc2 = (if proposer_best_level bc1 < self_level
                   then bc1\<lparr>proposer_best_level := self_level,
                            perf := record_update_proposer_main_chain self_level (perf bc1)\<rparr>
                   else bc1)
        in Ok (bc2\<lparr>unreferred_proposers :=
                     AList.delete parent_hash
                       (fold AList.delete (proposer_refs c) (unreferred_proposers bc2)),
                   unreferred_transactions :=
                     fold AList.delete (transaction_refs c) (unreferred_transactions bc2)\<rparr>)))"

definition insert_voter :: "h256 \<Rightarrow> header \<Rightarrow> voter_content \<Rightarrow> blockchain \<Rightarrow> blockchain res" where
  "insert_voter bh hdr c bc =
     rbind (unwrap (voter_node_level_cf bc (voter_parent c))) (\<lambda>voter_parent_level.
     rbind (unwrap (voter_node_chain_cf bc (voter_parent c))) (\<lambda>voter_parent_chain.
     rbind (unwrap (proposer_node_level_cf bc (parent hdr))) (\<lambda>proposer_parent_level.
       let self_level = voter_parent_level + 1;
           self_chain = voter_parent_chain;
           bc1 = bc\<lparr>parent_neighbor_cf := (parent_neighbor_cf bc)(bh \<mapsto> parent hdr),
                    voter_parent_neighbor_cf := (voter_parent_neighbor_cf bc)(bh \<mapsto> voter_parent c),
                    voter_node_level_cf := (voter_node_level_cf bc)(bh \<mapsto> self_level),
                    voter_node_chain_cf := (voter_node_chain_cf bc)(bh \<mapsto> self_chain),
                    voter_tree_level_count_cf :=
                      merge_plus (self_chain, self_level) 1 (voter_tree_level_count_cf bc),
                    proposer_vote_count_cf :=
                      fold (\<lambda>h. merge_plus h 1) (votes c) (proposer_vote_count_cf bc),
                    vote_neighbor_cf := (vote_neighbor_cf bc)(bh \<mapsto> votes c),
                    voter_node_voted_level_cf :=
                      (voter_node_voted_level_cf bc)(bh \<mapsto> proposer_parent_level)\<rparr>
       in rbind (rnth (voter_best bc1) self_chain) (\<lambda>best.
            if snd best < self_level
            then rbind (rset (voter_best bc1) self_chain (bh, self_level)) (\<lambda>vb.
                 Ok (bc1\<lparr>voter_best := vb,
                          perf := record_update_voter_main_chain (snd best) self_level (perf bc1)\<rparr>))
            else Ok bc1))))"

definition insert_transaction :: "h256 \<Rightarrow> header \<Rightarrow> blockchain \<Rightarrow> blockchain" where
  "insert_transaction bh hdr bc =
     bc\<lparr>unreferred_transactions := AList.update bh (timestamp hdr) (unreferred_transactions bc),
        parent_neighbor_cf := (parent_neighbor_cf bc)(bh \<mapsto> parent hdr)\<rparr>"

definition insert_block ::
  "(bytes \<Rightarrow> h256) \<Rightarrow> (header \<Rightarrow> bytes) \<Rightarrow> block \<Rightarrow> blockchain \<Rightarrow> blockchain res" where
  "insert_block keccak ser b bc =
     (let bh = block_hash keccak ser b in
      case content b of
        Proposer c \<Rightarrow> insert_proposer bh (header b) c bc
      | Voter c \<Rightarrow> insert_voter bh (header b) c bc
      | Transaction c \<Rightarrow> Ok (insert_transaction bh (header b) bc))"

section \<open>Queries\<close>

definition best_proposer :: "blockchain \<Rightarrow> h256 res" where
  "best_proposer bc =
     rbind (unwrap (proposer_tree_level_cf bc (proposer_best_level bc))) (\<lambda>blocks. rnth blocks 0)"

definition best_voter :: "nat \<Rightarrow> blockchain \<Rightarrow> h256 res" where
  "best_voter chain_num bc = rbind (rnth (voter_best bc) chain_num) (\<lambda>best. Ok (fst best))"

text \<open>The order in which a hash map is iterated and in which an unstable sort leaves equal keys is
  free: \<open>iter\<close> is any function that permutes the entries.\<close>

definition unreferred_proposers_list ::
  "((h256 \<times> nat) list \<Rightarrow> (h256 \<times> nat) list) \<Rightarrow> blockchain \<Rightarrow> h256 list" where
  "unreferred_proposers_list iter bc = map fst (sort_key snd (iter (unreferred_proposers bc)))"

definition unreferred_transactions_list ::
  "((h256 \<times> nat) list \<Rightarrow> (h256 \<times> nat) list) \<Rightarrow> blockchain \<Rightarrow> h256 list" where
  "unreferred_transactions_list iter bc = map fst (sort_key snd (iter (unreferred_transactions bc)))"

text \<open>The block with the most votes on one proposer level, the first one in hash order among
  equals.\<close>

definition better_vote :: "blockchain \<Rightarrow> h256 \<Rightarrow> (h256 \<times> nat) option \<Rightarrow> (h256 \<times> nat) option" where
  "better_vote bc h best_vote =
     (let vote_count = (case proposer_vote_count_cf bc h of Some d \<Rightarrow> d | None \<Rightarrow> 0) in
      case best_vote of
        Some (_, num_votes) \<Rightarrow> if num_votes < vote_count then Some (h, vote_count) else best_vote
      | None \<Rightarrow> Some (h, vote_count))"

definition level_vote :: "blockchain \<Rightarrow> nat \<Rightarrow> h256 res" where
  "level_vote bc level =
     rbind (unwrap (proposer_tree_level_cf bc level)) (\<lambda>blocks.
     rbind (unwrap (fold (better_vote bc) (sort blocks) None)) (\<lambda>best. Ok (fst best)))"

definition unvoted_proposer :: "h256 \<Rightarrow> h256 \<Rightarrow> blockchain \<Rightarrow> h256 list res" where
  "unvoted_proposer tip proposer_parent bc =
     rbind (unwrap (voter_node_voted_level_cf bc tip)) (\<lambda>first_vote_level.
     rbind (unwrap (proposer_node_level_cf bc proposer_parent)) (\<lambda>last_vote_level.
     rmap (level_vote bc) [first_vote_level + 1..<last_vote_level + 1]))"

definition proposer_level :: "h256 \<Rightarrow> blockchain \<Rightarrow> nat res" where
  "proposer_level h bc = unwrap (proposer_node_level_cf bc h)"

definition deepest_voted_level :: "h256 \<Rightarrow> blockchain \<Rightarrow> nat res" where
  "deepest_voted_level v bc = unwrap (voter_node_voted_level_cf bc v)"

definition voter_chain_number :: "h256 \<Rightarrow> blockchain \<Rightarrow> nat res" where
  "voter_chain_number v bc = unwrap (voter_node_chain_cf bc v)"

definition contains_proposer :: "h256 \<Rightarrow> blockchain \<Rightarrow> bool" where
  "contains_proposer h bc = (proposer_node_level_cf bc h \<noteq> None)"

definition contains_voter :: "h256 \<Rightarrow> blockchain \<Rightarrow> bool" where
  "contains_voter h bc = (voter_node_level_cf bc h \<noteq> None)"

definition contains_transaction :: "h256 \<Rightarrow> blockchain \<Rightarrow> bool" where
  "contains_transaction h bc = (parent_neighbor_cf bc h \<noteq> None)"

definition proposer_leaders :: "blockchain \<Rightarrow> h256 list res" where
  "proposer_leaders bc =
     rmap (\<lambda>level. case proposer_leader_sequence_cf bc level of
             Some h \<Rightarrow> Ok h | None \<Rightarrow> Panic UnreachableCode) [0..<proposer_ledger_tip bc + 1]"

definition lagging_level :: "blockchain \<Rightarrow> nat" where
  "lagging_level bc =
     (if proposer_best_level bc < proposer_ledger_tip bc then 0
      else proposer_best_level bc - proposer_ledger_tip bc)"

end
