(* ===== verification/Prism_Ledger.thy ===== *)
theory Prism_Ledger
  imports Prism_Blockchain
begin

text \<open>
  The ledger of the block graph (\<open>blockchain/mod.rs\<close>): the difference of the votes of two voter tips,
  the leader of a proposer level under the confirmation policy, and the update of the leader sequence
  and of the ledger. Writes of a batch are applied at once where nothing reads them before the batch
  is committed. The Poisson distribution of the statistics library and \<open>f32::powi\<close> are parameters.
\<close>

section \<open>Differences of votes\<close>

type_synonym cast_votes = "(h256 \<times> nat) list"

text \<open>Trace back the longer chain until both tips are on the same level.\<close>

function equal_levels ::
  "blockchain \<Rightarrow> h256 \<Rightarrow> nat \<Rightarrow> h256 \<Rightarrow> nat \<Rightarrow> cast_votes \<Rightarrow> cast_votes \<Rightarrow>
   (h256 \<times> nat \<times> h256 \<times> nat \<times> cast_votes \<times> cast_votes) res" where
  "equal_levels bc to to_level from from_level added_votes removed_votes =
     (if to_level = from_level then Ok (to, to_level, from, from_level, added_votes, removed_votes)
      else if from_level < to_level then
        rbind (unwrap (vote_neighbor_cf bc to)) (\<lambda>votes.
        rbind (unwrap (voter_parent_neighbor_cf bc to)) (\<lambda>p.
          equal_levels bc p (to_level - 1) from from_level
            (added_votes @ map (\<lambda>vote. (vote, to_level)) votes) removed_votes))
      else
        rbind (unwrap (vote_neighbor_cf bc from)) (\<lambda>votes.
        rbind (unwrap (voter_parent_neighbor_cf bc from)) (\<lambda>p.
          equal_levels bc to to_level p (from_level - 1)
            added_votes (removed_votes @ map (\<lambda>vote. (vote, from_level)) votes))))"
  by pat_completeness auto

termination
  by (relation "measure (\<lambda>(bc, to, tl, from, fl, a, r). (tl - fl) + (fl - tl))") auto

declare equal_levels.simps [simp del]

text \<open>Trace back both chains until they meet.\<close>

function meet_chains ::
  "blockchain \<Rightarrow> h256 \<Rightarrow> nat \<Rightarrow> h256 \<Rightarrow> nat \<Rightarrow> cast_votes \<Rightarrow> cast_votes \<Rightarrow> (cast_votes \<times> cast_votes) res" where
  "meet_chains bc to to_level from from_level added_votes removed_votes =
     (if to = from then Ok (added_votes, removed_votes)
      else
        rbind (unwrap (vote_neighbor_cf bc to)) (\<lambda>to_votes.
        rbind (unwrap (voter_parent_neighbor_cf bc to)) (\<lambda>to_parent.
        rbind (unwrap (vote_neighbor_cf bc from)) (\<lambda>from_votes.
        rbind (unwrap (voter_parent_neighbor_cf bc from)) (\<lambda>from_parent.
          if to_level = 0 \<or> from_level = 0 then Panic ArithOverflow
          else meet_chains bc to_parent (to_level - 1) from_parent (from_level - 1)
                 (added_votes @ map (\<lambda>vote. (vote, to_level)) to_votes)
                 (removed_votes @ map (\<lambda>vote. (vote, from_level)) from_votes))))))"
  by pat_completeness auto

termination
  by (relation "measure (\<lambda>(bc, to, tl, from, fl, a, r). tl)") auto

declare meet_chains.simps [simp del]

definition vote_diff :: "h256 \<Rightarrow> h256 \<Rightarrow> blockchain \<Rightarrow> (cast_votes \<times> cast_votes) res" where
  "vote_diff from to bc =
     rbind (unwrap (voter_node_level_cf bc to)) (\<lambda>to_level.
     rbind (unwrap (voter_node_level_cf bc from)) (\<lambda>from_level.
     rbind (equal_levels bc to to_level from from_level [] []) (\<lambda>(to, to_level, from, from_level, added, removed).
       meet_chains bc to to_level from from_level added removed)))"

section \<open>The leader of a level\<close>

definition num_voter_blocks :: "nat \<Rightarrow> nat \<Rightarrow> nat \<Rightarrow> blockchain \<Rightarrow> nat res" where
  "num_voter_blocks chain start_level end_level bc =
     rfold (\<lambda>l total. rbind (unwrap (voter_tree_level_count_cf bc (chain, l))) (\<lambda>t. Ok (total + t)))
       [start_level..<end_level + 1] 0"

text \<open>The operations of the statistics library and of \<open>f32\<close> that are not modelled: whether the
  rate makes a distribution, its cumulative and its mass function, integer powers.\<close>

record statistics =
  poisson_new :: "flt \<Rightarrow> bool"
  poisson_cdf :: "flt \<Rightarrow> flt \<Rightarrow> flt"
  poisson_pmf :: "flt \<Rightarrow> nat \<Rightarrow> flt"
  f32_powi :: "flt \<Rightarrow> int \<Rightarrow> flt"

text \<open>The depths of the votes on every block of the level, the number of votes and the number of
  voter blocks mined since they were cast.\<close>

definition vote_depths ::
  "blockchain \<Rightarrow> nat \<times> nat \<Rightarrow> nat list \<times> u16 \<times> nat \<Rightarrow> (nat list \<times> u16 \<times> nat) res" where
  "vote_depths bc vote acc =
     (case vote of (chain_num, vote_level) \<Rightarrow> case acc of (vote_depth, total_vote_count, total_vote_blocks) \<Rightarrow>
      rbind (rnth (voter_best bc) chain_num) (\<lambda>voter_best.
      rbind (num_voter_blocks chain_num vote_level (snd voter_best) bc) (\<lambda>blocks.
      rbind (rsub (snd voter_best) vote_level) (\<lambda>d.
        Ok (vote_depth @ [d + 1], total_vote_count + 1, total_vote_blocks + blocks)))))"

definition collect_votes ::
  "blockchain \<Rightarrow> h256 \<Rightarrow> (h256 \<rightharpoonup> nat list) \<times> u16 \<times> nat \<Rightarrow> ((h256 \<rightharpoonup> nat list) \<times> u16 \<times> nat) res" where
  "collect_votes bc block acc =
     (case acc of (votes_depth, total_vote_count, total_vote_blocks) \<Rightarrow>
      let votes = (case proposer_node_vote_cf bc block of None \<Rightarrow> [] | Some d \<Rightarrow> d) in
      rbind (rfold (vote_depths bc) votes ([], total_vote_count, total_vote_blocks))
        (\<lambda>(vote_depth, count, blocks). Ok (votes_depth(block \<mapsto> vote_depth), count, blocks)))"

text \<open>The probability that the adversary removes a vote of the given depth.\<close>

definition removal_probability :: "statistics \<Rightarrow> flt \<Rightarrow> flt \<Rightarrow> nat \<Rightarrow> flt" where
  "removal_probability st ratio rate depth =
     fold (\<lambda>k p.
         let p1 = fconv f32 (poisson_pmf st rate k);
             p2 = f32_powi st (fdiv f32 ratio (fsub f32 f_one ratio))
                    (sint (word_of_nat (depth - k + 1) :: 32 word))
         in fadd f32 p (fmul f32 p1 p2))
       [0..<depth]
       (fsub f32 f_one (fconv f32 (poisson_cdf st rate (fconv f64 (fadd f32 (f_of_nat f32 depth) f_one)))))"

definition block_lcb :: "statistics \<Rightarrow> flt \<Rightarrow> flt \<Rightarrow> flt \<Rightarrow> nat list \<Rightarrow> flt" where
  "block_lcb st ratio rate q depths =
     (let (mean, variance) =
            fold (\<lambda>depth (mean, variance).
                let p = removal_probability st ratio rate depth in
                (fadd f32 mean (fsub f32 f_one p),
                 fadd f32 variance (fmul f32 p (fsub f32 f_one p))))
              depths (f_zero, f_zero);
          tmp = fsub f32 mean (fmul f32 (fsqrt f32 variance) q)
      in if flt_lt f_zero tmp then fadd f32 f_zero tmp else f_zero)"

record lcb_state =
  votes_lcb :: "h256 \<rightharpoonup> flt"
  total_votes_lcb :: flt
  max_vote_lcb :: flt
  new_leader :: "h256 option"

definition lcb_step ::
  "statistics \<Rightarrow> flt \<Rightarrow> flt \<Rightarrow> flt \<Rightarrow> (h256 \<rightharpoonup> nat list) \<Rightarrow> h256 \<Rightarrow> lcb_state \<Rightarrow> lcb_state res" where
  "lcb_step st ratio rate q votes_depth block s =
     rbind (unwrap (votes_depth block)) (\<lambda>votes.
       let lcb = block_lcb st ratio rate q votes;
           s1 = s\<lparr>votes_lcb := (votes_lcb s)(block \<mapsto> lcb),
                  total_votes_lcb := fadd f32 (total_votes_lcb s) lcb\<rparr>;
           s2 = (if flt_lt (max_vote_lcb s1) lcb
                 then s1\<lparr>max_vote_lcb := lcb, new_leader := Some block\<rparr> else s1)
       in Ok (if flt_lt (fabs (fsub f32 (max_vote_lcb s2) lcb)) f32_epsilon
              then case new_leader s2 of
                     Some l \<Rightarrow> if block < l then s2\<lparr>new_leader := Some block\<rparr> else s2
                   | None \<Rightarrow> s2
              else s2))"

text \<open>The loop that gives up the leader when another block of the level could overtake it.\<close>

fun check_overtake :: "flt \<Rightarrow> flt \<Rightarrow> (h256 \<rightharpoonup> flt) \<Rightarrow> h256 \<Rightarrow> h256 list \<Rightarrow> h256 option res" where
  "check_overtake max_lcb remaining lcbs leader [] = Ok (Some leader)"
| "check_overtake max_lcb remaining lcbs leader (p_block # blocks) =
     rbind (unwrap (lcbs p_block)) (\<lambda>lcb.
       if flt_lt max_lcb (fadd f32 lcb remaining) \<and> p_block \<noteq> leader then Ok None
       else if flt_lt (fabs (fsub f32 max_lcb (fadd f32 lcb remaining))) f32_epsilon \<and> p_block < leader
       then Ok None
       else check_overtake max_lcb remaining lcbs leader blocks)"

definition proposer_leader :: "statistics \<Rightarrow> nat \<Rightarrow> flt \<Rightarrow> blockchain \<Rightarrow> h256 option res" where
  "proposer_leader st level q bc =
     (let cfg = config bc in
      rbind (unwrap (proposer_tree_level_cf bc level)) (\<lambda>proposer_blocks.
      rbind (rfold (collect_votes bc) proposer_blocks (Map.empty, 0, 0))
        (\<lambda>(votes_depth, total_vote_count, total_vote_blocks).
      if voter_chains cfg < total_vote_count then Panic ExplicitPanic
      else if \<not> voter_chains cfg * 3 div 5 < total_vote_count then Ok None
      else
        let avg_vote_blocks = fdiv f32 (f_of_nat f32 total_vote_blocks) (f_of_nat f32 (unat total_vote_count));
            adversary_expected_vote_depth =
              fmul f32 (fdiv f32 avg_vote_blocks (fsub f32 f_one (adversary_ratio cfg))) (adversary_ratio cfg);
            rate = fconv f64 adversary_expected_vote_depth
        in if \<not> poisson_new st rate then Panic UnwrapErr
           else
             rbind (rfold (lcb_step st (adversary_ratio cfg) rate q votes_depth) proposer_blocks
                 \<lparr>votes_lcb = Map.empty, total_votes_lcb = f_zero, max_vote_lcb = f_zero, new_leader = None\<rparr>)
               (\<lambda>s.
                 let remaining_votes =
                       fsub f32 (f_of_nat f32 (unat (voter_chains cfg))) (total_votes_lcb s)
                 in if flt_le (max_vote_lcb s) remaining_votes then Ok None
                    else case new_leader s of
                           None \<Rightarrow> Ok None
                         | Some l \<Rightarrow>
                             check_overtake (max_vote_lcb s) remaining_votes (votes_lcb s) l proposer_blocks))))"

section \<open>Updating the ledger\<close>

text \<open>The votes of one voter chain: merge the difference into the votes of the proposer blocks and
  widen the range \<open>start..end\<close> of the affected levels.\<close>

type_synonym range = "nat \<times> nat"

definition affect :: "nat \<Rightarrow> range \<Rightarrow> range" where
  "affect level r =
     ((if level < fst r then level else fst r),
      (if snd r \<le> level then level + 1 else snd r))"

definition apply_vote_change :: "bool \<Rightarrow> nat \<Rightarrow> h256 \<times> nat \<Rightarrow> blockchain \<times> range \<Rightarrow> (blockchain \<times> range) res" where
  "apply_vote_change add chain_num vote s =
     (case s of (bc, r) \<Rightarrow>
      rbind (merge_vote (fst vote) [(add, chain_num, snd vote)] (proposer_node_vote_cf bc)) (\<lambda>cf.
      rbind (unwrap (proposer_node_level_cf bc (fst vote))) (\<lambda>l.
        Ok (bc\<lparr>proposer_node_vote_cf := cf\<rparr>, affect l r))))"

definition update_chain_votes :: "nat \<Rightarrow> blockchain \<times> range \<Rightarrow> (blockchain \<times> range) res" where
  "update_chain_votes chain_num s =
     (case s of (bc, r) \<Rightarrow>
      rbind (rnth (voter_ledger_tips bc) chain_num) (\<lambda>from.
      rbind (rnth (voter_best bc) chain_num) (\<lambda>best.
      rbind (rset (voter_ledger_tips bc) chain_num (fst best)) (\<lambda>tips.
      rbind (vote_diff from (fst best) bc) (\<lambda>(added, removed).
      rbind (rfold (apply_vote_change False chain_num) removed (bc\<lparr>voter_ledger_tips := tips\<rparr>, r)) (\<lambda>s.
        rfold (apply_vote_change True chain_num) added s))))))"

text \<open>The leader of one level, and the first level whose leader changed.\<close>

definition update_leader ::
  "statistics \<Rightarrow> nat \<Rightarrow> blockchain \<times> nat option \<Rightarrow> (blockchain \<times> nat option) res" where
  "update_leader st level s =
     (case s of (bc, change_begin) \<Rightarrow>
      let existing_leader = proposer_leader_sequence_cf bc level in
      rbind (proposer_leader st level (quantile_epsilon_confirm (config bc)) bc) (\<lambda>new_leader_confirm.
      rbind (proposer_leader st level (quantile_epsilon_deconfirm (config bc)) bc) (\<lambda>new_leader_deconfirm.
        let new_leader = (if existing_leader \<noteq> None then new_leader_deconfirm else new_leader_confirm) in
        if new_leader = existing_leader then Ok (bc, change_begin)
        else Ok (bc\<lparr>proposer_leader_sequence_cf := (proposer_leader_sequence_cf bc)(level := new_leader)\<rparr>,
                 if change_begin = None then Some level else change_begin))))"

text \<open>Take the blocks of one level of the ledger back.\<close>

definition deconfirm_level :: "nat \<Rightarrow> blockchain \<times> h256 list \<Rightarrow> (blockchain \<times> h256 list) res" where
  "deconfirm_level level s =
     (case s of (bc, removed) \<Rightarrow>
      rbind (unwrap (proposer_ledger_order_cf bc level)) (\<lambda>original_ledger.
        Ok (bc\<lparr>proposer_ledger_order_cf := (proposer_ledger_order_cf bc)(level := None),
               unconfirmed_proposers := set original_ledger \<union> unconfirmed_proposers bc\<rparr>,
            removed @ original_ledger)))"

text \<open>The depth-first traversal from a leader. The top of the stack is the head of the list; the
  references are pushed in their order. Not returning is \<open>None\<close>.\<close>

partial_function (option) dfs ::
  "(h256 \<rightharpoonup> h256 list) \<Rightarrow> h256 set \<Rightarrow> h256 list \<Rightarrow> h256 list \<Rightarrow> h256 list res option" where
  "dfs refs unconfirmed stack order =
     (case stack of
        [] \<Rightarrow> Some (Ok order)
      | h # rest \<Rightarrow>
          if h \<notin> unconfirmed then dfs refs unconfirmed rest order
          else (case refs h of
                  None \<Rightarrow> Some (Panic UnwrapNone)
                | Some rs \<Rightarrow> dfs refs unconfirmed (rev rs @ rest) (order @ [h])))"

text \<open>\<open>filter(|h| unconfirmed_proposers.remove(h))\<close>: keeps the first copy of each unconfirmed block.\<close>

fun take_unconfirmed :: "h256 list \<Rightarrow> h256 set \<Rightarrow> h256 list \<times> h256 set" where
  "take_unconfirmed [] u = ([], u)"
| "take_unconfirmed (h # hs) u =
     (if h \<in> u then let (order, u') = take_unconfirmed hs (u - {h}) in (h # order, u')
      else take_unconfirmed hs u)"

definition level_order :: "h256 \<Rightarrow> blockchain \<Rightarrow> (h256 list \<times> h256 set) res" where
  "level_order leader bc =
     rbind (case dfs (proposer_ref_neighbor_cf bc) (unconfirmed_proposers bc) [leader] [] of
              None \<Rightarrow> Panic OutOfFuel | Some r \<Rightarrow> r)
       (\<lambda>order. Ok (take_unconfirmed (rev order) (unconfirmed_proposers bc)))"

text \<open>Rebuild the ledger level by level until a level has no leader. The fuel bounds the number of
  levels; no level above the best proposer level has a leader.\<close>

fun rebuild_ledger :: "nat \<Rightarrow> nat \<Rightarrow> blockchain \<Rightarrow> h256 list \<Rightarrow> (blockchain \<times> h256 list) res" where
  "rebuild_ledger 0 level bc added = Panic OutOfFuel"
| "rebuild_ledger (Suc fuel) level bc added =
     (case proposer_leader_sequence_cf bc level of
        None \<Rightarrow> rbind (rsub level 1) (\<lambda>tip. Ok (bc\<lparr>proposer_ledger_tip := tip\<rparr>, added))
      | Some leader \<Rightarrow>
          rbind (level_order leader bc) (\<lambda>(order, unconfirmed).
            rebuild_ledger fuel (level + 1)
              (bc\<lparr>proposer_ledger_order_cf := (proposer_ledger_order_cf bc)(level \<mapsto> order),
                  unconfirmed_proposers := unconfirmed\<rparr>)
              (added @ order)))"

definition transactions_of :: "blockchain \<Rightarrow> h256 list \<Rightarrow> h256 list res" where
  "transactions_of bc blocks =
     rbind (rmap (\<lambda>block. unwrap (transaction_ref_neighbor_cf bc block)) blocks) (\<lambda>ts. Ok (concat ts))"

definition change_ledger :: "nat \<Rightarrow> blockchain \<Rightarrow> (blockchain \<times> h256 list \<times> h256 list) res" where
  "change_ledger change_begin bc =
     (let tip = proposer_ledger_tip bc in
      rbind (rfold deconfirm_level [change_begin..<tip + 1] (bc, [])) (\<lambda>(bc1, removed).
      rbind (if change_begin \<le> tip + 1
             then rebuild_ledger (proposer_best_level bc + 2) change_begin bc1 []
             else Ok (bc1, [])) (\<lambda>(bc2, added).
      rbind (transactions_of bc2 removed) (\<lambda>removed_transaction_blocks.
      rbind (transactions_of bc2 added) (\<lambda>added_transaction_blocks.
        Ok (bc2, added_transaction_blocks, removed_transaction_blocks))))))"

definition U64_MAX :: nat where "U64_MAX = 2 ^ 64 - 1"

definition update_ledger :: "statistics \<Rightarrow> blockchain \<Rightarrow> (blockchain \<times> h256 list \<times> h256 list) res" where
  "update_ledger st bc =
     rbind (rfold update_chain_votes [0..<num_chains bc] (bc, (U64_MAX, 0))) (\<lambda>(bc1, range_start, range_end).
       let range_start1 =
             (if range_start < range_end \<and> proposer_ledger_tip bc1 + 1 < range_start
              then proposer_ledger_tip bc1 + 1 else range_start)
       in rbind (rfold (update_leader st) [range_start1..<range_end] (bc1, None)) (\<lambda>(bc2, change_begin).
            case change_begin of
              None \<Rightarrow> Ok (bc2, [], [])
            | Some l \<Rightarrow> change_ledger l bc2))"

end
