(* ===== verification/Prism_Chain.thy ===== *)
theory Prism_Chain
  imports Prism_Blockchain
begin

text \<open>
  The two trees that the block graph holds: the proposer tree with its references and the voter
  chains with their votes. The invariants say what the column families mean; the initial state has
  them and every insertion of a block that passed validation keeps them.
\<close>

section \<open>Invariant of the proposer tree\<close>

text \<open>Levels are those of a tree rooted in the genesis block, every level up to the best one lists
  its blocks, parents and references are blocks of smaller level.\<close>

definition proposer_levels_inv :: "blockchain \<Rightarrow> bool" where
  "proposer_levels_inv bc \<longleftrightarrow>
     (\<forall>h. proposer_node_level_cf bc h = Some 0 \<longleftrightarrow> h = proposer_genesis (config bc)) \<and>
     (\<forall>h l. proposer_node_level_cf bc h = Some l \<longrightarrow> l \<le> proposer_best_level bc) \<and>
     (\<forall>l. proposer_best_level bc < l \<longrightarrow> proposer_tree_level_cf bc l = None) \<and>
     (\<forall>l \<le> proposer_best_level bc. \<exists>bs. proposer_tree_level_cf bc l = Some bs \<and> bs \<noteq> [] \<and>
        distinct bs \<and> set bs = {h. proposer_node_level_cf bc h = Some l})"

definition proposer_refs_inv :: "blockchain \<Rightarrow> bool" where
  "proposer_refs_inv bc \<longleftrightarrow>
     dom (proposer_ref_neighbor_cf bc) = dom (proposer_node_level_cf bc) \<and>
     dom (transaction_ref_neighbor_cf bc) = dom (proposer_node_level_cf bc) \<and>
     (\<forall>h l. proposer_node_level_cf bc h = Some (Suc l) \<longrightarrow>
        (\<exists>p rs. parent_neighbor_cf bc h = Some p \<and> proposer_node_level_cf bc p = Some l \<and>
           proposer_ref_neighbor_cf bc h = Some (p # rs))) \<and>
     (\<forall>h rs r. proposer_ref_neighbor_cf bc h = Some rs \<longrightarrow> r \<in> set rs \<longrightarrow>
        (\<exists>lr lh. proposer_node_level_cf bc r = Some lr \<and> proposer_node_level_cf bc h = Some lh \<and> lr < lh))"

text \<open>The unreferred proposer blocks are exactly those that no block refers to.\<close>

definition referred :: "blockchain \<Rightarrow> h256 \<Rightarrow> bool" where
  "referred bc h \<longleftrightarrow> (\<exists>h' rs. proposer_ref_neighbor_cf bc h' = Some rs \<and> h \<in> set rs)"

definition unreferred_inv :: "blockchain \<Rightarrow> bool" where
  "unreferred_inv bc \<longleftrightarrow>
     distinct (map fst (unreferred_proposers bc)) \<and>
     fst ` set (unreferred_proposers bc) =
       {h. proposer_node_level_cf bc h \<noteq> None \<and> \<not> referred bc h}"

definition proposer_inv :: "blockchain \<Rightarrow> bool" where
  "proposer_inv bc \<longleftrightarrow> proposer_levels_inv bc \<and> proposer_refs_inv bc \<and> unreferred_inv bc"

section \<open>Invariant of the voter chains\<close>

text \<open>Every voter chain is a tree rooted in its genesis block; a block votes for exactly one
  proposer block on each of the levels after those its parent voted on, up to its own voted level.\<close>

definition extends :: "blockchain \<Rightarrow> h256 \<Rightarrow> h256 \<Rightarrow> bool" where
  "extends bc v p \<longleftrightarrow>
     voter_node_chain_cf bc p = voter_node_chain_cf bc v \<and>
     (\<exists>s e vs. voter_node_voted_level_cf bc p = Some s \<and> voter_node_voted_level_cf bc v = Some e \<and>
        vote_neighbor_cf bc v = Some vs \<and> s \<le> e \<and>
        map (proposer_node_level_cf bc) vs = map Some [s + 1..<e + 1])"

definition voter_tree_inv :: "blockchain \<Rightarrow> bool" where
  "voter_tree_inv bc \<longleftrightarrow>
     dom (voter_node_chain_cf bc) = dom (voter_node_level_cf bc) \<and>
     dom (voter_node_voted_level_cf bc) = dom (voter_node_level_cf bc) \<and>
     dom (vote_neighbor_cf bc) = dom (voter_node_level_cf bc) \<and>
     (\<forall>v. voter_node_level_cf bc v = Some 0 \<longleftrightarrow> v \<in> set (voter_genesis (config bc))) \<and>
     (\<forall>i < num_chains bc. voter_node_chain_cf bc (voter_genesis (config bc) ! i) = Some i) \<and>
     (\<forall>v \<in> set (voter_genesis (config bc)). voter_node_voted_level_cf bc v = Some 0 \<and>
        vote_neighbor_cf bc v = Some [proposer_genesis (config bc)]) \<and>
     (\<forall>v l. voter_node_level_cf bc v = Some (Suc l) \<longrightarrow>
        (\<exists>p. voter_parent_neighbor_cf bc v = Some p \<and> voter_node_level_cf bc p = Some l \<and> extends bc v p)) \<and>
     (\<forall>v i. voter_node_chain_cf bc v = Some i \<longrightarrow> i < num_chains bc)"

definition voter_best_inv :: "blockchain \<Rightarrow> bool" where
  "voter_best_inv bc \<longleftrightarrow>
     length (voter_genesis (config bc)) = num_chains bc \<and>
     length (voter_best bc) = num_chains bc \<and>
     (\<forall>i < num_chains bc.
        voter_node_level_cf bc (fst (voter_best bc ! i)) = Some (snd (voter_best bc ! i)) \<and>
        voter_node_chain_cf bc (fst (voter_best bc ! i)) = Some i \<and>
        (\<forall>v l. voter_node_chain_cf bc v = Some i \<longrightarrow> voter_node_level_cf bc v = Some l \<longrightarrow>
           l \<le> snd (voter_best bc ! i)) \<and>
        (\<forall>l. voter_tree_level_count_cf bc (i, l) =
           (if l \<le> snd (voter_best bc ! i)
            then Some (card {v. voter_node_chain_cf bc v = Some i \<and> voter_node_level_cf bc v = Some l})
            else None)))"

definition voter_inv :: "blockchain \<Rightarrow> bool" where
  "voter_inv bc \<longleftrightarrow> voter_tree_inv bc \<and> voter_best_inv bc"

text \<open>The counters that mirror the chains.\<close>

definition perf_inv :: "blockchain \<Rightarrow> bool" where
  "perf_inv bc \<longleftrightarrow>
     proposer_main_chain_length (perf bc) = word_of_nat (proposer_best_level bc) \<and>
     voter_main_chain_length_sum (perf bc) = word_of_nat (sum_list (map snd (voter_best bc)))"

section \<open>Blocks that may be inserted\<close>

definition fresh :: "blockchain \<Rightarrow> h256 \<Rightarrow> bool" where
  "fresh bc h \<longleftrightarrow> proposer_node_level_cf bc h = None \<and> voter_node_level_cf bc h = None \<and>
     parent_neighbor_cf bc h = None"

definition valid_proposer :: "blockchain \<Rightarrow> header \<Rightarrow> proposer_content \<Rightarrow> bool" where
  "valid_proposer bc hdr c \<longleftrightarrow>
     (\<exists>l. proposer_node_level_cf bc (parent hdr) = Some l \<and>
        (\<forall>r \<in> set (proposer_refs c). \<exists>lr. proposer_node_level_cf bc r = Some lr \<and> lr \<le> l))"

definition valid_voter :: "blockchain \<Rightarrow> header \<Rightarrow> voter_content \<Rightarrow> bool" where
  "valid_voter bc hdr c \<longleftrightarrow>
     voter_node_level_cf bc (voter_parent c) \<noteq> None \<and>
     (\<exists>s e. voter_node_voted_level_cf bc (voter_parent c) = Some s \<and>
        proposer_node_level_cf bc (parent hdr) = Some e \<and> s \<le> e \<and>
        map (proposer_node_level_cf bc) (votes c) = map Some [s + 1..<e + 1])"

fun valid_content :: "blockchain \<Rightarrow> header \<Rightarrow> content \<Rightarrow> bool" where
  "valid_content bc hdr (Proposer c) = valid_proposer bc hdr c"
| "valid_content bc hdr (Voter c) = valid_voter bc hdr c"
| "valid_content bc hdr (Transaction c) = True"

section \<open>Using the invariants\<close>

text \<open>The conjuncts of the invariants as rules, in the order of the definitions.\<close>

lemmas proposer_levels_invD =
  proposer_levels_inv_def [THEN iffD1, THEN conjunct1, rule_format]
  proposer_levels_inv_def [THEN iffD1, THEN conjunct2, THEN conjunct1, rule_format]
  proposer_levels_inv_def [THEN iffD1, THEN conjunct2, THEN conjunct2, THEN conjunct1, rule_format]
  proposer_levels_inv_def [THEN iffD1, THEN conjunct2, THEN conjunct2, THEN conjunct2, rule_format]

lemmas proposer_refs_invD =
  proposer_refs_inv_def [THEN iffD1, THEN conjunct1, rule_format]
  proposer_refs_inv_def [THEN iffD1, THEN conjunct2, THEN conjunct1, rule_format]
  proposer_refs_inv_def [THEN iffD1, THEN conjunct2, THEN conjunct2, THEN conjunct1, rule_format]
  proposer_refs_inv_def [THEN iffD1, THEN conjunct2, THEN conjunct2, THEN conjunct2, rule_format]

lemmas voter_tree_invD =
  voter_tree_inv_def [THEN iffD1, THEN conjunct1, rule_format]
  voter_tree_inv_def [THEN iffD1, THEN conjunct2, THEN conjunct1, rule_format]
  voter_tree_inv_def [THEN iffD1, THEN conjunct2, THEN conjunct2, THEN conjunct1, rule_format]
  voter_tree_inv_def [THEN iffD1, THEN conjunct2, THEN conjunct2, THEN conjunct2, THEN conjunct1, rule_format]
  voter_tree_inv_def [THEN iffD1, THEN conjunct2, THEN conjunct2, THEN conjunct2, THEN conjunct2, THEN conjunct1, rule_format]
  voter_tree_inv_def [THEN iffD1, THEN conjunct2, THEN conjunct2, THEN conjunct2, THEN conjunct2, THEN conjunct2, THEN conjunct1, rule_format]
  voter_tree_inv_def [THEN iffD1, THEN conjunct2, THEN conjunct2, THEN conjunct2, THEN conjunct2, THEN conjunct2, THEN conjunct2, THEN conjunct1, rule_format]
  voter_tree_inv_def [THEN iffD1, THEN conjunct2, THEN conjunct2, THEN conjunct2, THEN conjunct2, THEN conjunct2, THEN conjunct2, THEN conjunct2, rule_format]

lemmas voter_best_invD =
  voter_best_inv_def [THEN iffD1, THEN conjunct1, rule_format]
  voter_best_inv_def [THEN iffD1, THEN conjunct2, THEN conjunct1, rule_format]
  voter_best_inv_def [THEN iffD1, THEN conjunct2, THEN conjunct2, THEN spec, THEN mp, THEN conjunct1]
  voter_best_inv_def [THEN iffD1, THEN conjunct2, THEN conjunct2, THEN spec, THEN mp, THEN conjunct2, THEN conjunct1]
  voter_best_inv_def [THEN iffD1, THEN conjunct2, THEN conjunct2, THEN spec, THEN mp, THEN conjunct2, THEN conjunct2, THEN conjunct1, rule_format]
  voter_best_inv_def [THEN iffD1, THEN conjunct2, THEN conjunct2, THEN spec, THEN mp, THEN conjunct2, THEN conjunct2, THEN conjunct2, THEN spec]

end
