(* ===== verification/Prism_Order.thy ===== *)
theory Prism_Order
  imports Prism_Ledger Prism_Chain
begin

text \<open>
  The order in which one leader puts the blocks it refers to into the ledger: the depth-first
  traversal with an explicit stack computes the recursive expansion of the leader, it returns on every
  graph whose references go to smaller levels, and the deduplicated reverse of the expansion is a
  topological order of exactly the unconfirmed blocks that the leader reaches.
\<close>

section \<open>The expansion of a block\<close>

text \<open>The blocks that are reached from \<open>h\<close> outside of \<open>confirmed\<close>, in the order of the traversal,
  with repetitions; \<open>n\<close> bounds the level of \<open>h\<close>.\<close>

fun expand :: "(h256 \<rightharpoonup> h256 list) \<Rightarrow> h256 set \<Rightarrow> nat \<Rightarrow> h256 \<Rightarrow> h256 list" where
  "expand refs confirmed 0 h = []"
| "expand refs confirmed (Suc n) h =
     (if h \<in> confirmed then []
      else h # concat (map (expand refs confirmed n) (rev (case refs h of Some rs \<Rightarrow> rs | None \<Rightarrow> []))))"

text \<open>Every element comes before all its references outside of \<open>confirmed\<close>.\<close>

fun refs_after :: "(h256 \<rightharpoonup> h256 list) \<Rightarrow> h256 set \<Rightarrow> h256 list \<Rightarrow> bool" where
  "refs_after refs confirmed [] = True"
| "refs_after refs confirmed (x # xs) =
     ((\<forall>rs r. refs x = Some rs \<longrightarrow> r \<in> set rs \<longrightarrow> r \<notin> confirmed \<longrightarrow> r \<in> set xs) \<and>
      refs_after refs confirmed xs)"

lemma refs_after_append:
  "refs_after refs c xs \<Longrightarrow> refs_after refs c ys \<Longrightarrow> refs_after refs c (xs @ ys)"
  by (induction xs) auto

lemma refs_after_concat: "(\<And>xs. xs \<in> set xss \<Longrightarrow> refs_after refs c xs) \<Longrightarrow> refs_after refs c (concat xss)"
  by (induction xss) (simp_all add: refs_after_append)

lemma refs_after_remdups: "refs_after refs c xs \<Longrightarrow> refs_after refs c (remdups xs)"
  by (induction xs) auto

lemma refs_after_closed:
  "refs_after refs c xs \<Longrightarrow> x \<in> set xs \<Longrightarrow> refs x = Some rs \<Longrightarrow> r \<in> set rs \<Longrightarrow> r \<notin> c \<Longrightarrow> r \<in> set xs"
  by (induction xs) auto

lemma expand_confirmed: "set (expand refs c n h) \<inter> c = {}"
  by (induction n arbitrary: h) auto

lemma expand_cong:
  assumes "\<And>x rs. x \<in> A \<Longrightarrow> refs x = Some rs \<Longrightarrow> set rs \<subseteq> A" and "\<And>x. x \<in> A \<Longrightarrow> refs' x = refs x"
    and "h \<in> A" and "c \<inter> A = c' \<inter> A"
  shows "expand refs' c' n h = expand refs c n h"
  using assms(3)
proof (induction n arbitrary: h)
  case (Suc n)
  have "h \<in> c \<longleftrightarrow> h \<in> c'" using Suc.prems assms(4) by blast
  moreover have "map (expand refs' c' n) (rev rs) = map (expand refs c n) (rev rs)" if "refs h = Some rs" for rs
    by (rule map_cong [OF refl]) (use Suc.IH assms(1) [OF Suc.prems that] in auto)
  ultimately show ?case using assms(2) [OF Suc.prems] by (cases "refs h") (simp_all del: map_eq_conv)
qed simp

section \<open>Deduplication\<close>

lemma remdups_snoc: "remdups (xs @ [x]) = filter (\<lambda>y. y \<noteq> x) (remdups xs) @ [x]"
  by (induction xs) auto

lemma take_unconfirmed_filter:
  "take_unconfirmed xs u = (filter (\<lambda>h. h \<in> u) (rev (remdups (rev xs))), u - set xs)"
proof (induction xs arbitrary: u)
  case (Cons x xs)
  have rd: "rev (remdups (rev (x # xs))) = x # filter (\<lambda>y. y \<noteq> x) (rev (remdups (rev xs)))"
    by (simp add: remdups_snoc rev_filter)
  have "filter (\<lambda>h. h \<in> u - {x}) ys = filter (\<lambda>h. h \<in> u) (filter (\<lambda>y. y \<noteq> x) ys)" for ys
    by (induction ys) auto
  moreover have "filter (\<lambda>h. h \<in> u) (filter (\<lambda>y. y \<noteq> x) ys) = filter (\<lambda>h. h \<in> u) ys" if "x \<notin> u" for ys
    using that by (induction ys) auto
  ultimately show ?case unfolding rd by (auto simp: Cons.IH)
qed simp

section \<open>The traversal on graphs with decreasing levels\<close>

text \<open>The contract between the block graph and the ledger: every block of the graph has its list of
  references, and references go to blocks of smaller level.\<close>

locale block_dag =
  fixes ok :: "'g \<Rightarrow> bool" and refs :: "'g \<Rightarrow> h256 \<Rightarrow> h256 list option"
    and level :: "'g \<Rightarrow> h256 \<Rightarrow> nat option"
  assumes refs_dom: "ok g \<Longrightarrow> level g h = Some l \<Longrightarrow> \<exists>rs. refs g h = Some rs"
    and refs_less: "ok g \<Longrightarrow> refs g h = Some rs \<Longrightarrow> r \<in> set rs \<Longrightarrow>
      \<exists>lr lh. level g r = Some lr \<and> level g h = Some lh \<and> lr < lh"
begin

definition bounded :: "'g \<Rightarrow> nat \<Rightarrow> h256 list \<Rightarrow> bool" where
  "bounded g n hs \<longleftrightarrow> (\<forall>h \<in> set hs. \<exists>l. level g h = Some l \<and> l < n)"

lemma bounded_Cons: "bounded g n (h # hs) \<longleftrightarrow> (\<exists>l. level g h = Some l \<and> l < n) \<and> bounded g n hs"
  by (auto simp: bounded_def)

lemma bounded_refs:
  assumes "ok g" and "level g h = Some l" and "l < Suc n" and "refs g h = Some rs"
  shows "bounded g n (rev rs)"
  using refs_less [OF assms(1,4)] assms(2,3) by (fastforce simp: bounded_def)

lemma dfs_expand:
  assumes "ok g" and "bounded g n hs"
  shows "dfs (refs g) (dom (level g) - c) (hs @ rest) acc =
    dfs (refs g) (dom (level g) - c) rest (acc @ concat (map (expand (refs g) c n) hs))"
  using assms(2)
proof (induction n arbitrary: hs rest acc)
  case 0
  then have "hs = []" by (cases hs) (auto simp: bounded_Cons)
  then show ?case by simp
next
  case (Suc n)
  from Suc.prems show ?case
  proof (induction hs arbitrary: acc)
    case Nil
    then show ?case by simp
  next
    case (Cons h hs)
    obtain l where l: "level g h = Some l" "l < Suc n" using Cons.prems by (auto simp: bounded_Cons)
    obtain rs where rs: "refs g h = Some rs" using refs_dom [OF assms(1) l(1)] by blast
    note IH = Cons.IH [OF Cons.prems [unfolded bounded_Cons, THEN conjunct2]]
    note sub = Suc.IH [OF bounded_refs [OF assms(1) l rs]]
    show ?case
    proof (cases "h \<in> c")
      case True
      then show ?thesis using IH by (simp add: dfs.simps [of _ _ "h # _"])
    next
      case False
      then have "dfs (refs g) (dom (level g) - c) ((h # hs) @ rest) acc =
          dfs (refs g) (dom (level g) - c) (rev rs @ (hs @ rest)) (acc @ [h])"
        using l rs by (simp add: dfs.simps [of _ _ "h # _"] domI)
      also have "\<dots> = dfs (refs g) (dom (level g) - c) (hs @ rest)
          ((acc @ [h]) @ concat (map (expand (refs g) c n) (rev rs)))" by (rule sub)
      finally show ?thesis using False rs IH by simp
    qed
  qed
qed

lemma dfs_total:
  assumes "ok g" and "level g h = Some l"
  shows "dfs (refs g) (dom (level g) - c) [h] [] = Some (Ok (expand (refs g) c (Suc l) h))"
proof -
  have "bounded g (Suc l) [h]" using assms(2) by (simp add: bounded_def)
  from dfs_expand [OF assms(1) this, of c "[]" "[]"] show ?thesis
    by (simp add: dfs.simps [of _ _ "[]"])
qed

lemma expand_levels:
  assumes "ok g" and "level g h = Some l" and "x \<in> set (expand (refs g) c n h)"
  shows "x = h \<or> (\<exists>k < l. level g x = Some k)"
  using assms(2,3)
proof (induction n arbitrary: h l)
  case (Suc n)
  show ?case
  proof (cases "x = h")
    case False
    obtain rs where rs: "refs g h = Some rs" using refs_dom [OF assms(1) Suc.prems(1)] by blast
    obtain r where r: "r \<in> set rs" "x \<in> set (expand (refs g) c n r)"
      using Suc.prems(2) False rs by (auto split: if_splits)
    from refs_less [OF assms(1) rs r(1)] Suc.prems(1) obtain k where k: "level g r = Some k" "k < l" by auto
    from Suc.IH [OF k(1) r(2)] k show ?thesis by (metis less_trans)
  qed simp
qed simp

lemma expand_self: "h \<notin> c \<Longrightarrow> h \<in> set (expand (refs g) c (Suc n) h)"
  by simp

lemma expand_refs_after:
  assumes "ok g" and "level g h = Some l" and "l < n"
  shows "refs_after (refs g) c (expand (refs g) c n h)"
  using assms(2,3)
proof (induction n arbitrary: h l)
  case (Suc n)
  obtain rs where rs: "refs g h = Some rs" using refs_dom [OF assms(1) Suc.prems(1)] by blast
  have sub: "\<exists>k. level g r = Some k \<and> k < n" if "r \<in> set rs" for r
    using refs_less [OF assms(1) rs that] Suc.prems by fastforce
  have "refs_after (refs g) c (concat (map (expand (refs g) c n) (rev rs)))"
    by (rule refs_after_concat) (use sub Suc.IH in fastforce)
  moreover have "r \<in> set (concat (map (expand (refs g) c n) (rev rs)))" if "r \<in> set rs" "r \<notin> c" for r
  proof -
    have "0 < n" using sub [OF that(1)] by auto
    then obtain m where "n = Suc m" by (auto simp: gr0_conv_Suc)
    then have "r \<in> set (expand (refs g) c n r)" using that(2) by simp
    then show ?thesis using that(1) by auto
  qed
  ultimately show ?case using rs by auto
qed simp

lemma expand_unique:
  assumes "ok g" and "level g h = Some l" and "h \<notin> c"
  shows "\<exists>xs. expand (refs g) c (Suc n) h = h # xs \<and> h \<notin> set xs"
proof -
  obtain rs where rs: "refs g h = Some rs" using refs_dom [OF assms(1,2)] by blast
  have "h \<notin> set (expand (refs g) c n r)" if "r \<in> set rs" for r
  proof
    assume h: "h \<in> set (expand (refs g) c n r)"
    from refs_less [OF assms(1) rs that] assms(2) obtain k where k: "level g r = Some k" "k < l" by auto
    from expand_levels [OF assms(1) k(1) h] k assms(2) show False by auto
  qed
  then show ?thesis using assms(3) rs by auto
qed

end

interpretation proposer_dag: block_dag proposer_inv proposer_ref_neighbor_cf proposer_node_level_cf
proof
  fix bc h l
  assume "proposer_inv bc" and "proposer_node_level_cf bc h = Some l"
  then show "\<exists>rs. proposer_ref_neighbor_cf bc h = Some rs"
    using proposer_refs_invD(1) [of bc] by (metis domD domI proposer_inv_def)
next
  fix bc h rs r
  assume "proposer_inv bc" and "proposer_ref_neighbor_cf bc h = Some rs" and "r \<in> set rs"
  then show "\<exists>lr lh. proposer_node_level_cf bc r = Some lr \<and> proposer_node_level_cf bc h = Some lh \<and> lr < lh"
    using proposer_refs_invD(4) [of bc] by (simp add: proposer_inv_def)
qed

section \<open>The ledger that a leader sequence determines\<close>

definition level_blocks :: "(h256 \<rightharpoonup> h256 list) \<Rightarrow> h256 set \<Rightarrow> nat \<Rightarrow> h256 \<Rightarrow> h256 list" where
  "level_blocks refs c l h = rev (remdups (expand refs c (Suc l) h))"

text \<open>The blocks of the levels below \<open>n\<close>.\<close>

primrec ledger_upto :: "(h256 \<rightharpoonup> h256 list) \<Rightarrow> (nat \<rightharpoonup> h256) \<Rightarrow> nat \<Rightarrow> h256 list" where
  "ledger_upto refs leaders 0 = []"
| "ledger_upto refs leaders (Suc n) =
     ledger_upto refs leaders n @
     (case leaders n of None \<Rightarrow> []
      | Some h \<Rightarrow> level_blocks refs (set (ledger_upto refs leaders n)) n h)"

abbreviation ledger_blocks :: "blockchain \<Rightarrow> nat \<Rightarrow> h256 list" where
  "ledger_blocks bc n \<equiv> ledger_upto (proposer_ref_neighbor_cf bc) (proposer_leader_sequence_cf bc) n"

definition leaders_ok :: "blockchain \<Rightarrow> bool" where
  "leaders_ok bc \<longleftrightarrow>
     (\<forall>l h. proposer_leader_sequence_cf bc l = Some h \<longrightarrow> proposer_node_level_cf bc h = Some l)"

lemma leaders_okD:
  "leaders_ok bc \<Longrightarrow> proposer_leader_sequence_cf bc l = Some h \<Longrightarrow> proposer_node_level_cf bc h = Some l"
  by (simp add: leaders_ok_def)

lemma ledger_upto_cong: "(\<And>k. k < n \<Longrightarrow> leaders k = leaders' k) \<Longrightarrow> ledger_upto refs leaders n = ledger_upto refs leaders' n"
  by (induction n) (auto split: option.split)

lemma refs_after_extend:
  "refs_after refs c xs \<Longrightarrow> refs_after refs {} ys \<Longrightarrow> c \<subseteq> set ys \<Longrightarrow> refs_after refs {} (xs @ ys)"
  by (induction xs) auto

lemma set_level_blocks: "set (level_blocks refs c l h) = set (expand refs c (Suc l) h)"
  by (simp only: level_blocks_def set_rev set_remdups)

lemma level_blocks_levels:
  assumes "proposer_inv bc" and "proposer_node_level_cf bc h = Some l"
    and "x \<in> set (level_blocks (proposer_ref_neighbor_cf bc) c l h)"
  shows "x = h \<or> (\<exists>k < l. proposer_node_level_cf bc x = Some k)"
  using proposer_dag.expand_levels [OF assms(1,2) assms(3) [unfolded set_level_blocks]] .

lemma level_order_blocks:
  assumes inv: "proposer_inv bc" and l: "proposer_node_level_cf bc leader = Some l"
    and u: "unconfirmed_proposers bc = dom (proposer_node_level_cf bc) - c"
  defines "bs \<equiv> level_blocks (proposer_ref_neighbor_cf bc) c l leader"
  shows "level_order leader bc = Ok (bs, dom (proposer_node_level_cf bc) - (c \<union> set bs))"
proof -
  let ?e = "expand (proposer_ref_neighbor_cf bc) c (Suc l) leader"
  have dfs: "dfs (proposer_ref_neighbor_cf bc) (unconfirmed_proposers bc) [leader] [] = Some (Ok ?e)"
    unfolding u by (rule proposer_dag.dfs_total [OF inv l])
  have sub: "x \<in> unconfirmed_proposers bc" if "x \<in> set ?e" for x
  proof -
    have "x \<notin> c" using expand_confirmed [of _ c] that by blast
    moreover have "x \<in> dom (proposer_node_level_cf bc)"
      using proposer_dag.expand_levels [OF inv l that] l by (auto simp: domI)
    ultimately show ?thesis by (simp add: u)
  qed
  have "filter (\<lambda>h. h \<in> unconfirmed_proposers bc) (rev (remdups ?e)) = rev (remdups ?e)"
    by (rule filter_True) (use sub in auto)
  then show ?thesis
    unfolding level_order_def dfs bs_def take_unconfirmed_filter
    by (simp add: level_blocks_def u Un_commute Diff_eq Int_assoc del: expand.simps)
qed

lemma ledger_upto_levels:
  assumes "proposer_inv bc" and "leaders_ok bc" and "x \<in> set (ledger_blocks bc n)"
  shows "\<exists>l < n. proposer_node_level_cf bc x = Some l"
  using assms(3)
proof (induction n)
  case (Suc n)
  show ?case
  proof (cases "x \<in> set (ledger_blocks bc n)")
    case True
    then show ?thesis using Suc.IH by (meson less_SucI)
  next
    case False
    then obtain h where h: "proposer_leader_sequence_cf bc n = Some h"
      "x \<in> set (level_blocks (proposer_ref_neighbor_cf bc) (set (ledger_blocks bc n)) n h)"
      using Suc.prems by (cases "proposer_leader_sequence_cf bc n") auto
    note lev = leaders_okD [OF assms(2) h(1)]
    from level_blocks_levels [OF assms(1) lev h(2)] show ?thesis using lev by (metis less_Suc_eq)
  qed
qed simp

lemma distinct_ledger_upto: "distinct (ledger_upto refs leaders n)"
proof (induction n)
  case (Suc n)
  have "set (level_blocks refs (set (ledger_upto refs leaders n)) n h) \<inter> set (ledger_upto refs leaders n) = {}" for h
    unfolding set_level_blocks by (rule expand_confirmed)
  moreover have "distinct (level_blocks refs c n h)" for c h by (simp add: level_blocks_def del: expand.simps)
  ultimately show ?case using Suc by (cases "leaders n") (simp_all add: Int_commute)
qed simp

lemma ledger_upto_sorted:
  assumes "proposer_inv bc" and "leaders_ok bc"
  shows "refs_after (proposer_ref_neighbor_cf bc) {} (rev (ledger_blocks bc n))"
proof (induction n)
  case (Suc n)
  show ?case
  proof (cases "proposer_leader_sequence_cf bc n")
    case None
    then show ?thesis using Suc by simp
  next
    case (Some h)
    let ?c = "set (ledger_blocks bc n)"
    have "refs_after (proposer_ref_neighbor_cf bc) ?c (remdups (expand (proposer_ref_neighbor_cf bc) ?c (Suc n) h))"
      using proposer_dag.expand_refs_after [OF assms(1) leaders_okD [OF assms(2) Some] lessI]
      by (rule refs_after_remdups)
    from refs_after_extend [OF this Suc] show ?thesis
      using Some by (simp add: level_blocks_def del: expand.simps)
  qed
qed simp

lemma leader_last:
  assumes "proposer_inv bc" and "leaders_ok bc" and "proposer_leader_sequence_cf bc l = Some h"
  shows "\<exists>bs. level_blocks (proposer_ref_neighbor_cf bc) (set (ledger_blocks bc l)) l h = bs @ [h]"
proof -
  note lev = leaders_okD [OF assms(2,3)]
  have "h \<notin> set (ledger_blocks bc l)"
  proof
    assume "h \<in> set (ledger_blocks bc l)"
    from ledger_upto_levels [OF assms(1,2) this] lev show False by auto
  qed
  from proposer_dag.expand_unique [OF assms(1) lev this, of l] show ?thesis
    by (auto simp: level_blocks_def simp del: expand.simps)
qed

end
