(* ===== verification/Prism_Chain_Proposer.thy ===== *)
theory Prism_Chain_Proposer
  imports Prism_Chain
begin

text \<open>
  Insertion of proposer blocks: what it writes, and that it keeps the invariants of the proposer
  tree and of the voter chains.
\<close>

lemma merge_append_at:
  "merge_append k [x] cf k' =
     (if k' = k then Some (push_new x (case cf k of Some v \<Rightarrow> v | None \<Rightarrow> [])) else cf k')"
  by (simp add: merge_append_def h256_vec_append_merge_def)

lemma merge_plus_at:
  "merge_plus k n cf k' = (if k' = k then Some ((case cf k of Some v \<Rightarrow> v | None \<Rightarrow> 0) + n) else cf k')"
  by (simp add: merge_plus_def u64_plus_merge_def)

text \<open>The state after the insertion of a proposer block whose parent has level \<open>l\<close>.\<close>

definition with_proposer :: "h256 \<Rightarrow> header \<Rightarrow> proposer_content \<Rightarrow> nat \<Rightarrow> blockchain \<Rightarrow> blockchain" where
  "with_proposer h hdr c l bc = bc\<lparr>
     parent_neighbor_cf := (parent_neighbor_cf bc)(h \<mapsto> parent hdr),
     proposer_ref_neighbor_cf := (proposer_ref_neighbor_cf bc)(h \<mapsto> parent hdr # proposer_refs c),
     transaction_ref_neighbor_cf := (transaction_ref_neighbor_cf bc)(h \<mapsto> transaction_refs c),
     proposer_node_level_cf := (proposer_node_level_cf bc)(h \<mapsto> l + 1),
     proposer_tree_level_cf := merge_append (l + 1) [h] (proposer_tree_level_cf bc),
     unconfirmed_proposers := insert h (unconfirmed_proposers bc),
     proposer_best_level := max (proposer_best_level bc) (l + 1),
     perf := (if proposer_best_level bc < l + 1
              then record_update_proposer_main_chain (l + 1) (perf bc) else perf bc),
     unreferred_proposers := AList.delete (parent hdr) (fold AList.delete (proposer_refs c)
       (AList.update h (timestamp hdr) (unreferred_proposers bc))),
     unreferred_transactions := fold AList.delete (transaction_refs c) (unreferred_transactions bc)\<rparr>"

lemma insert_proposer_Ok:
  "proposer_node_level_cf bc (parent hdr) = Some l \<Longrightarrow>
   insert_proposer h hdr c bc = Ok (with_proposer h hdr c l bc)"
  by (cases "proposer_best_level bc < l + 1") (simp_all add: insert_proposer_def with_proposer_def Let_def)

lemma with_proposer_simps [simp]:
  "parent_neighbor_cf (with_proposer h hdr c l bc) = (parent_neighbor_cf bc)(h \<mapsto> parent hdr)"
  "proposer_ref_neighbor_cf (with_proposer h hdr c l bc) =
     (proposer_ref_neighbor_cf bc)(h \<mapsto> parent hdr # proposer_refs c)"
  "transaction_ref_neighbor_cf (with_proposer h hdr c l bc) =
     (transaction_ref_neighbor_cf bc)(h \<mapsto> transaction_refs c)"
  "proposer_node_level_cf (with_proposer h hdr c l bc) = (proposer_node_level_cf bc)(h \<mapsto> l + 1)"
  "proposer_tree_level_cf (with_proposer h hdr c l bc) =
     merge_append (l + 1) [h] (proposer_tree_level_cf bc)"
  "unconfirmed_proposers (with_proposer h hdr c l bc) = insert h (unconfirmed_proposers bc)"
  "proposer_best_level (with_proposer h hdr c l bc) = max (proposer_best_level bc) (l + 1)"
  "unreferred_proposers (with_proposer h hdr c l bc) =
     AList.delete (parent hdr) (fold AList.delete (proposer_refs c)
       (AList.update h (timestamp hdr) (unreferred_proposers bc)))"
  "voter_node_level_cf (with_proposer h hdr c l bc) = voter_node_level_cf bc"
  "voter_node_chain_cf (with_proposer h hdr c l bc) = voter_node_chain_cf bc"
  "voter_tree_level_count_cf (with_proposer h hdr c l bc) = voter_tree_level_count_cf bc"
  "voter_node_voted_level_cf (with_proposer h hdr c l bc) = voter_node_voted_level_cf bc"
  "proposer_node_vote_cf (with_proposer h hdr c l bc) = proposer_node_vote_cf bc"
  "proposer_leader_sequence_cf (with_proposer h hdr c l bc) = proposer_leader_sequence_cf bc"
  "proposer_ledger_order_cf (with_proposer h hdr c l bc) = proposer_ledger_order_cf bc"
  "vote_neighbor_cf (with_proposer h hdr c l bc) = vote_neighbor_cf bc"
  "voter_parent_neighbor_cf (with_proposer h hdr c l bc) = voter_parent_neighbor_cf bc"
  "voter_best (with_proposer h hdr c l bc) = voter_best bc"
  "proposer_ledger_tip (with_proposer h hdr c l bc) = proposer_ledger_tip bc"
  "voter_ledger_tips (with_proposer h hdr c l bc) = voter_ledger_tips bc"
  "config (with_proposer h hdr c l bc) = config bc"
  "num_chains (with_proposer h hdr c l bc) = num_chains bc"
  by (simp_all add: with_proposer_def num_chains_def)

section \<open>The proposer tree\<close>

lemma levels_inv_proposer:
  assumes inv: "proposer_levels_inv bc" and new: "proposer_node_level_cf bc h = None"
    and p: "proposer_node_level_cf bc p = Some l"
    and lv: "proposer_node_level_cf bc' = (proposer_node_level_cf bc)(h \<mapsto> l + 1)"
    and tr: "proposer_tree_level_cf bc' = merge_append (l + 1) [h] (proposer_tree_level_cf bc)"
    and best: "proposer_best_level bc' = max (proposer_best_level bc) (l + 1)"
    and conf: "config bc' = config bc"
  shows "proposer_levels_inv bc'"
proof -
  let ?B = "proposer_best_level bc"
  note D = proposer_levels_invD [OF inv]
  have le: "l \<le> ?B" by (rule D(2) [OF p])
  have at: "\<exists>bs. proposer_tree_level_cf bc' k = Some bs \<and> bs \<noteq> [] \<and> distinct bs \<and>
      set bs = {x. proposer_node_level_cf bc' x = Some k}" if k: "k \<le> max ?B (l + 1)" for k
  proof (cases "k \<le> ?B")
    case True
    from D(4) [OF this] obtain bs where bs: "proposer_tree_level_cf bc k = Some bs" "bs \<noteq> []" "distinct bs"
        "set bs = {x. proposer_node_level_cf bc x = Some k}" by blast
    have h: "h \<notin> set bs" unfolding bs(4) using new by simp
    show ?thesis
    proof (cases "k = l + 1")
      case True
      then have "proposer_tree_level_cf bc' k = Some (bs @ [h])"
        using h bs(1) by (simp add: tr merge_append_at push_new_def)
      moreover have "set (bs @ [h]) = {x. proposer_node_level_cf bc' x = Some k}"
        using True new bs(4) by (auto simp: lv)
      ultimately show ?thesis using h bs(3) by (intro exI [of _ "bs @ [h]"]) simp
    next
      case False
      then have "proposer_tree_level_cf bc' k = Some bs" using bs(1) by (simp add: tr merge_append_at)
      moreover have "set bs = {x. proposer_node_level_cf bc' x = Some k}"
        using False new bs(4) by (auto simp: lv)
      ultimately show ?thesis using bs(2,3) by (intro exI [of _ bs]) simp
    qed
  next
    case False
    then have "k = l + 1" using k le by simp
    moreover have "proposer_tree_level_cf bc k = None" using False D(3) by simp
    moreover have "\<And>x. proposer_node_level_cf bc x \<noteq> Some k" using False D(2) by blast
    ultimately show ?thesis
      by (intro exI [of _ "[h]"]) (auto simp: lv tr merge_append_at push_new_def)
  qed
  show ?thesis
    unfolding proposer_levels_inv_def best
  proof (intro conjI allI impI)
    fix x k
    show "proposer_node_level_cf bc' x = Some 0 \<longleftrightarrow> x = proposer_genesis (config bc')"
      using D(1) [of x] D(1) [of h] new by (auto simp: lv conf)
    show "k \<le> max ?B (l + 1)" if "proposer_node_level_cf bc' x = Some k"
      using that D(2) [of x k] by (cases "x = h") (auto simp: lv)
    show "proposer_tree_level_cf bc' k = None" if "max ?B (l + 1) < k"
      using that D(3) [of k] by (simp add: tr merge_append_at)
  qed (rule at)
qed

lemma refs_inv_proposer:
  assumes inv: "proposer_refs_inv bc" and new: "proposer_node_level_cf bc h = None"
    and p: "proposer_node_level_cf bc (parent hdr) = Some l"
    and refs: "\<forall>r \<in> set (proposer_refs c). \<exists>lr. proposer_node_level_cf bc r = Some lr \<and> lr \<le> l"
  shows "proposer_refs_inv (with_proposer h hdr c l bc)"
proof -
  have ne: "parent hdr \<noteq> h" "\<forall>r \<in> set (proposer_refs c). r \<noteq> h" using new p refs by auto
  note D = proposer_refs_invD [OF inv]
  have up: "\<exists>p rs. ((parent_neighbor_cf bc)(h \<mapsto> parent hdr)) x = Some p \<and>
      ((proposer_node_level_cf bc)(h \<mapsto> l + 1)) p = Some k \<and>
      ((proposer_ref_neighbor_cf bc)(h \<mapsto> parent hdr # proposer_refs c)) x = Some (p # rs)"
    if "((proposer_node_level_cf bc)(h \<mapsto> l + 1)) x = Some (Suc k)" for x k
  proof (cases "x = h")
    case True
    then show ?thesis using that p ne by simp
  next
    case False
    with that have "proposer_node_level_cf bc x = Some (Suc k)" by simp
    from D(3) [OF this] obtain q rs where q: "parent_neighbor_cf bc x = Some q"
        "proposer_node_level_cf bc q = Some k" "proposer_ref_neighbor_cf bc x = Some (q # rs)" by blast
    then have "q \<noteq> h" using new by auto
    then show ?thesis using False q by simp
  qed
  have down: "\<exists>lr lx. ((proposer_node_level_cf bc)(h \<mapsto> l + 1)) r = Some lr \<and>
      ((proposer_node_level_cf bc)(h \<mapsto> l + 1)) x = Some lx \<and> lr < lx"
    if "((proposer_ref_neighbor_cf bc)(h \<mapsto> parent hdr # proposer_refs c)) x = Some rs" "r \<in> set rs" for x rs r
  proof (cases "x = h")
    case True
    then have "r = parent hdr \<or> r \<in> set (proposer_refs c)" using that by auto
    then show ?thesis using True refs p ne by (auto simp: less_Suc_eq_le)
  next
    case False
    with that have "proposer_ref_neighbor_cf bc x = Some rs" by simp
    from D(4) [OF this that(2)] obtain lr lx where r: "proposer_node_level_cf bc r = Some lr"
        "proposer_node_level_cf bc x = Some lx" "lr < lx" by blast
    then have "r \<noteq> h" using new by auto
    then show ?thesis using False r by simp
  qed
  show ?thesis
    unfolding proposer_refs_inv_def with_proposer_simps
  proof (intro conjI allI impI)
    show "dom ((proposer_ref_neighbor_cf bc)(h \<mapsto> parent hdr # proposer_refs c)) =
        dom ((proposer_node_level_cf bc)(h \<mapsto> l + 1))"
      "dom ((transaction_ref_neighbor_cf bc)(h \<mapsto> transaction_refs c)) =
        dom ((proposer_node_level_cf bc)(h \<mapsto> l + 1))"
      using D(1,2) by simp_all
  qed (erule up, erule down, assumption)
qed

section \<open>The unreferred blocks\<close>

lemma keys_delete: "fst ` set (AList.delete k xs) = fst ` set xs - {k}"
  by (induction xs) (auto simp: AList.delete_eq)

lemma keys_fold_delete: "fst ` set (fold AList.delete ks xs) = fst ` set xs - set ks"
  by (induction ks arbitrary: xs) (auto simp: keys_delete)

lemma distinct_fold_delete:
  "distinct (map fst xs) \<Longrightarrow> distinct (map fst (fold AList.delete ks xs))"
  by (induction ks arbitrary: xs) (auto intro: AList.distinct_delete)

lemma unreferred_inv_proposer:
  assumes inv: "unreferred_inv bc" and refs: "proposer_refs_inv bc"
    and new: "proposer_node_level_cf bc h = None"
    and p: "proposer_node_level_cf bc (parent hdr) = Some l"
    and rs: "\<forall>r \<in> set (proposer_refs c). \<exists>lr. proposer_node_level_cf bc r = Some lr \<and> lr \<le> l"
  shows "unreferred_inv (with_proposer h hdr c l bc)"
proof -
  let ?bc = "with_proposer h hdr c l bc" and ?R = "insert (parent hdr) (set (proposer_refs c))"
  have h: "h \<notin> ?R" using new p rs by auto
  have unref_h: "\<not> referred bc h"
  proof
    assume "referred bc h"
    then obtain h' rs where "proposer_ref_neighbor_cf bc h' = Some rs" "h \<in> set rs"
      unfolding referred_def by blast
    from proposer_refs_invD(4) [OF refs this] new show False by auto
  qed
  have noref: "proposer_ref_neighbor_cf bc h = None"
    using proposer_refs_invD(1) [OF refs] new by (metis domIff)
  have "distinct (map fst (unreferred_proposers ?bc))"
    using inv unfolding unreferred_inv_def with_proposer_simps
    by (intro AList.distinct_delete distinct_fold_delete AList.distinct_update) simp
  moreover have "fst ` set (unreferred_proposers ?bc) = insert h (fst ` set (unreferred_proposers bc)) - ?R"
    by (simp add: keys_delete keys_fold_delete AList.dom_update) blast
  moreover have "referred ?bc x \<longleftrightarrow> x \<in> ?R \<or> referred bc x" for x
  proof
    assume "referred ?bc x"
    then obtain h' rs where "proposer_ref_neighbor_cf ?bc h' = Some rs" "x \<in> set rs"
      unfolding referred_def by blast
    then show "x \<in> ?R \<or> referred bc x" by (cases "h' = h") (auto simp: referred_def)
  next
    assume "x \<in> ?R \<or> referred bc x"
    then show "referred ?bc x"
    proof
      assume "x \<in> ?R"
      then show ?thesis unfolding referred_def
        by (intro exI [of _ h] exI [of _ "parent hdr # proposer_refs c"]) simp
    next
      assume "referred bc x"
      then obtain h' rs where *: "proposer_ref_neighbor_cf bc h' = Some rs" "x \<in> set rs"
        unfolding referred_def by blast
      then have "h' \<noteq> h" using noref by auto
      with * show ?thesis unfolding referred_def by (intro exI [of _ h'] exI [of _ rs]) simp
    qed
  qed
  then have "{x. proposer_node_level_cf ?bc x \<noteq> None \<and> \<not> referred ?bc x}
    = insert h {x. proposer_node_level_cf bc x \<noteq> None \<and> \<not> referred bc x} - ?R"
    using unref_h h by auto
  ultimately show ?thesis using inv unfolding unreferred_inv_def by simp
qed

lemma proposer_inv_proposer:
  assumes "proposer_inv bc" and "fresh bc h" and "valid_proposer bc hdr c"
  shows "\<exists>l. proposer_node_level_cf bc (parent hdr) = Some l \<and>
    insert_proposer h hdr c bc = Ok (with_proposer h hdr c l bc) \<and>
    proposer_inv (with_proposer h hdr c l bc)"
proof -
  from assms(3) obtain l where p: "proposer_node_level_cf bc (parent hdr) = Some l"
    and rs: "\<forall>r \<in> set (proposer_refs c). \<exists>lr. proposer_node_level_cf bc r = Some lr \<and> lr \<le> l"
    unfolding valid_proposer_def by blast
  have new: "proposer_node_level_cf bc h = None" using assms(2) by (simp add: fresh_def)
  have inv: "proposer_levels_inv bc" "proposer_refs_inv bc" "unreferred_inv bc"
    using assms(1) by (simp_all add: proposer_inv_def)
  have "proposer_levels_inv (with_proposer h hdr c l bc)"
    by (rule levels_inv_proposer [OF inv(1) new p]) simp_all
  then have "proposer_inv (with_proposer h hdr c l bc)"
    using refs_inv_proposer [OF inv(2) new p rs] unreferred_inv_proposer [OF inv(3,2) new p rs]
    by (simp add: proposer_inv_def)
  with insert_proposer_Ok [OF p] p show ?thesis by blast
qed

section \<open>The voter chains\<close>

lemma voter_inv_proposer:
  assumes inv: "voter_inv bc" and new: "proposer_node_level_cf bc h = None"
  shows "voter_inv (with_proposer h hdr c l bc)"
proof -
  let ?bc = "with_proposer h hdr c l bc"
  have ext: "extends ?bc v p" if "extends bc v p" for v p
  proof -
    from that obtain s e vs where *: "voter_node_chain_cf bc p = voter_node_chain_cf bc v"
      "voter_node_voted_level_cf bc p = Some s" "voter_node_voted_level_cf bc v = Some e"
      "vote_neighbor_cf bc v = Some vs" "s \<le> e" "map (proposer_node_level_cf bc) vs = map Some [s + 1..<e + 1]"
      unfolding extends_def by blast
    have "h \<notin> set vs"
    proof
      assume "h \<in> set vs"
      then have "None \<in> set (map (proposer_node_level_cf bc) vs)" using new by (force simp: image_iff)
      then show False unfolding *(6) by auto
    qed
    then have "map ((proposer_node_level_cf bc)(h \<mapsto> l + 1)) vs = map (proposer_node_level_cf bc) vs"
      by (intro map_cong) auto
    with * show ?thesis unfolding extends_def with_proposer_simps by auto
  qed
  have tree: "voter_tree_inv bc" and best: "voter_best_inv bc" using inv by (simp_all add: voter_inv_def)
  have "\<exists>p. voter_parent_neighbor_cf bc v = Some p \<and> voter_node_level_cf bc p = Some k \<and> extends ?bc v p"
    if "voter_node_level_cf bc v = Some (Suc k)" for v k
    using voter_tree_invD(7) [OF tree that] ext by (elim exE conjE) (intro exI conjI)
  note ex = this
  have "voter_tree_inv ?bc"
    using tree unfolding voter_tree_inv_def with_proposer_simps
    by (elim conjE) (intro conjI, assumption+, intro allI impI, erule ex, assumption)
  moreover have "voter_best_inv ?bc"
    using best unfolding voter_best_inv_def with_proposer_simps .
  ultimately show ?thesis by (simp add: voter_inv_def)
qed

lemma perf_inv_proposer: "perf_inv bc \<Longrightarrow> perf_inv (with_proposer h hdr c l bc)"
  by (simp add: perf_inv_def with_proposer_def record_update_proposer_main_chain_def max_def)

end
