(* ===== verification/Prism_Chain_Voter.thy ===== *)
theory Prism_Chain_Voter
  imports Prism_Chain_Proposer
begin

text \<open>
  Insertion of voter and transaction blocks: what they write, and that they keep the invariants.
\<close>

text \<open>The state after the insertion of a voter block whose voter parent has level \<open>l\<close> on chain \<open>i\<close>
  and whose proposer parent has level \<open>e\<close>.\<close>

definition with_voter ::
  "h256 \<Rightarrow> header \<Rightarrow> voter_content \<Rightarrow> nat \<Rightarrow> nat \<Rightarrow> nat \<Rightarrow> blockchain \<Rightarrow> blockchain" where
  "with_voter h hdr c l i e bc = bc\<lparr>
     parent_neighbor_cf := (parent_neighbor_cf bc)(h \<mapsto> parent hdr),
     voter_parent_neighbor_cf := (voter_parent_neighbor_cf bc)(h \<mapsto> voter_parent c),
     voter_node_level_cf := (voter_node_level_cf bc)(h \<mapsto> l + 1),
     voter_node_chain_cf := (voter_node_chain_cf bc)(h \<mapsto> i),
     voter_tree_level_count_cf := merge_plus (i, l + 1) 1 (voter_tree_level_count_cf bc),
     proposer_vote_count_cf := fold (\<lambda>h. merge_plus h 1) (votes c) (proposer_vote_count_cf bc),
     vote_neighbor_cf := (vote_neighbor_cf bc)(h \<mapsto> votes c),
     voter_node_voted_level_cf := (voter_node_voted_level_cf bc)(h \<mapsto> e),
     voter_best := (if snd (voter_best bc ! i) < l + 1 then (voter_best bc)[i := (h, l + 1)] else voter_best bc),
     perf := (if snd (voter_best bc ! i) < l + 1
              then record_update_voter_main_chain (snd (voter_best bc ! i)) (l + 1) (perf bc) else perf bc)\<rparr>"

lemma insert_voter_Ok:
  assumes "voter_node_level_cf bc (voter_parent c) = Some l" and "voter_node_chain_cf bc (voter_parent c) = Some i"
    and "proposer_node_level_cf bc (parent hdr) = Some e" and "i < length (voter_best bc)"
  shows "insert_voter h hdr c bc = Ok (with_voter h hdr c l i e bc)"
  using assms
  by (cases "snd (voter_best bc ! i) < l + 1") (simp_all add: insert_voter_def with_voter_def Let_def)

lemma with_voter_simps [simp]:
  "parent_neighbor_cf (with_voter h hdr c l i e bc) = (parent_neighbor_cf bc)(h \<mapsto> parent hdr)"
  "voter_parent_neighbor_cf (with_voter h hdr c l i e bc) = (voter_parent_neighbor_cf bc)(h \<mapsto> voter_parent c)"
  "voter_node_level_cf (with_voter h hdr c l i e bc) = (voter_node_level_cf bc)(h \<mapsto> l + 1)"
  "voter_node_chain_cf (with_voter h hdr c l i e bc) = (voter_node_chain_cf bc)(h \<mapsto> i)"
  "voter_tree_level_count_cf (with_voter h hdr c l i e bc) =
     merge_plus (i, l + 1) 1 (voter_tree_level_count_cf bc)"
  "vote_neighbor_cf (with_voter h hdr c l i e bc) = (vote_neighbor_cf bc)(h \<mapsto> votes c)"
  "voter_node_voted_level_cf (with_voter h hdr c l i e bc) = (voter_node_voted_level_cf bc)(h \<mapsto> e)"
  "voter_best (with_voter h hdr c l i e bc) =
     (if snd (voter_best bc ! i) < l + 1 then (voter_best bc)[i := (h, l + 1)] else voter_best bc)"
  "proposer_node_level_cf (with_voter h hdr c l i e bc) = proposer_node_level_cf bc"
  "proposer_tree_level_cf (with_voter h hdr c l i e bc) = proposer_tree_level_cf bc"
  "proposer_node_vote_cf (with_voter h hdr c l i e bc) = proposer_node_vote_cf bc"
  "proposer_leader_sequence_cf (with_voter h hdr c l i e bc) = proposer_leader_sequence_cf bc"
  "proposer_ledger_order_cf (with_voter h hdr c l i e bc) = proposer_ledger_order_cf bc"
  "transaction_ref_neighbor_cf (with_voter h hdr c l i e bc) = transaction_ref_neighbor_cf bc"
  "proposer_ref_neighbor_cf (with_voter h hdr c l i e bc) = proposer_ref_neighbor_cf bc"
  "proposer_best_level (with_voter h hdr c l i e bc) = proposer_best_level bc"
  "unreferred_proposers (with_voter h hdr c l i e bc) = unreferred_proposers bc"
  "unconfirmed_proposers (with_voter h hdr c l i e bc) = unconfirmed_proposers bc"
  "proposer_ledger_tip (with_voter h hdr c l i e bc) = proposer_ledger_tip bc"
  "voter_ledger_tips (with_voter h hdr c l i e bc) = voter_ledger_tips bc"
  "config (with_voter h hdr c l i e bc) = config bc"
  "num_chains (with_voter h hdr c l i e bc) = num_chains bc"
  by (simp_all add: with_voter_def num_chains_def)

section \<open>The proposer tree\<close>

lemma proposer_inv_parent:
  assumes inv: "proposer_inv bc" and new: "proposer_node_level_cf bc h = None"
    and same: "proposer_node_level_cf bc' = proposer_node_level_cf bc"
      "proposer_tree_level_cf bc' = proposer_tree_level_cf bc"
      "proposer_best_level bc' = proposer_best_level bc"
      "proposer_ref_neighbor_cf bc' = proposer_ref_neighbor_cf bc"
      "transaction_ref_neighbor_cf bc' = transaction_ref_neighbor_cf bc"
      "unreferred_proposers bc' = unreferred_proposers bc" "config bc' = config bc"
    and par: "parent_neighbor_cf bc' = (parent_neighbor_cf bc)(h \<mapsto> p)"
  shows "proposer_inv bc'"
proof -
  have parts: "proposer_levels_inv bc" "proposer_refs_inv bc" "unreferred_inv bc"
    using inv by (simp_all add: proposer_inv_def)
  have "\<exists>q rs. parent_neighbor_cf bc' x = Some q \<and> proposer_node_level_cf bc q = Some k \<and>
      proposer_ref_neighbor_cf bc x = Some (q # rs)"
    if "proposer_node_level_cf bc x = Some (Suc k)" for x k
    using proposer_refs_invD(3) [OF parts(2) that] that new by (cases "x = h") (simp_all add: par)
  note ex = this
  have "proposer_refs_inv bc'"
    using parts(2) unfolding proposer_refs_inv_def same
    by (elim conjE) (intro conjI, assumption+, intro allI impI, erule ex, assumption)
  then show ?thesis
    using parts(1,3) by (simp add: proposer_inv_def proposer_levels_inv_def unreferred_inv_def referred_def same)
qed

section \<open>The voter chains\<close>

lemma voter_tree_inv_voter:
  assumes inv: "voter_tree_inv bc" and new: "voter_node_level_cf bc h = None"
    and l: "voter_node_level_cf bc (voter_parent c) = Some l"
    and i: "voter_node_chain_cf bc (voter_parent c) = Some i"
    and s: "voter_node_voted_level_cf bc (voter_parent c) = Some s" and se: "s \<le> e"
    and vs: "map (proposer_node_level_cf bc) (votes c) = map Some [s + 1..<e + 1]"
  shows "voter_tree_inv (with_voter h hdr c l i e bc)"
proof -
  let ?bc = "with_voter h hdr c l i e bc"
  note D = voter_tree_invD [OF inv]
  have ne: "voter_parent c \<noteq> h" using new l by auto
  have gen: "v \<noteq> h" if "v \<in> set (voter_genesis (config bc))" for v
    using that D(4) [of v] new by auto
  have self: "extends ?bc h (voter_parent c)"
    using ne i s se vs unfolding extends_def with_voter_simps by auto
  have ext: "extends ?bc v p" if "extends bc v p" "v \<noteq> h" "p \<noteq> h" for v p
    using that unfolding extends_def with_voter_simps by simp
  have up: "\<exists>p. voter_parent_neighbor_cf ?bc v = Some p \<and> voter_node_level_cf ?bc p = Some k \<and> extends ?bc v p"
    if "voter_node_level_cf ?bc v = Some (Suc k)" for v k
  proof (cases "v = h")
    case True
    with that have "k = l" by simp
    then show ?thesis using True l ne self by (intro exI [of _ "voter_parent c"]) simp
  next
    case False
    with that have "voter_node_level_cf bc v = Some (Suc k)" by simp
    from D(7) [OF this] obtain p where p: "voter_parent_neighbor_cf bc v = Some p"
      "voter_node_level_cf bc p = Some k" "extends bc v p" by blast
    then have "p \<noteq> h" using new by auto
    with False p ext show ?thesis by (intro exI [of _ p]) simp
  qed
  show ?thesis
    unfolding voter_tree_inv_def
  proof (intro conjI allI impI ballI)
    show "dom (voter_node_chain_cf ?bc) = dom (voter_node_level_cf ?bc)"
      "dom (voter_node_voted_level_cf ?bc) = dom (voter_node_level_cf ?bc)"
      "dom (vote_neighbor_cf ?bc) = dom (voter_node_level_cf ?bc)"
      using D(1-3) by simp_all
    fix v j
    show "voter_node_level_cf ?bc v = Some 0 \<longleftrightarrow> v \<in> set (voter_genesis (config ?bc))"
      using D(4) [of v] gen [of v] by (cases "v = h") auto
    show "j < num_chains ?bc" if "voter_node_chain_cf ?bc v = Some j"
      using that D(8) [of v j] D(8) [OF i] by (cases "v = h") simp_all
  next
    fix j assume "j < num_chains ?bc"
    then have chain: "voter_node_chain_cf bc (voter_genesis (config bc) ! j) = Some j" using D(5) by simp
    then have "voter_node_level_cf bc (voter_genesis (config bc) ! j) \<noteq> None"
      using D(1) by (metis domI domIff)
    with new have "voter_genesis (config bc) ! j \<noteq> h" by auto
    with chain show "voter_node_chain_cf ?bc (voter_genesis (config ?bc) ! j) = Some j" by simp
  next
    fix v assume "v \<in> set (voter_genesis (config ?bc))"
    then have v: "v \<in> set (voter_genesis (config bc))" by simp
    then show "voter_node_voted_level_cf ?bc v = Some 0"
      "vote_neighbor_cf ?bc v = Some [proposer_genesis (config ?bc)]"
      using D(6) [OF v] gen [OF v] by simp_all
  qed (rule up)
qed

lemma card_insert_block:
  "card {v. (vc(h \<mapsto> i)) v = Some j \<and> (vl(h \<mapsto> k)) v = Some m} =
    card {v :: h256. vc v = Some j \<and> vl v = Some m \<and> v \<noteq> h} + (if j = i \<and> m = k then 1 else 0)"
proof -
  have "{v. (vc(h \<mapsto> i)) v = Some j \<and> (vl(h \<mapsto> k)) v = Some m} =
      {v. vc v = Some j \<and> vl v = Some m \<and> v \<noteq> h} \<union> (if j = i \<and> m = k then {h} else {})"
    by auto
  then show ?thesis by simp
qed

lemma voter_best_inv_voter:
  assumes inv: "voter_best_inv bc" and tree: "voter_tree_inv bc" and new: "voter_node_level_cf bc h = None"
    and l: "voter_node_level_cf bc (voter_parent c) = Some l"
    and i: "voter_node_chain_cf bc (voter_parent c) = Some i"
  shows "voter_best_inv (with_voter h hdr c l i e bc)"
proof -
  let ?bc = "with_voter h hdr c l i e bc"
  note D = voter_best_invD [OF inv]
  have i_less: "i < num_chains bc" using voter_tree_invD(8) [OF tree i] .
  have le: "l \<le> snd (voter_best bc ! i)" using D(5) [OF i_less i l] .
  have len: "length (voter_best ?bc) = num_chains bc" using D(2) by simp
  have lv: "snd (voter_best ?bc ! j) =
      (if j = i then max (snd (voter_best bc ! i)) (l + 1) else snd (voter_best bc ! j))" if "j < num_chains bc" for j
    using that D(2) by (simp add: max_def)
  have tip: "fst (voter_best ?bc ! j) =
      (if j = i \<and> snd (voter_best bc ! i) < l + 1 then h else fst (voter_best bc ! j))" if "j < num_chains bc" for j
    using that D(2) by simp
  have old: "{v. voter_node_chain_cf bc v = Some j \<and> voter_node_level_cf bc v = Some k \<and> v \<noteq> h} =
      {v. voter_node_chain_cf bc v = Some j \<and> voter_node_level_cf bc v = Some k}" for j k
    using new by auto
  have oldtip: "fst (voter_best bc ! j) \<noteq> h" if "j < num_chains bc" for j
    using D(3) [OF that] new by auto
  have empty: "{v. voter_node_chain_cf bc v = Some i \<and> voter_node_level_cf bc v = Some (l + 1)} = {}"
    if "snd (voter_best bc ! i) < l + 1"
    using that D(5) [OF i_less] by fastforce
  have cnt: "voter_tree_level_count_cf ?bc (j, k) =
      (if k \<le> snd (voter_best ?bc ! j)
       then Some (card {v. voter_node_chain_cf ?bc v = Some j \<and> voter_node_level_cf ?bc v = Some k}) else None)"
    if j: "j < num_chains bc" for j k
    unfolding lv [OF j]
    unfolding with_voter_simps merge_plus_at card_insert_block old D(6) [OF j]
    using le empty D(6) [OF i_less, of "l + 1"] by (auto simp: max_def split: if_splits)
  show ?thesis
    unfolding voter_best_inv_def
  proof (intro conjI allI impI)
    show "length (voter_genesis (config ?bc)) = num_chains ?bc" using D(1) by simp
    show "length (voter_best ?bc) = num_chains ?bc" using len by simp
    fix j assume "j < num_chains ?bc"
    then have j: "j < num_chains bc" by simp
    show "voter_node_level_cf ?bc (fst (voter_best ?bc ! j)) = Some (snd (voter_best ?bc ! j))"
      unfolding lv [OF j] tip [OF j] using D(3) [OF j] oldtip [OF j] by (auto simp: max_def)
    show "voter_node_chain_cf ?bc (fst (voter_best ?bc ! j)) = Some j"
      unfolding tip [OF j] using D(4) [OF j] oldtip [OF j] by auto
    show "k \<le> snd (voter_best ?bc ! j)"
      if "voter_node_chain_cf ?bc v = Some j" "voter_node_level_cf ?bc v = Some k" for v k
      unfolding lv [OF j] using that D(5) [OF j, of v k] by (cases "v = h") (auto split: if_splits)
    show "voter_tree_level_count_cf ?bc (j, k) =
      (if k \<le> snd (voter_best ?bc ! j)
       then Some (card {v. voter_node_chain_cf ?bc v = Some j \<and> voter_node_level_cf ?bc v = Some k}) else None)" for k
      by (rule cnt [OF j])
  qed
qed

lemma perf_inv_voter:
  assumes "perf_inv bc" and "i < length (voter_best bc)"
  shows "perf_inv (with_voter h hdr c l i e bc)"
proof (cases "snd (voter_best bc ! i) < l + 1")
  case True
  let ?ls = "map snd (voter_best bc)"
  have le: "?ls ! i \<le> sum_list ?ls" using assms(2) by (intro elem_le_sum_list) simp
  have "sum_list (map snd ((voter_best bc)[i := (h, l + 1)])) = sum_list ?ls + (l + 1 - snd (voter_best bc ! i))"
    using True le assms(2) by (simp add: map_update sum_list_update)
  then show ?thesis using True assms
    by (simp add: perf_inv_def with_voter_def record_update_voter_main_chain_def)
next
  case False
  then show ?thesis using assms by (simp add: perf_inv_def with_voter_def)
qed

section \<open>Insertion keeps the invariants\<close>

definition chain_inv :: "blockchain \<Rightarrow> bool" where
  "chain_inv bc \<longleftrightarrow> proposer_inv bc \<and> voter_inv bc \<and> perf_inv bc"

lemma insert_voter_inv:
  assumes inv: "chain_inv bc" and fr: "fresh bc h" and v: "valid_voter bc hdr c"
  shows "\<exists>l i e. voter_node_level_cf bc (voter_parent c) = Some l \<and>
    voter_node_chain_cf bc (voter_parent c) = Some i \<and>
    proposer_node_level_cf bc (parent hdr) = Some e \<and> i < num_chains bc \<and>
    insert_voter h hdr c bc = Ok (with_voter h hdr c l i e bc) \<and>
    chain_inv (with_voter h hdr c l i e bc)"
proof -
  have new: "proposer_node_level_cf bc h = None" "voter_node_level_cf bc h = None"
    using fr by (simp_all add: fresh_def)
  have parts: "proposer_inv bc" "voter_tree_inv bc" "voter_best_inv bc" "perf_inv bc"
    using inv by (simp_all add: chain_inv_def voter_inv_def)
  from v obtain l s e where l: "voter_node_level_cf bc (voter_parent c) = Some l"
    and s: "voter_node_voted_level_cf bc (voter_parent c) = Some s"
    and e: "proposer_node_level_cf bc (parent hdr) = Some e" "s \<le> e"
    and vs: "map (proposer_node_level_cf bc) (votes c) = map Some [s + 1..<e + 1]"
    unfolding valid_voter_def by blast
  obtain i where i: "voter_node_chain_cf bc (voter_parent c) = Some i"
    using voter_tree_invD(1) [OF parts(2)] l by (metis domD domI)
  have less: "i < num_chains bc" using voter_tree_invD(8) [OF parts(2) i] .
  then have "i < length (voter_best bc)" using voter_best_invD(2) [OF parts(3)] by simp
  note ok = insert_voter_Ok [OF l i e(1) this] and p = perf_inv_voter [OF parts(4) this]
  have "proposer_inv (with_voter h hdr c l i e bc)"
    by (rule proposer_inv_parent [OF parts(1) new(1), where p = "parent hdr"]) simp_all
  moreover have "voter_inv (with_voter h hdr c l i e bc)"
    unfolding voter_inv_def
    using voter_tree_inv_voter [OF parts(2) new(2) l i s e(2) vs]
      voter_best_inv_voter [OF parts(3,2) new(2) l i] by blast
  ultimately have "chain_inv (with_voter h hdr c l i e bc)" using p by (simp add: chain_inv_def)
  with l i e(1) less ok show ?thesis by blast
qed

lemma insert_proposer_inv:
  assumes inv: "chain_inv bc" and fr: "fresh bc h" and v: "valid_proposer bc hdr c"
  shows "\<exists>l. proposer_node_level_cf bc (parent hdr) = Some l \<and>
    insert_proposer h hdr c bc = Ok (with_proposer h hdr c l bc) \<and>
    chain_inv (with_proposer h hdr c l bc)"
proof -
  have parts: "proposer_inv bc" "voter_inv bc" "perf_inv bc" using inv by (simp_all add: chain_inv_def)
  have new: "proposer_node_level_cf bc h = None" using fr by (simp add: fresh_def)
  from proposer_inv_proposer [OF parts(1) fr v] obtain l where
    "proposer_node_level_cf bc (parent hdr) = Some l"
    "insert_proposer h hdr c bc = Ok (with_proposer h hdr c l bc)"
    "proposer_inv (with_proposer h hdr c l bc)" by blast
  with voter_inv_proposer [OF parts(2) new] perf_inv_proposer [OF parts(3)] show ?thesis
    by (auto simp: chain_inv_def)
qed

lemma insert_transaction_inv:
  assumes inv: "chain_inv bc" and fr: "fresh bc h"
  shows "chain_inv (insert_transaction h hdr bc)"
proof -
  have "proposer_inv (insert_transaction h hdr bc)"
    by (rule proposer_inv_parent [of bc h _ "parent hdr"])
      (use inv fr in \<open>simp_all add: chain_inv_def fresh_def insert_transaction_def\<close>)
  then show ?thesis
    using inv by (simp add: chain_inv_def voter_inv_def voter_tree_inv_def voter_best_inv_def
        extends_def perf_inv_def num_chains_def insert_transaction_def)
qed

lemma insert_block_inv:
  assumes "chain_inv bc" and "fresh bc (block_hash keccak ser b)" and "valid_content bc (header b) (content b)"
  shows "\<exists>bc'. insert_block keccak ser b bc = Ok bc' \<and> chain_inv bc'"
proof (cases "content b")
  case (Transaction c)
  then show ?thesis using insert_transaction_inv [OF assms(1,2)] by (simp add: insert_block_def)
next
  case (Proposer c)
  then show ?thesis using insert_proposer_inv [OF assms(1,2)] assms(3) by (auto simp: insert_block_def)
next
  case (Voter c)
  then show ?thesis using insert_voter_inv [OF assms(1,2)] assms(3) by (auto simp: insert_block_def)
qed

end
