(* ===== verification/Prism_Votes.thy ===== *)
theory Prism_Votes
  imports Prism_Order Prism_Chain_Voter
begin

text \<open>
  The votes that a voter tip casts through its ancestors: one vote on every proposer level up to the
  deepest voted one. The difference of two tips of a chain is exactly what separates their votes, and
  merging it keeps the votes recorded with the proposer blocks equal to the votes of the ledger tips.
\<close>

section \<open>The votes of a tip\<close>

abbreviation votes_of :: "blockchain \<Rightarrow> h256 \<Rightarrow> h256 list" where
  "votes_of bc v \<equiv> (case vote_neighbor_cf bc v of Some vs \<Rightarrow> vs | None \<Rightarrow> [])"

primrec chain_votes :: "blockchain \<Rightarrow> nat \<Rightarrow> h256 \<Rightarrow> cast_votes" where
  "chain_votes bc 0 v = map (\<lambda>h. (h, 0)) (votes_of bc v)"
| "chain_votes bc (Suc l) v =
     map (\<lambda>h. (h, Suc l)) (votes_of bc v) @
     (case voter_parent_neighbor_cf bc v of Some p \<Rightarrow> chain_votes bc l p | None \<Rightarrow> [])"

definition tip_votes :: "blockchain \<Rightarrow> h256 \<Rightarrow> cast_votes" where
  "tip_votes bc v = (case voter_node_level_cf bc v of Some l \<Rightarrow> chain_votes bc l v | None \<Rightarrow> [])"

lemma voter_parent_obtain:
  assumes "voter_tree_inv bc" and "voter_node_level_cf bc v = Some (Suc l)"
  obtains p vs s e where "voter_parent_neighbor_cf bc v = Some p" "voter_node_level_cf bc p = Some l"
    "vote_neighbor_cf bc v = Some vs" "voter_node_chain_cf bc p = voter_node_chain_cf bc v"
    "voter_node_voted_level_cf bc p = Some s" "voter_node_voted_level_cf bc v = Some e" "s \<le> e"
    "map (proposer_node_level_cf bc) vs = map Some [s + 1..<e + 1]"
  using voter_tree_invD(7) [OF assms] unfolding extends_def by (elim exE conjE) (rule that)

lemma genesis_unique:
  assumes inv: "voter_tree_inv bc" and len: "length (voter_genesis (config bc)) = num_chains bc"
    and "voter_node_level_cf bc v = Some 0" and "voter_node_level_cf bc w = Some 0"
    and "voter_node_chain_cf bc v = voter_node_chain_cf bc w"
  shows "v = w"
proof -
  have "v \<in> set (voter_genesis (config bc))" "w \<in> set (voter_genesis (config bc))"
    using assms(3,4) voter_tree_invD(4) [OF inv] by blast+
  then obtain i j where "i < num_chains bc" "v = voter_genesis (config bc) ! i"
    "j < num_chains bc" "w = voter_genesis (config bc) ! j"
    by (metis in_set_conv_nth len)
  then show ?thesis using voter_tree_invD(5) [OF inv] assms(5) by (metis option.inject)
qed

lemma equal_levels_votes:
  assumes "voter_tree_inv bc" and "voter_node_level_cf bc to = Some tlev" and "voter_node_level_cf bc from = Some flev"
  shows "\<exists>to' from' l A R. equal_levels bc to tlev from flev added removed = Ok (to', l, from', l, added @ A, removed @ R) \<and>
    voter_node_level_cf bc to' = Some l \<and> voter_node_level_cf bc from' = Some l \<and>
    voter_node_chain_cf bc to' = voter_node_chain_cf bc to \<and>
    voter_node_chain_cf bc from' = voter_node_chain_cf bc from \<and>
    chain_votes bc tlev to = A @ chain_votes bc l to' \<and> chain_votes bc flev from = R @ chain_votes bc l from'"
  using assms(2,3)
proof (induction "(tlev - flev) + (flev - tlev)" arbitrary: to tlev "from" flev added removed)
  case 0
  then have "tlev = flev" by linarith
  then show ?case using 0 by (simp add: equal_levels.simps)
next
  case (Suc n)
  consider "flev < tlev" | "tlev < flev" using Suc.hyps(2) by linarith
  then show ?case
  proof cases
    case 1
    then obtain k where k: "tlev = Suc k" by (cases tlev) auto
    from voter_parent_obtain [OF assms(1) Suc.prems(1) [unfolded k]] obtain p vs where
      p: "voter_parent_neighbor_cf bc to = Some p" "voter_node_level_cf bc p = Some k"
        "vote_neighbor_cf bc to = Some vs" "voter_node_chain_cf bc p = voter_node_chain_cf bc to" by metis
    have "n = (k - flev) + (flev - k)" using Suc.hyps(2) 1 k by simp
    from Suc.hyps(1) [OF this p(2) Suc.prems(2), of "added @ map (\<lambda>v. (v, tlev)) vs" removed]
    obtain to' from' l A R where ih:
      "equal_levels bc p k from flev (added @ map (\<lambda>v. (v, tlev)) vs) removed =
        Ok (to', l, from', l, (added @ map (\<lambda>v. (v, tlev)) vs) @ A, removed @ R)"
      "voter_node_level_cf bc to' = Some l" "voter_node_level_cf bc from' = Some l"
      "voter_node_chain_cf bc to' = voter_node_chain_cf bc p"
      "voter_node_chain_cf bc from' = voter_node_chain_cf bc from"
      "chain_votes bc k p = A @ chain_votes bc l to'" "chain_votes bc flev from = R @ chain_votes bc l from'"
      by blast
    show ?thesis
      by (rule exI [of _ to'], rule exI [of _ from'], rule exI [of _ l], rule exI [of _ "map (\<lambda>v. (v, tlev)) vs @ A"], rule exI [of _ R])
         (use 1 p k ih in \<open>simp add: equal_levels.simps [of bc to "Suc k"]\<close>)
  next
    case 2
    then obtain k where k: "flev = Suc k" by (cases flev) auto
    from voter_parent_obtain [OF assms(1) Suc.prems(2) [unfolded k]] obtain p vs where
      p: "voter_parent_neighbor_cf bc from = Some p" "voter_node_level_cf bc p = Some k"
        "vote_neighbor_cf bc from = Some vs" "voter_node_chain_cf bc p = voter_node_chain_cf bc from" by metis
    have "n = (tlev - k) + (k - tlev)" using Suc.hyps(2) 2 k by simp
    from Suc.hyps(1) [OF this Suc.prems(1) p(2), of added "removed @ map (\<lambda>v. (v, flev)) vs"]
    obtain to' from' l A R where ih:
      "equal_levels bc to tlev p k added (removed @ map (\<lambda>v. (v, flev)) vs) =
        Ok (to', l, from', l, added @ A, (removed @ map (\<lambda>v. (v, flev)) vs) @ R)"
      "voter_node_level_cf bc to' = Some l" "voter_node_level_cf bc from' = Some l"
      "voter_node_chain_cf bc to' = voter_node_chain_cf bc to"
      "voter_node_chain_cf bc from' = voter_node_chain_cf bc p"
      "chain_votes bc tlev to = A @ chain_votes bc l to'" "chain_votes bc k p = R @ chain_votes bc l from'"
      by blast
    show ?thesis
      by (rule exI [of _ to'], rule exI [of _ from'], rule exI [of _ l], rule exI [of _ A], rule exI [of _ "map (\<lambda>v. (v, flev)) vs @ R"])
         (use 2 p k ih in \<open>simp add: equal_levels.simps [of bc to tlev]\<close>)
  qed
qed

lemma meet_chains_votes:
  assumes inv: "voter_tree_inv bc" "length (voter_genesis (config bc)) = num_chains bc"
    and "voter_node_level_cf bc to = Some l" and "voter_node_level_cf bc from = Some l"
    and "voter_node_chain_cf bc to = voter_node_chain_cf bc from"
  shows "\<exists>A R c k. meet_chains bc to l from l added removed = Ok (added @ A, removed @ R) \<and>
    chain_votes bc l to = A @ chain_votes bc k c \<and> chain_votes bc l from = R @ chain_votes bc k c \<and>
    voter_node_level_cf bc c = Some k"
  using assms(3-)
proof (induction l arbitrary: to "from" added removed)
  case 0
  then have eq: "to = from" using genesis_unique [OF inv] by blast
  show ?case
    by (rule exI [of _ "[]"], rule exI [of _ "[]"], rule exI [of _ "from"], rule exI [of _ 0]) (use 0 eq in \<open>simp add: meet_chains.simps\<close>)
next
  case (Suc l)
  show ?case
  proof (cases "to = from")
    case True
    show ?thesis
      by (rule exI [of _ "[]"], rule exI [of _ "[]"], rule exI [of _ "from"], rule exI [of _ "Suc l"])
         (use Suc.prems True in \<open>simp add: meet_chains.simps del: chain_votes.simps\<close>)
  next
    case False
    from voter_parent_obtain [OF inv(1) Suc.prems(1)] obtain p vs where
      p: "voter_parent_neighbor_cf bc to = Some p" "voter_node_level_cf bc p = Some l"
        "vote_neighbor_cf bc to = Some vs" "voter_node_chain_cf bc p = voter_node_chain_cf bc to" by metis
    from voter_parent_obtain [OF inv(1) Suc.prems(2)] obtain q ws where
      q: "voter_parent_neighbor_cf bc from = Some q" "voter_node_level_cf bc q = Some l"
        "vote_neighbor_cf bc from = Some ws" "voter_node_chain_cf bc q = voter_node_chain_cf bc from" by metis
    have ch: "voter_node_chain_cf bc p = voter_node_chain_cf bc q" using p(4) q(4) Suc.prems(3) by simp
    from Suc.IH [OF p(2) q(2) ch, of "added @ map (\<lambda>v. (v, Suc l)) vs" "removed @ map (\<lambda>v. (v, Suc l)) ws"]
    obtain A R c k where ih: "meet_chains bc p l q l (added @ map (\<lambda>v. (v, Suc l)) vs) (removed @ map (\<lambda>v. (v, Suc l)) ws) =
        Ok ((added @ map (\<lambda>v. (v, Suc l)) vs) @ A, (removed @ map (\<lambda>v. (v, Suc l)) ws) @ R)"
      "chain_votes bc l p = A @ chain_votes bc k c" "chain_votes bc l q = R @ chain_votes bc k c"
      "voter_node_level_cf bc c = Some k"
      by blast
    show ?thesis
      by (rule exI [of _ "map (\<lambda>v. (v, Suc l)) vs @ A"], rule exI [of _ "map (\<lambda>v. (v, Suc l)) ws @ R"], rule exI [of _ c], rule exI [of _ k])
         (use False p q ih in \<open>simp add: meet_chains.simps [of bc to]\<close>)
  qed
qed

lemma vote_diff_votes:
  assumes "voter_inv bc" and "voter_node_level_cf bc to = Some tlev" and "voter_node_level_cf bc from = Some flev"
    and "voter_node_chain_cf bc to = voter_node_chain_cf bc from"
  shows "\<exists>A R c k. vote_diff from to bc = Ok (A, R) \<and> tip_votes bc to = A @ chain_votes bc k c \<and>
    tip_votes bc from = R @ chain_votes bc k c \<and> voter_node_level_cf bc c = Some k"
proof -
  have inv: "voter_tree_inv bc" "length (voter_genesis (config bc)) = num_chains bc"
    using assms(1) by (simp_all add: voter_inv_def voter_best_invD(1))
  from equal_levels_votes [OF inv(1) assms(2,3), of "[]" "[]"] obtain to' from' l A R where
    e: "equal_levels bc to tlev from flev [] [] = Ok (to', l, from', l, A, R)"
      "voter_node_level_cf bc to' = Some l" "voter_node_level_cf bc from' = Some l"
      "voter_node_chain_cf bc to' = voter_node_chain_cf bc to"
      "voter_node_chain_cf bc from' = voter_node_chain_cf bc from"
      "chain_votes bc tlev to = A @ chain_votes bc l to'" "chain_votes bc flev from = R @ chain_votes bc l from'"
    by auto
  have "voter_node_chain_cf bc to' = voter_node_chain_cf bc from'" using e(4,5) assms(4) by simp
  from meet_chains_votes [OF inv e(2,3) this, of A R] obtain A' R' c k where
    m: "meet_chains bc to' l from' l A R = Ok (A @ A', R @ R')"
      "chain_votes bc l to' = A' @ chain_votes bc k c" "chain_votes bc l from' = R' @ chain_votes bc k c"
      "voter_node_level_cf bc c = Some k"
    by blast
  show ?thesis
    by (rule exI [of _ "A @ A'"], rule exI [of _ "R @ R'"], rule exI [of _ c], rule exI [of _ k])
       (use e(1,6,7) m assms(2,3) in \<open>simp add: vote_diff_def tip_votes_def\<close>)
qed

section \<open>One vote per level\<close>

lemma chain_votes_levels:
  assumes "voter_tree_inv bc" "proposer_node_level_cf bc (proposer_genesis (config bc)) = Some 0"
    and "voter_node_level_cf bc v = Some l" and "voter_node_voted_level_cf bc v = Some e"
  shows "distinct (map (proposer_node_level_cf bc \<circ> fst) (chain_votes bc l v)) \<and>
    (proposer_node_level_cf bc \<circ> fst) ` set (chain_votes bc l v) = Some ` {0..e} \<and>
    snd ` set (chain_votes bc l v) \<subseteq> {0..l}"
  using assms(3,4)
proof (induction l arbitrary: v e)
  case 0
  then have "v \<in> set (voter_genesis (config bc))" using voter_tree_invD(4) [OF assms(1)] by blast
  then have "vote_neighbor_cf bc v = Some [proposer_genesis (config bc)]" "e = 0"
    using voter_tree_invD(6) [OF assms(1)] 0 by auto
  then show ?case using assms(2) by simp
next
  case (Suc l)
  from voter_parent_obtain [OF assms(1) Suc.prems(1)] obtain p vs s where
    p: "voter_parent_neighbor_cf bc v = Some p" "voter_node_level_cf bc p = Some l"
      "vote_neighbor_cf bc v = Some vs" "voter_node_voted_level_cf bc p = Some s" "s \<le> e"
      "map (proposer_node_level_cf bc) vs = map Some [s + 1..<e + 1]"
    using Suc.prems(2) by (metis option.inject)
  note IH = Suc.IH [OF p(2,4)]
  have head: "map (proposer_node_level_cf bc \<circ> fst) (map (\<lambda>h. (h, Suc l)) vs) = map Some [s + 1..<e + 1]"
    using p(6) by (simp add: comp_def)
  have lev: "map (proposer_node_level_cf bc \<circ> fst) (chain_votes bc (Suc l) v) =
      map Some [s + 1..<e + 1] @ map (proposer_node_level_cf bc \<circ> fst) (chain_votes bc l p)"
    using p(1,3) by (simp only: chain_votes.simps option.case map_append head)
  have "(proposer_node_level_cf bc \<circ> fst) ` set (chain_votes bc (Suc l) v) =
      Some ` set [s + 1..<e + 1] \<union> Some ` {0..s}"
    using IH unfolding set_map [symmetric] lev set_append by simp
  also have "\<dots> = Some ` {0..e}" using p(5) by (auto simp: image_iff simp del: upt_Suc)
  finally have img: "(proposer_node_level_cf bc \<circ> fst) ` set (chain_votes bc (Suc l) v) = Some ` {0..e}" .
  have "distinct (map Some [s + 1..<e + 1] @ map (proposer_node_level_cf bc \<circ> fst) (chain_votes bc l p))"
    using IH unfolding distinct_append set_map [of "proposer_node_level_cf bc \<circ> fst"]
    by (auto simp: distinct_map comp_def simp del: upt_Suc)
  then have "distinct (map (proposer_node_level_cf bc \<circ> fst) (chain_votes bc (Suc l) v))"
    by (simp only: lev)
  moreover have "snd ` set (chain_votes bc (Suc l) v) \<subseteq> {0..Suc l}"
    using IH p(1,3) by (fastforce simp: image_Un)
  ultimately show ?case using img by blast
qed

text \<open>A tip votes for a block at most once, and for at most one block of each level.\<close>

lemma tip_votes_distinct:
  assumes "chain_inv bc" and "voter_node_chain_cf bc v = Some i"
  shows "distinct (map (proposer_node_level_cf bc \<circ> fst) (tip_votes bc v))"
    and "\<exists>e. (proposer_node_level_cf bc \<circ> fst) ` set (tip_votes bc v) = Some ` {0..e}"
    and "\<exists>l. voter_node_level_cf bc v = Some l \<and> snd ` set (tip_votes bc v) \<subseteq> {0..l}"
proof -
  have inv: "voter_tree_inv bc" "proposer_levels_inv bc"
    using assms(1) by (simp_all add: chain_inv_def voter_inv_def proposer_inv_def)
  obtain l where l: "voter_node_level_cf bc v = Some l"
    using voter_tree_invD(1) [OF inv(1)] assms(2) by (metis domD domI)
  obtain e where e: "voter_node_voted_level_cf bc v = Some e"
    using voter_tree_invD(2) [OF inv(1)] l by (metis domD domI)
  have "proposer_node_level_cf bc (proposer_genesis (config bc)) = Some 0"
    using proposer_levels_invD(1) [OF inv(2)] by blast
  note lv = chain_votes_levels [OF inv(1) this l e]
  then show "distinct (map (proposer_node_level_cf bc \<circ> fst) (tip_votes bc v))"
    and "\<exists>e. (proposer_node_level_cf bc \<circ> fst) ` set (tip_votes bc v) = Some ` {0..e}"
    and "\<exists>l. voter_node_level_cf bc v = Some l \<and> snd ` set (tip_votes bc v) \<subseteq> {0..l}"
    using l by (auto simp: tip_votes_def)
qed

section \<open>The votes recorded with the proposer blocks\<close>

type_synonym node_votes = "h256 \<rightharpoonup> (nat \<times> nat) list"

definition recorded :: "node_votes \<Rightarrow> h256 \<Rightarrow> (nat \<times> nat) list" where
  "recorded cf h = (case cf h of Some d \<Rightarrow> d | None \<Rightarrow> [])"

definition all_distinct :: "node_votes \<Rightarrow> bool" where
  "all_distinct cf \<longleftrightarrow> (\<forall>h. distinct (recorded cf h))"

text \<open>The recorded votes are those of the tips that the ledger has seen.\<close>

definition votes_inv :: "blockchain \<Rightarrow> bool" where
  "votes_inv bc \<longleftrightarrow>
     length (voter_ledger_tips bc) = num_chains bc \<and>
     (\<forall>i < num_chains bc. voter_node_chain_cf bc (voter_ledger_tips bc ! i) = Some i) \<and>
     all_distinct (proposer_node_vote_cf bc) \<and>
     (\<forall>h i l. (i, l) \<in> set (recorded (proposer_node_vote_cf bc) h) \<longleftrightarrow>
        i < num_chains bc \<and> (h, l) \<in> set (tip_votes bc (voter_ledger_tips bc ! i)))"

lemma recorded_upd: "recorded (cf(h \<mapsto> d)) h' = (if h' = h then d else recorded cf h')"
  by (simp add: recorded_def)

lemma merge_vote_add:
  "merge_vote h [(True, i, l)] cf = Ok (cf(h \<mapsto> push_new (i, l) (recorded cf h)))"
  by (simp add: merge_vote_def vote_vec_full_merge_def apply_vote_def recorded_def)

lemma merge_vote_remove:
  assumes "(i, l) \<in> set (recorded cf h)" and "all_distinct cf"
  shows "\<exists>d. merge_vote h [(False, i, l)] cf = Ok (cf(h \<mapsto> d)) \<and> distinct d \<and>
    set d = set (recorded cf h) - {(i, l)}"
proof -
  let ?xs = "recorded cf h"
  have dist: "distinct ?xs" using assms(2) by (simp add: all_distinct_def)
  obtain p where p: "position (\<lambda>x. fst x = i \<and> snd x = l) ?xs = Some p"
    using position_total [OF assms(1), of "\<lambda>x. fst x = i \<and> snd x = l"] by auto
  then have at: "p < length ?xs" "?xs ! p = (i, l)" using position_Some [OF p] by (auto simp: prod_eq_iff)
  have "merge_vote h [(False, i, l)] cf = Ok (cf(h \<mapsto> swap_remove ?xs p))"
    using p by (simp add: merge_vote_def vote_vec_full_merge_def apply_vote_def recorded_def)
  moreover have "distinct (swap_remove ?xs p)" using at dist by (simp add: distinct_swap_remove)
  moreover have "set (swap_remove ?xs p) = set ?xs - {(i, l)}"
  proof -
    have "mset (swap_remove ?xs p) = mset_set (set ?xs) - {#(i, l)#}"
      using mset_swap_remove [OF at(1)] at(2) dist by (simp add: mset_set_set)
    then have "set_mset (mset (swap_remove ?xs p)) = set_mset (mset_set (set ?xs - {(i, l)}))"
      using assms(1) by (simp add: mset_set_Diff)
    then show ?thesis by simp
  qed
  ultimately show ?thesis by blast
qed

text \<open>The range of affected levels only widens, and contains every level that was touched.\<close>

definition touched :: "range \<Rightarrow> range \<Rightarrow> nat set \<Rightarrow> bool" where
  "touched r r' ls \<longleftrightarrow> fst r' \<le> fst r \<and> snd r \<le> snd r' \<and> ls \<subseteq> {fst r'..<snd r'} \<and>
     (\<forall>m. (\<forall>l \<in> ls. m \<le> l) \<longrightarrow> m \<le> fst r \<longrightarrow> m \<le> fst r') \<and>
     (\<forall>m. (\<forall>l \<in> ls. l < m) \<longrightarrow> snd r \<le> m \<longrightarrow> snd r' \<le> m)"

lemma touched_refl: "touched r r {}"
  by (simp add: touched_def)

lemma touched_affect: "touched (affect l r) r' ls \<Longrightarrow> touched r r' (insert l ls)"
  by (auto simp: touched_def affect_def split: if_splits)

lemma touched_trans: "touched r r' ls \<Longrightarrow> touched r' r'' ls' \<Longrightarrow> touched r r'' (ls \<union> ls')"
  by (fastforce simp: touched_def)

abbreviation with_votes :: "blockchain \<Rightarrow> node_votes \<Rightarrow> blockchain" where
  "with_votes bc cf \<equiv> bc\<lparr>proposer_node_vote_cf := cf\<rparr>"

definition vote_levels :: "blockchain \<Rightarrow> cast_votes \<Rightarrow> nat set" where
  "vote_levels bc vs = {l. \<exists>v \<in> set vs. proposer_node_level_cf bc (fst v) = Some l}"

lemma remove_votes:
  assumes "distinct R" and "all_distinct cf"
    and "\<And>h l. (h, l) \<in> set R \<Longrightarrow> (i, l) \<in> set (recorded cf h)"
    and "\<And>v. v \<in> set R \<Longrightarrow> proposer_node_level_cf bc (fst v) \<noteq> None"
  shows "\<exists>cf' r'. rfold (apply_vote_change False i) R (with_votes bc cf, r) = Ok (with_votes bc cf', r') \<and>
    all_distinct cf' \<and> touched r r' (vote_levels bc R) \<and>
    (\<forall>h. set (recorded cf' h) = set (recorded cf h) - {(i, l) |l. (h, l) \<in> set R})"
  using assms
proof (induction R arbitrary: cf r)
  case Nil
  then show ?case by (auto simp: vote_levels_def touched_refl)
next
  case (Cons v R)
  obtain h l where v: "v = (h, l)" by (cases v)
  obtain d where d: "merge_vote h [(False, i, l)] cf = Ok (cf(h \<mapsto> d))" "distinct d"
    "set d = set (recorded cf h) - {(i, l)}"
    using merge_vote_remove [OF Cons.prems(3) Cons.prems(2), of h l] v by auto
  obtain k where k: "proposer_node_level_cf bc h = Some k" using Cons.prems(4) [of v] v by auto
  let ?cf = "cf(h \<mapsto> d)"
  have step: "apply_vote_change False i v (with_votes bc cf, r) = Ok (with_votes bc ?cf, affect k r)"
    using d(1) k v by (simp add: apply_vote_change_def)
  have dist: "all_distinct ?cf" using Cons.prems(2) d(2) by (simp add: all_distinct_def recorded_upd)
  have rec: "(i, l') \<in> set (recorded ?cf h')" if "(h', l') \<in> set R" for h' l'
    using Cons.prems(1,3) that d(3) v by (auto simp: recorded_upd)
  have lev: "proposer_node_level_cf bc (fst w) \<noteq> None" if "w \<in> set R" for w
    by (rule Cons.prems(4)) (simp add: that)
  have "distinct R" using Cons.prems(1) by simp
  from Cons.IH [OF this dist rec lev] obtain cf' r' where
    ih: "rfold (apply_vote_change False i) R (with_votes bc ?cf, affect k r) = Ok (with_votes bc cf', r')"
      "all_distinct cf'" "touched (affect k r) r' (vote_levels bc R)"
      "\<forall>h. set (recorded cf' h) = set (recorded ?cf h) - {(i, l) |l. (h, l) \<in> set R}"
    by blast
  have "vote_levels bc (v # R) = insert k (vote_levels bc R)" using k v by (auto simp: vote_levels_def)
  with ih(3) have "touched r r' (vote_levels bc (v # R))" by (simp add: touched_affect)
  moreover have "\<forall>h. set (recorded cf' h) = set (recorded cf h) - {(i, l) |l. (h, l) \<in> set (v # R)}"
    unfolding ih(4) [THEN spec] recorded_upd using d(3) v by auto
  ultimately show ?case using step ih(1,2) by (auto simp del: fun_upd_apply)
qed

lemma set_push_new: "set (push_new x xs) = insert x (set xs)" "distinct xs \<Longrightarrow> distinct (push_new x xs)"
  by (auto simp: push_new_def)

lemma add_votes:
  assumes "all_distinct cf" and "\<And>v. v \<in> set A \<Longrightarrow> proposer_node_level_cf bc (fst v) \<noteq> None"
  shows "\<exists>cf' r'. rfold (apply_vote_change True i) A (with_votes bc cf, r) = Ok (with_votes bc cf', r') \<and>
    all_distinct cf' \<and> touched r r' (vote_levels bc A) \<and>
    (\<forall>h. set (recorded cf' h) = set (recorded cf h) \<union> {(i, l) |l. (h, l) \<in> set A})"
  using assms
proof (induction A arbitrary: cf r)
  case Nil
  then show ?case by (auto simp: vote_levels_def touched_refl)
next
  case (Cons v A)
  obtain h l where v: "v = (h, l)" by (cases v)
  let ?cf = "cf(h \<mapsto> push_new (i, l) (recorded cf h))"
  obtain k where k: "proposer_node_level_cf bc h = Some k" using Cons.prems(2) [of v] v by auto
  have step: "apply_vote_change True i v (with_votes bc cf, r) = Ok (with_votes bc ?cf, affect k r)"
    using k v by (simp add: apply_vote_change_def merge_vote_add)
  have dist: "all_distinct ?cf"
    using Cons.prems(1) by (simp add: all_distinct_def recorded_upd set_push_new(2))
  have lev: "proposer_node_level_cf bc (fst w) \<noteq> None" if "w \<in> set A" for w
    by (rule Cons.prems(2)) (simp add: that)
  from Cons.IH [OF dist lev] obtain cf' r' where
    ih: "rfold (apply_vote_change True i) A (with_votes bc ?cf, affect k r) = Ok (with_votes bc cf', r')"
      "all_distinct cf'" "touched (affect k r) r' (vote_levels bc A)"
      "\<forall>h. set (recorded cf' h) = set (recorded ?cf h) \<union> {(i, l) |l. (h, l) \<in> set A}"
    by blast
  have "vote_levels bc (v # A) = insert k (vote_levels bc A)" using k v by (auto simp: vote_levels_def)
  with ih(3) have "touched r r' (vote_levels bc (v # A))" by (simp add: touched_affect)
  moreover have "\<forall>h. set (recorded cf' h) = set (recorded cf h) \<union> {(i, l) |l. (h, l) \<in> set (v # A)}"
    unfolding ih(4) [THEN spec] recorded_upd using v by (auto simp: set_push_new(1))
  ultimately show ?case using step ih(1,2) by (auto simp del: fun_upd_apply)
qed

section \<open>Following the voter chains\<close>

text \<open>A state that differs from \<open>bc\<close> in the recorded votes and the ledger tips only.\<close>

abbreviation with_tips :: "blockchain \<Rightarrow> node_votes \<Rightarrow> h256 list \<Rightarrow> blockchain" where
  "with_tips bc cf tips \<equiv> bc\<lparr>proposer_node_vote_cf := cf, voter_ledger_tips := tips\<rparr>"

lemma chain_votes_cong:
  assumes "vote_neighbor_cf bc' = vote_neighbor_cf bc" "voter_parent_neighbor_cf bc' = voter_parent_neighbor_cf bc"
  shows "chain_votes bc' l v = chain_votes bc l v"
  using assms by (induction l arbitrary: v) (simp_all split: option.split)

lemma tip_votes_cong:
  assumes "vote_neighbor_cf bc' = vote_neighbor_cf bc" "voter_parent_neighbor_cf bc' = voter_parent_neighbor_cf bc"
    "voter_node_level_cf bc' = voter_node_level_cf bc"
  shows "tip_votes bc' v = tip_votes bc v"
  using assms chain_votes_cong [of bc' bc] by (simp add: tip_votes_def cong: option.case_cong)

lemma equal_levels_cong:
  assumes "vote_neighbor_cf bc' = vote_neighbor_cf bc" "voter_parent_neighbor_cf bc' = voter_parent_neighbor_cf bc"
  shows "equal_levels bc' to m from n added removed = equal_levels bc to m from n added removed"
  using assms
  by (induction bc to m "from" n added removed rule: equal_levels.induct)
     (subst (1 2) equal_levels.simps, simp cong: rbind_cong)

lemma meet_chains_cong:
  assumes "vote_neighbor_cf bc' = vote_neighbor_cf bc" "voter_parent_neighbor_cf bc' = voter_parent_neighbor_cf bc"
  shows "meet_chains bc' to m from n added removed = meet_chains bc to m from n added removed"
  using assms
  by (induction m arbitrary: to "from" n added removed; subst (1 2) meet_chains.simps) (simp_all cong: if_cong)

lemma vote_diff_cong:
  assumes "vote_neighbor_cf bc' = vote_neighbor_cf bc" "voter_parent_neighbor_cf bc' = voter_parent_neighbor_cf bc"
    "voter_node_level_cf bc' = voter_node_level_cf bc"
  shows "vote_diff from to bc' = vote_diff from to bc"
  using assms by (simp add: vote_diff_def equal_levels_cong [of bc' bc] meet_chains_cong [of bc' bc])

lemma tip_votes_with_tips [simp]: "tip_votes (with_tips bc cf tips) v = tip_votes bc v"
  by (rule tip_votes_cong) simp_all

lemma vote_diff_with_tips [simp]: "vote_diff from to (with_tips bc cf tips) = vote_diff from to bc"
  by (rule vote_diff_cong) simp_all

lemma with_tips_commute: "with_tips bc cf tips = with_votes (bc\<lparr>voter_ledger_tips := tips\<rparr>) cf"
  by simp

lemma vote_diff_with_votes [simp]:
  "vote_diff from to (with_votes (bc\<lparr>voter_ledger_tips := tips\<rparr>) cf) = vote_diff from to bc"
  by (rule vote_diff_cong) simp_all

lemma votes_invD:
  assumes "votes_inv bc"
  shows "length (voter_ledger_tips bc) = num_chains bc"
    "i < num_chains bc \<Longrightarrow> voter_node_chain_cf bc (voter_ledger_tips bc ! i) = Some i"
    "all_distinct (proposer_node_vote_cf bc)"
    "(i, l) \<in> set (recorded (proposer_node_vote_cf bc) h) \<longleftrightarrow>
       i < num_chains bc \<and> (h, l) \<in> set (tip_votes bc (voter_ledger_tips bc ! i))"
  using assms by (simp_all add: votes_inv_def)

lemma num_chains_with_tips [simp]: "num_chains (with_tips bc cf tips) = num_chains bc"
  by (simp add: num_chains_def)

text \<open>What separates the votes of two tips of a chain lies on levels that their common part does not
  vote on, level 0 among the latter.\<close>

lemma vote_diff_levels:
  assumes inv: "chain_inv bc" and ch: "voter_node_chain_cf bc to = Some i" "voter_node_chain_cf bc from = Some i"
  shows "\<exists>A R C. vote_diff from to bc = Ok (A, R) \<and> tip_votes bc to = A @ C \<and> tip_votes bc from = R @ C \<and>
    distinct R \<and> set R \<inter> set C = {} \<and>
    (\<forall>v \<in> set A \<union> set R. \<exists>l. proposer_node_level_cf bc (fst v) = Some l \<and> 0 < l)"
proof -
  have vinv: "voter_inv bc" "voter_tree_inv bc" "proposer_levels_inv bc"
    using inv by (simp_all add: chain_inv_def voter_inv_def proposer_inv_def)
  have dom: "v \<in> dom (voter_node_level_cf bc)" if "voter_node_chain_cf bc v = Some i" for v
    using voter_tree_invD(1) [OF vinv(2)] that by blast
  obtain m n where "voter_node_level_cf bc to = Some m" "voter_node_level_cf bc from = Some n"
    using dom [OF ch(1)] dom [OF ch(2)] by blast
  from vote_diff_votes [OF vinv(1) this] obtain A R c k where
    d: "vote_diff from to bc = Ok (A, R)" "tip_votes bc to = A @ chain_votes bc k c"
      "tip_votes bc from = R @ chain_votes bc k c" "voter_node_level_cf bc c = Some k"
    using ch by auto
  let ?C = "chain_votes bc k c" and ?lev = "proposer_node_level_cf bc \<circ> fst"
  obtain e where e: "voter_node_voted_level_cf bc c = Some e"
    using voter_tree_invD(2) [OF vinv(2)] d(4) by (metis domD domI)
  have g: "proposer_node_level_cf bc (proposer_genesis (config bc)) = Some 0"
    using proposer_levels_invD(1) [OF vinv(3)] by blast
  have "?lev ` set ?C = Some ` {0..e}" using chain_votes_levels [OF vinv(2) g d(4) e] by blast
  then have zero: "Some 0 \<in> ?lev ` set ?C" by simp
  have sep: "distinct xs \<and> set xs \<inter> set ?C = {} \<and> (\<forall>v \<in> set xs. \<exists>l. proposer_node_level_cf bc (fst v) = Some l \<and> 0 < l)"
    if "tip_votes bc w = xs @ ?C" "voter_node_chain_cf bc w = Some i" for w xs
  proof -
    have dist: "distinct (map ?lev (xs @ ?C))" using tip_votes_distinct(1) [OF inv that(2)] that(1) by simp
    have lev: "\<forall>v \<in> set xs. \<exists>l. ?lev v = Some l"
      using tip_votes_distinct(2) [OF inv that(2)] that(1) by (auto simp: image_Un)
    have "?lev ` set xs \<inter> ?lev ` set ?C = {}" using dist by simp
    then have "?lev v \<noteq> Some 0" if "v \<in> set xs" for v
      using zero that by (metis disjoint_iff imageI)
    with lev have "\<forall>v \<in> set xs. \<exists>l. proposer_node_level_cf bc (fst v) = Some l \<and> 0 < l" by fastforce
    moreover have "distinct xs \<and> set xs \<inter> set ?C = {}"
      using dist unfolding distinct_map by simp
    ultimately show ?thesis by blast
  qed
  show ?thesis
    using d(1,2,3) sep [OF d(2) ch(1)] sep [OF d(3) ch(2)] by (metis UnE)
qed

lemma update_chain_votes_step:
  assumes inv: "chain_inv bc" and vinv: "votes_inv (with_tips bc cf tips)" and i: "i < num_chains bc"
  defines "tips' \<equiv> tips[i := fst (voter_best bc ! i)]"
  shows "\<exists>cf' r' ls. update_chain_votes i (with_tips bc cf tips, r) = Ok (with_tips bc cf' tips', r') \<and>
    votes_inv (with_tips bc cf' tips') \<and> touched r r' ls \<and> ls \<subseteq> {1..proposer_best_level bc} \<and>
    (\<forall>h l. proposer_node_level_cf bc h = Some l \<longrightarrow> l \<notin> ls \<longrightarrow> set (recorded cf' h) = set (recorded cf h))"
proof -
  note V = votes_invD [OF vinv, simplified]
  have best: "voter_best_inv bc" and plev: "proposer_levels_inv bc"
    using inv by (simp_all add: chain_inv_def voter_inv_def proposer_inv_def)
  let ?to = "fst (voter_best bc ! i)" and ?from = "tips ! i"
  have ch: "voter_node_chain_cf bc ?to = Some i" "voter_node_chain_cf bc ?from = Some i"
    using voter_best_invD(4) [OF best i] V(2) [OF i] by simp_all
  obtain A R C where d: "vote_diff ?from ?to bc = Ok (A, R)" "tip_votes bc ?to = A @ C"
    "tip_votes bc ?from = R @ C" "distinct R" "set R \<inter> set C = {}"
    "\<forall>v \<in> set A \<union> set R. \<exists>l. proposer_node_level_cf bc (fst v) = Some l \<and> 0 < l"
    using vote_diff_levels [OF inv ch] by blast
  let ?bc = "bc\<lparr>voter_ledger_tips := tips'\<rparr>"
  have levs: "v \<in> set A \<union> set R \<Longrightarrow> proposer_node_level_cf ?bc (fst v) \<noteq> None" for v using d(6) by fastforce
  have rec: "(i, l) \<in> set (recorded cf h)" if "(h, l) \<in> set R" for h l
    using V(4) [of i l h] d(3) i that by simp
  obtain cf1 r1 where c1: "rfold (apply_vote_change False i) R (with_votes ?bc cf, r) = Ok (with_votes ?bc cf1, r1)"
    "all_distinct cf1" "touched r r1 (vote_levels ?bc R)"
    "\<And>h. set (recorded cf1 h) = set (recorded cf h) - {(i, l) |l. (h, l) \<in> set R}"
    using remove_votes [OF d(4) V(3) rec levs, of r] by blast
  obtain cf2 r2 where c2: "rfold (apply_vote_change True i) A (with_votes ?bc cf1, r1) = Ok (with_votes ?bc cf2, r2)"
    "all_distinct cf2" "touched r1 r2 (vote_levels ?bc A)"
    "\<And>h. set (recorded cf2 h) = set (recorded cf1 h) \<union> {(i, l) |l. (h, l) \<in> set A}"
    using add_votes [OF c1(2) levs, of A i r1] by blast
  let ?ls = "vote_levels ?bc R \<union> vote_levels ?bc A"
  have "update_chain_votes i (with_tips bc cf tips, r) = Ok (with_tips bc cf2 tips', r2)"
    using i V(1) voter_best_invD(2) [OF best] d(1) c1(1) c2(1)
    by (simp add: update_chain_votes_def tips'_def with_tips_commute)
  moreover have "votes_inv (with_tips bc cf2 tips')"
    unfolding votes_inv_def
  proof (intro conjI allI impI)
    fix j
    assume "j < num_chains (with_tips bc cf2 tips')"
    then show "voter_node_chain_cf (with_tips bc cf2 tips') (voter_ledger_tips (with_tips bc cf2 tips') ! j) = Some j"
      using V(1,2) ch(1) by (cases "j = i") (simp_all add: tips'_def)
  next
    fix h j l
    have "(j, l) \<in> set (recorded cf2 h) \<longleftrightarrow>
        (j, l) \<in> set (recorded cf h) \<and> \<not> (j = i \<and> (h, l) \<in> set R) \<or> j = i \<and> (h, l) \<in> set A"
      by (auto simp: c1(4) c2(4))
    also have "\<dots> \<longleftrightarrow> j < num_chains bc \<and> (h, l) \<in> set (tip_votes bc (tips' ! j))"
      using V(1) i d(2,3,5) V(4) [of j l h] by (cases "j = i") (auto simp: tips'_def)
    finally show "(j, l) \<in> set (recorded (proposer_node_vote_cf (with_tips bc cf2 tips')) h) \<longleftrightarrow>
        j < num_chains (with_tips bc cf2 tips') \<and>
        (h, l) \<in> set (tip_votes (with_tips bc cf2 tips') (voter_ledger_tips (with_tips bc cf2 tips') ! j))"
      by simp
  qed (use V(1) c2(2) in \<open>simp_all add: tips'_def\<close>)
  moreover have "touched r r2 ?ls" using touched_trans [OF c1(3) c2(3)] .
  moreover have "?ls \<subseteq> {1..proposer_best_level bc}"
  proof
    fix l
    assume "l \<in> ?ls"
    then obtain v where v: "v \<in> set A \<union> set R" "proposer_node_level_cf bc (fst v) = Some l"
      by (auto simp: vote_levels_def)
    from bspec [OF d(6) v(1)] v(2) have "0 < l" by auto
    then show "l \<in> {1..proposer_best_level bc}" using proposer_levels_invD(2) [OF plev v(2)] by simp
  qed
  moreover have "set (recorded cf2 h) = set (recorded cf h)"
    if "proposer_node_level_cf bc h = Some l" "l \<notin> ?ls" for h l
  proof -
    have "\<forall>m. (h, m) \<notin> set R \<and> (h, m) \<notin> set A"
      using that unfolding vote_levels_def by force
    then show ?thesis by (simp add: c1(4) c2(4))
  qed
  ultimately show ?thesis by blast
qed

text \<open>After the loop over all chains the ledger tips are the best voter blocks.\<close>

lemma update_votes_loop:
  assumes inv: "chain_inv bc" and vinv: "votes_inv bc"
  shows "\<exists>cf r ls. rfold update_chain_votes [0..<num_chains bc] (bc, r0) =
      Ok (with_tips bc cf (map fst (voter_best bc)), r) \<and>
    votes_inv (with_tips bc cf (map fst (voter_best bc))) \<and> touched r0 r ls \<and> ls \<subseteq> {1..proposer_best_level bc} \<and>
    (\<forall>h l. proposer_node_level_cf bc h = Some l \<longrightarrow> l \<notin> ls \<longrightarrow>
       set (recorded cf h) = set (recorded (proposer_node_vote_cf bc) h))"
proof -
  let ?n = "num_chains bc" and ?old = "voter_ledger_tips bc"
  let ?tips = "\<lambda>k. map fst (take k (voter_best bc)) @ drop k ?old"
  have len: "length (voter_best bc) = ?n" "length ?old = ?n"
    using inv vinv by (simp_all add: chain_inv_def voter_inv_def voter_best_invD(2) votes_invD(1))
  have "\<exists>cf r ls. rfold update_chain_votes [0..<k] (bc, r0) = Ok (with_tips bc cf (?tips k), r) \<and>
      votes_inv (with_tips bc cf (?tips k)) \<and> touched r0 r ls \<and> ls \<subseteq> {1..proposer_best_level bc} \<and>
      (\<forall>h l. proposer_node_level_cf bc h = Some l \<longrightarrow> l \<notin> ls \<longrightarrow>
         set (recorded cf h) = set (recorded (proposer_node_vote_cf bc) h))" if "k \<le> ?n" for k
    using that
  proof (induction k)
    case 0
    have "with_tips bc (proposer_node_vote_cf bc) (?tips 0) = bc" by simp
    then show ?case
      using vinv touched_refl
      by (intro exI [of _ "proposer_node_vote_cf bc"] exI [of _ r0] exI [of _ "{}"]) simp
  next
    case (Suc k)
    then obtain cf r ls where ih: "rfold update_chain_votes [0..<k] (bc, r0) = Ok (with_tips bc cf (?tips k), r)"
      "votes_inv (with_tips bc cf (?tips k))" "touched r0 r ls" "ls \<subseteq> {1..proposer_best_level bc}"
      "\<forall>h l. proposer_node_level_cf bc h = Some l \<longrightarrow> l \<notin> ls \<longrightarrow>
         set (recorded cf h) = set (recorded (proposer_node_vote_cf bc) h)"
      by auto
    have k: "k < ?n" using Suc.prems by simp
    have "drop k ?old = ?old ! k # drop (Suc k) ?old" using k len by (simp add: Cons_nth_drop_Suc)
    then have tips: "(?tips k)[k := fst (voter_best bc ! k)] = ?tips (Suc k)"
      using k len by (simp add: list_update_append take_Suc_conv_app_nth)
    from update_chain_votes_step [OF inv ih(2) k, of r] obtain cf' r' ls' where
      st: "update_chain_votes k (with_tips bc cf (?tips k), r) = Ok (with_tips bc cf' (?tips (Suc k)), r')"
        "votes_inv (with_tips bc cf' (?tips (Suc k)))" "touched r r' ls'" "ls' \<subseteq> {1..proposer_best_level bc}"
        "\<forall>h l. proposer_node_level_cf bc h = Some l \<longrightarrow> l \<notin> ls' \<longrightarrow> set (recorded cf' h) = set (recorded cf h)"
      unfolding tips by blast
    have "rfold update_chain_votes [0..<Suc k] (bc, r0) = Ok (with_tips bc cf' (?tips (Suc k)), r')"
      using ih(1) st(1) by (simp add: rfold_append)
    moreover have "touched r0 r' (ls \<union> ls')" using touched_trans [OF ih(3) st(3)] .
    ultimately show ?case using st(2,4,5) ih(4,5)
      by (intro exI [of _ cf'] exI [of _ r'] exI [of _ "ls \<union> ls'"]) (simp del: upt_Suc)
  qed
  from this [OF order_refl] show ?thesis using len by simp
qed

end
