(* ===== verification/Prism_Leader.thy ===== *)
theory Prism_Leader
  imports Prism_Votes
begin

text \<open>
  The leader of a proposer level: the computation returns in every well-formed graph whose ledger has
  followed the voter chains, it picks a block of that level, and only when more votes than the
  threshold were cast on the level.
\<close>

section \<open>Counting the votes of a level\<close>

text \<open>The ledger has followed every voter chain to its best block.\<close>

definition caught_up :: "blockchain \<Rightarrow> bool" where
  "caught_up bc \<longleftrightarrow> chain_inv bc \<and> votes_inv bc \<and> voter_ledger_tips bc = map fst (voter_best bc)"

lemma caught_upD:
  assumes "caught_up bc"
  shows "chain_inv bc" "votes_inv bc" "voter_ledger_tips bc = map fst (voter_best bc)"
    "length (voter_best bc) = num_chains bc" "voter_best_inv bc" "proposer_levels_inv bc"
  using assms by (simp_all add: caught_up_def chain_inv_def voter_inv_def proposer_inv_def voter_best_invD(2))

definition level_votes :: "blockchain \<Rightarrow> h256 list \<Rightarrow> nat" where
  "level_votes bc bs = sum_list (map (\<lambda>h. length (recorded (proposer_node_vote_cf bc) h)) bs)"

text \<open>Every chain votes at most once on a level.\<close>

lemma level_votes_le:
  assumes "caught_up bc" and "distinct bs" and "\<And>h. h \<in> set bs \<Longrightarrow> proposer_node_level_cf bc h = Some l"
  shows "level_votes bc bs \<le> num_chains bc"
proof -
  note C = caught_upD [OF assms(1)]
  let ?rec = "recorded (proposer_node_vote_cf bc)" and ?lev = "proposer_node_level_cf bc \<circ> fst"
  let ?P = "SIGMA h : set bs. set (?rec h)"
  have vote: "i < num_chains bc \<and> (h, k) \<in> set (tip_votes bc (voter_ledger_tips bc ! i))"
    if "(i, k) \<in> set (?rec h)" for h i k
    using votes_invD(4) [OF C(2)] that by blast
  have dist: "distinct (?rec h)" for h using votes_invD(3) [OF C(2)] by (simp add: all_distinct_def)
  have "level_votes bc bs = (\<Sum>h \<in> set bs. length (?rec h))"
    using assms(2) by (simp add: level_votes_def sum_list_distinct_conv_sum_set)
  also have "\<dots> = card ?P" by (simp add: card_SigmaI distinct_card [OF dist])
  also have "\<dots> \<le> card {..<num_chains bc}"
  proof (rule card_inj_on_le)
    show "inj_on (fst \<circ> snd) ?P"
    proof (rule inj_onI, clarsimp)
      fix h i k h' k'
      assume h: "h \<in> set bs" "(i, k) \<in> set (?rec h)" "h' \<in> set bs" "(i, k') \<in> set (?rec h')"
      let ?vs = "tip_votes bc (voter_ledger_tips bc ! i)"
      have "inj_on ?lev (set ?vs)"
        using tip_votes_distinct(1) [OF C(1) votes_invD(2) [OF C(2)], of i] vote [OF h(2)]
        by (simp add: distinct_map)
      moreover have "?lev (h, k) = ?lev (h', k')" using assms(3) h(1,3) by simp
      ultimately show "h = h' \<and> k = k'" using vote [OF h(2)] vote [OF h(4)] by (metis inj_on_def prod.inject)
    qed
    show "(fst \<circ> snd) ` ?P \<subseteq> {..<num_chains bc}" using vote by auto
  qed simp
  finally show ?thesis by simp
qed

lemma num_voter_blocks_total:
  assumes "voter_best_inv bc" and "i < num_chains bc"
  shows "\<exists>t. num_voter_blocks i k (snd (voter_best bc ! i)) bc = Ok t"
proof -
  have "\<exists>y. unwrap (voter_tree_level_count_cf bc (i, l)) = Ok y" if "l \<le> snd (voter_best bc ! i)" for l
    using voter_best_invD(6) [OF assms, of l] that by simp
  then show ?thesis
    unfolding num_voter_blocks_def
    by (intro rfold_total [where I = "\<lambda>_. True", simplified]) fastforce
qed

lemma vote_depths_total:
  assumes "caught_up bc" and "set vs \<subseteq> set (recorded (proposer_node_vote_cf bc) h)"
  shows "\<exists>ds t'. rfold (vote_depths bc) vs (ds0, c, t) = Ok (ds, c + word_of_nat (length vs), t')"
  using assms(2)
proof (induction vs arbitrary: ds0 c t)
  case (Cons v vs)
  note C = caught_upD [OF assms(1)]
  obtain i k where v: "v = (i, k)" by (cases v)
  have vote: "i < num_chains bc" "(h, k) \<in> set (tip_votes bc (voter_ledger_tips bc ! i))"
    using votes_invD(4) [OF C(2), of i k h] Cons.prems v by auto
  obtain b where b: "num_voter_blocks i k (snd (voter_best bc ! i)) bc = Ok b"
    using num_voter_blocks_total [OF C(5) vote(1)] by blast
  have tip: "voter_ledger_tips bc ! i = fst (voter_best bc ! i)" using C(3,4) vote(1) by simp
  have "k \<le> snd (voter_best bc ! i)"
    using tip_votes_distinct(3) [OF C(1) votes_invD(2) [OF C(2) vote(1)]] vote(2)
      voter_best_invD(3) [OF C(5) vote(1)] unfolding tip by force
  then have "vote_depths bc v (ds0, c, t) = Ok (ds0 @ [snd (voter_best bc ! i) - k + 1], c + 1, t + b)"
    using v vote(1) C(4) b by (simp add: vote_depths_def)
  with Cons.IH [of "ds0 @ [snd (voter_best bc ! i) - k + 1]" "c + 1" "t + b"] Cons.prems show ?case
    by (simp add: add.assoc)
qed simp

lemma collect_votes_total:
  assumes "caught_up bc"
  shows "\<exists>vd t'. rfold (collect_votes bc) bs (vd0, c, t) = Ok (vd, c + word_of_nat (level_votes bc bs), t') \<and>
    dom vd = dom vd0 \<union> set bs"
proof (induction bs arbitrary: vd0 c t)
  case (Cons h bs)
  let ?vs = "recorded (proposer_node_vote_cf bc) h"
  obtain ds t1 where d: "rfold (vote_depths bc) ?vs ([], c, t) = Ok (ds, c + word_of_nat (length ?vs), t1)"
    using vote_depths_total [OF assms order_refl] by blast
  obtain vd t' where ih: "rfold (collect_votes bc) bs (vd0(h \<mapsto> ds), c + word_of_nat (length ?vs), t1) =
      Ok (vd, c + word_of_nat (length ?vs) + word_of_nat (level_votes bc bs), t')"
    "dom vd = dom (vd0(h \<mapsto> ds)) \<union> set bs"
    using Cons.IH by blast
  have "collect_votes bc h (vd0, c, t) = Ok (vd0(h \<mapsto> ds), c + word_of_nat (length ?vs), t1)"
    using d by (simp add: collect_votes_def recorded_def split: option.splits)
  with ih show ?case by (simp add: level_votes_def add.assoc)
qed (simp add: level_votes_def)

section \<open>The leader\<close>

lemma lcb_loop_total:
  assumes "set bs \<subseteq> dom vd"
  shows "\<exists>s'. rfold (lcb_step st ratio rate q vd) bs s = Ok s' \<and> dom (votes_lcb s') = dom (votes_lcb s) \<union> set bs \<and>
    (\<forall>h. new_leader s' = Some h \<longrightarrow> new_leader s = Some h \<or> h \<in> set bs)"
  using assms
proof (induction bs arbitrary: s)
  case (Cons b bs)
  obtain ds where ds: "vd b = Some ds" using Cons.prems by auto
  obtain s1 where s1: "lcb_step st ratio rate q vd b s = Ok s1" "dom (votes_lcb s1) = insert b (dom (votes_lcb s))"
    "\<forall>h. new_leader s1 = Some h \<longrightarrow> new_leader s = Some h \<or> h = b"
    using ds by (auto simp: lcb_step_def Let_def split: option.splits)
  obtain s' where "rfold (lcb_step st ratio rate q vd) bs s1 = Ok s'"
    "dom (votes_lcb s') = dom (votes_lcb s1) \<union> set bs"
    "\<forall>h. new_leader s' = Some h \<longrightarrow> new_leader s1 = Some h \<or> h \<in> set bs"
    using Cons.IH [of s1] Cons.prems by auto
  with s1 show ?case by auto
qed simp

lemma check_overtake_total:
  assumes "set bs \<subseteq> dom lcbs"
  shows "check_overtake m r lcbs h bs = Ok None \<or> check_overtake m r lcbs h bs = Ok (Some h)"
  using assms by (induction bs) (auto split: if_splits)

lemma proposer_leader_cases:
  assumes "caught_up bc" and "proposer_tree_level_cf bc level = Some bs"
    and "distinct bs" and "\<And>h. h \<in> set bs \<Longrightarrow> proposer_node_level_cf bc h = Some level"
  shows "(\<exists>r. proposer_leader st level q bc = Ok r \<and>
      (\<forall>h. r = Some h \<longrightarrow> h \<in> set bs \<and> unat (voter_chains (config bc) * 3 div 5) < level_votes bc bs)) \<or>
    proposer_leader st level q bc = Panic UnwrapErr \<and> (\<exists>rate. \<not> poisson_new st rate)"
proof -
  let ?cfg = "config bc" and ?count = "word_of_nat (level_votes bc bs) :: u16"
  obtain vd t where c: "rfold (collect_votes bc) bs (Map.empty, 0, 0) = Ok (vd, ?count, t)" "dom vd = set bs"
    using collect_votes_total [OF assms(1), of bs Map.empty 0 0] by auto
  have le: "level_votes bc bs \<le> unat (voter_chains ?cfg)"
    using level_votes_le [OF assms(1,3,4)] by (simp add: num_chains_def)
  then have count: "unat ?count = level_votes bc bs"
    by (intro unat_of_nat_less) (rule le_less_trans [OF _ unat_lt2p])
  then have ok: "\<not> voter_chains ?cfg < ?count" using le by (simp add: word_less_nat_alt)
  define rate where "rate = fconv f64 (fmul f32 (fdiv f32 (fdiv f32 (f_of_nat f32 t) (f_of_nat f32 (unat ?count)))
    (fsub f32 f_one (adversary_ratio ?cfg))) (adversary_ratio ?cfg))"
  define s0 where "s0 = \<lparr>votes_lcb = Map.empty, total_votes_lcb = f_zero, max_vote_lcb = f_zero, new_leader = None :: h256 option\<rparr>"
  obtain s where s: "rfold (lcb_step st (adversary_ratio ?cfg) rate q vd) bs s0 = Ok s" "dom (votes_lcb s) = set bs"
    "\<And>h. new_leader s = Some h \<Longrightarrow> h \<in> set bs"
    using lcb_loop_total [of bs vd st "adversary_ratio ?cfg" rate q s0] c(2) by (auto simp: s0_def)
  show ?thesis
  proof (cases "voter_chains ?cfg * 3 div 5 < ?count")
    case False
    then show ?thesis using assms(2) c(1) ok by (simp add: proposer_leader_def Let_def)
  next
    case True
    then have quorum: "unat (voter_chains ?cfg * 3 div 5) < level_votes bc bs"
      using count by (simp add: word_less_nat_alt)
    show ?thesis
    proof (cases "poisson_new st rate")
      case False
      then show ?thesis using assms(2) c(1) ok True by (auto simp: proposer_leader_def Let_def rate_def)
    next
      case new: True
      let ?rem = "fsub f32 (f_of_nat f32 (unat (voter_chains ?cfg))) (total_votes_lcb s)"
      have "proposer_leader st level q bc =
          (if flt_le (max_vote_lcb s) ?rem then Ok None
           else case new_leader s of None \<Rightarrow> Ok None
             | Some l \<Rightarrow> check_overtake (max_vote_lcb s) ?rem (votes_lcb s) l bs)"
        using assms(2) c(1) ok True new s(1)
        by (simp add: proposer_leader_def Let_def rate_def [symmetric] s0_def [symmetric])
      then show ?thesis
        using quorum s(3) check_overtake_total [of bs "votes_lcb s" "max_vote_lcb s" ?rem] s(2)
        by (auto split: option.splits if_splits)
    qed
  qed
qed

end
