(* ===== verification/Prism_Ledger_Inv.thy ===== *)
theory Prism_Ledger_Inv
  imports Prism_Leader
begin

text \<open>
  The invariant of the ledger: the stored order is the one that the leader sequence determines, the
  ledger ends before the first level without a leader, and the unconfirmed blocks are exactly the
  proposer blocks outside of it.
\<close>

section \<open>States with the same block graph\<close>

text \<open>The ledger update changes the recorded votes, the ledger tips, the leaders, the order, the
  unconfirmed blocks and the tip of the ledger; the two trees stay.\<close>

definition same_graph :: "blockchain \<Rightarrow> blockchain \<Rightarrow> bool" where
  "same_graph bc bc' \<longleftrightarrow> (\<exists>nv tips ls order u t. bc' = bc\<lparr>proposer_node_vote_cf := nv, voter_ledger_tips := tips,
     proposer_leader_sequence_cf := ls, proposer_ledger_order_cf := order, unconfirmed_proposers := u,
     proposer_ledger_tip := t\<rparr>)"

lemma same_graph_refl: "same_graph bc bc"
  unfolding same_graph_def
  by (intro exI [of _ "proposer_node_vote_cf bc"] exI [of _ "voter_ledger_tips bc"]
      exI [of _ "proposer_leader_sequence_cf bc"] exI [of _ "proposer_ledger_order_cf bc"]
      exI [of _ "unconfirmed_proposers bc"] exI [of _ "proposer_ledger_tip bc"]) simp

lemma same_graph_simps:
  assumes "same_graph bc bc'"
  shows "proposer_node_level_cf bc' = proposer_node_level_cf bc" "voter_node_level_cf bc' = voter_node_level_cf bc"
    "voter_node_chain_cf bc' = voter_node_chain_cf bc" "voter_tree_level_count_cf bc' = voter_tree_level_count_cf bc"
    "proposer_tree_level_cf bc' = proposer_tree_level_cf bc"
    "voter_node_voted_level_cf bc' = voter_node_voted_level_cf bc"
    "proposer_vote_count_cf bc' = proposer_vote_count_cf bc" "parent_neighbor_cf bc' = parent_neighbor_cf bc"
    "vote_neighbor_cf bc' = vote_neighbor_cf bc" "voter_parent_neighbor_cf bc' = voter_parent_neighbor_cf bc"
    "transaction_ref_neighbor_cf bc' = transaction_ref_neighbor_cf bc"
    "proposer_ref_neighbor_cf bc' = proposer_ref_neighbor_cf bc" "proposer_best_level bc' = proposer_best_level bc"
    "voter_best bc' = voter_best bc" "unreferred_transactions bc' = unreferred_transactions bc"
    "unreferred_proposers bc' = unreferred_proposers bc" "config bc' = config bc" "perf bc' = perf bc"
    "num_chains bc' = num_chains bc"
  using assms by (auto simp: same_graph_def num_chains_def)

lemma same_graph_chain_inv:
  assumes "same_graph bc bc'" and "chain_inv bc"
  shows "chain_inv bc'"
  using assms(2)
  unfolding chain_inv_def proposer_inv_def proposer_levels_inv_def proposer_refs_inv_def unreferred_inv_def
    referred_def voter_inv_def voter_tree_inv_def voter_best_inv_def extends_def perf_inv_def
    same_graph_simps [OF assms(1)] .

lemma same_graph_votes_inv:
  assumes "same_graph bc bc'" and "proposer_node_vote_cf bc' = proposer_node_vote_cf bc"
    and "voter_ledger_tips bc' = voter_ledger_tips bc" and "votes_inv bc"
  shows "votes_inv bc'"
proof -
  have "tip_votes bc' v = tip_votes bc v" for v
    by (rule tip_votes_cong) (simp_all add: same_graph_simps [OF assms(1)])
  then show ?thesis using assms(2-4) by (simp add: votes_inv_def same_graph_simps [OF assms(1)])
qed

section \<open>The invariant\<close>

text \<open>The ledger holds exactly the levels below \<open>n\<close>.\<close>

definition ledger_at :: "blockchain \<Rightarrow> nat \<Rightarrow> bool" where
  "ledger_at bc n \<longleftrightarrow> leaders_ok bc \<and>
     (\<forall>l < n. proposer_leader_sequence_cf bc l \<noteq> None) \<and>
     (\<forall>l. proposer_ledger_order_cf bc l =
        (if l < n then map_option (level_blocks (proposer_ref_neighbor_cf bc) (set (ledger_blocks bc l)) l)
                         (proposer_leader_sequence_cf bc l)
         else None)) \<and>
     unconfirmed_proposers bc = dom (proposer_node_level_cf bc) - set (ledger_blocks bc n)"

definition ledger_inv :: "blockchain \<Rightarrow> bool" where
  "ledger_inv bc \<longleftrightarrow> ledger_at bc (proposer_ledger_tip bc + 1) \<and>
     proposer_leader_sequence_cf bc (proposer_ledger_tip bc + 1) = None"

text \<open>The blocks of the stored ledger, in their order.\<close>

definition stored_ledger :: "blockchain \<Rightarrow> nat \<Rightarrow> nat \<Rightarrow> h256 list" where
  "stored_ledger bc m n =
     concat (map (\<lambda>l. case proposer_ledger_order_cf bc l of Some bs \<Rightarrow> bs | None \<Rightarrow> []) [m..<n])"

definition ledger :: "blockchain \<Rightarrow> h256 list" where
  "ledger bc = stored_ledger bc 0 (proposer_ledger_tip bc + 1)"

lemma ledger_atD:
  assumes "ledger_at bc n"
  shows "leaders_ok bc" "l < n \<Longrightarrow> \<exists>h. proposer_leader_sequence_cf bc l = Some h"
    "unconfirmed_proposers bc = dom (proposer_node_level_cf bc) - set (ledger_blocks bc n)"
    "l < n \<Longrightarrow> proposer_leader_sequence_cf bc l = Some h \<Longrightarrow> proposer_ledger_order_cf bc l =
      Some (level_blocks (proposer_ref_neighbor_cf bc) (set (ledger_blocks bc l)) l h)"
    "\<not> l < n \<Longrightarrow> proposer_ledger_order_cf bc l = None"
  using assms by (auto simp: ledger_at_def)

lemma stored_ledger_blocks:
  assumes "ledger_at bc n" and "m \<le> k" and "k \<le> n"
  shows "ledger_blocks bc k = ledger_blocks bc m @ stored_ledger bc m k"
  using assms(2,3)
proof (induction k rule: dec_induct)
  case (step k)
  obtain h where h: "proposer_leader_sequence_cf bc k = Some h"
    using ledger_atD(2) [OF assms(1), of k] step.prems by auto
  have "proposer_ledger_order_cf bc k = Some (level_blocks (proposer_ref_neighbor_cf bc) (set (ledger_blocks bc k)) k h)"
    using ledger_atD(4) [OF assms(1) _ h] step.prems by simp
  then show ?case using h step by (simp add: stored_ledger_def)
qed (simp add: stored_ledger_def)

lemma ledger_ledger_blocks:
  assumes "ledger_inv bc"
  shows "ledger bc = ledger_blocks bc (proposer_ledger_tip bc + 1)"
  using stored_ledger_blocks [of bc "proposer_ledger_tip bc + 1" 0 "proposer_ledger_tip bc + 1"] assms
  by (simp add: ledger_def ledger_inv_def)

section \<open>Recomputing the leaders\<close>

lemma rfold_snoc: "rfold f (xs @ [x]) s = rbind (rfold f xs s) (f x)"
proof -
  have "rfold f [] = Ok" by (rule ext) simp
  then show ?thesis by (cases "rfold f xs s") (simp_all add: rfold_append)
qed

abbreviation with_leaders :: "blockchain \<Rightarrow> (nat \<rightharpoonup> h256) \<Rightarrow> blockchain" where
  "with_leaders bc ls \<equiv> bc\<lparr>proposer_leader_sequence_cf := ls\<rparr>"

lemma same_graph_with_leaders: "same_graph bc (with_leaders bc ls)"
  unfolding same_graph_def
  by (intro exI [of _ "proposer_node_vote_cf bc"] exI [of _ "voter_ledger_tips bc"]
      exI [of _ ls] exI [of _ "proposer_ledger_order_cf bc"]
      exI [of _ "unconfirmed_proposers bc"] exI [of _ "proposer_ledger_tip bc"]) simp

lemma caught_up_with_leaders: "caught_up bc \<Longrightarrow> caught_up (with_leaders bc ls)"
  using same_graph_chain_inv [OF same_graph_with_leaders [of bc ls]]
    same_graph_votes_inv [OF same_graph_with_leaders [of bc ls]]
  by (simp add: caught_up_def)

lemma proposer_leader_level:
  assumes "caught_up bc" and "level \<le> proposer_best_level bc"
  shows "(\<exists>r. proposer_leader st level q bc = Ok r \<and> (\<forall>h. r = Some h \<longrightarrow> proposer_node_level_cf bc h = Some level)) \<or>
    proposer_leader st level q bc = Panic UnwrapErr \<and> (\<exists>rate. \<not> poisson_new st rate)"
proof -
  obtain bs where bs: "proposer_tree_level_cf bc level = Some bs" "distinct bs"
    "set bs = {h. proposer_node_level_cf bc h = Some level}"
    using proposer_levels_invD(4) [OF caught_upD(6) [OF assms(1)] assms(2)] by blast
  then show ?thesis using proposer_leader_cases [OF assms(1) bs(1,2), of st q] by auto
qed

text \<open>The leaders change from the first changed level on, and only within the recomputed range.\<close>

definition leaders_changed :: "nat \<Rightarrow> (nat \<rightharpoonup> h256) \<Rightarrow> (nat \<rightharpoonup> h256) \<Rightarrow> nat option \<Rightarrow> bool" where
  "leaders_changed m ls ls' cb \<longleftrightarrow>
     (case cb of None \<Rightarrow> ls' = ls | Some c \<Rightarrow> m \<le> c \<and> ls' c \<noteq> ls c \<and> (\<forall>l < c. ls' l = ls l))"

lemma update_leader_cases:
  assumes "caught_up bc" and "n \<le> proposer_best_level bc"
  shows "(\<exists>r. update_leader st n (bc, cb) =
        (if r = proposer_leader_sequence_cf bc n then Ok (bc, cb)
         else Ok (with_leaders bc ((proposer_leader_sequence_cf bc)(n := r)), if cb = None then Some n else cb)) \<and>
      (\<forall>h. r = Some h \<longrightarrow> proposer_node_level_cf bc h = Some n)) \<or>
    update_leader st n (bc, cb) = Panic UnwrapErr \<and> (\<exists>rate. \<not> poisson_new st rate)"
proof -
  let ?old = "proposer_leader_sequence_cf bc n"
  let ?leader = "\<lambda>q. proposer_leader st n q bc"
  note leader = proposer_leader_level [OF assms, where st = st]
  consider r r' where "?leader (quantile_epsilon_confirm (config bc)) = Ok r"
      "?leader (quantile_epsilon_deconfirm (config bc)) = Ok r'"
      "\<forall>h. r = Some h \<longrightarrow> proposer_node_level_cf bc h = Some n"
      "\<forall>h. r' = Some h \<longrightarrow> proposer_node_level_cf bc h = Some n"
    | r where "?leader (quantile_epsilon_confirm (config bc)) = Ok r"
      "?leader (quantile_epsilon_deconfirm (config bc)) = Panic UnwrapErr" "\<exists>rate. \<not> poisson_new st rate"
    | "?leader (quantile_epsilon_confirm (config bc)) = Panic UnwrapErr" "\<exists>rate. \<not> poisson_new st rate"
    using leader by metis
  then show ?thesis
  proof cases
    case 1
    then show ?thesis
      by (intro disjI1 exI [of _ "if ?old \<noteq> None then r' else r"]) (simp add: update_leader_def Let_def)
  qed (simp_all add: update_leader_def Let_def)
qed

lemma update_leaders_loop:
  assumes "caught_up bc" and "leaders_ok bc" and "m \<le> n" and "n \<le> proposer_best_level bc + 1"
  shows "(\<exists>ls cb. rfold (update_leader st) [m..<n] (bc, None) = Ok (with_leaders bc ls, cb) \<and>
      leaders_ok (with_leaders bc ls) \<and> leaders_changed m (proposer_leader_sequence_cf bc) ls cb \<and>
      (\<forall>l. ls l \<noteq> proposer_leader_sequence_cf bc l \<longrightarrow> m \<le> l \<and> l < n)) \<or>
    rfold (update_leader st) [m..<n] (bc, None) = Panic UnwrapErr \<and> (\<exists>rate. \<not> poisson_new st rate)"
  using assms(3,4)
proof (induction n rule: dec_induct)
  case base
  then show ?case
    using assms(2)
    by (intro disjI1 exI [of _ "proposer_leader_sequence_cf bc"] exI [of _ None]) (simp add: leaders_changed_def)
next
  case (step n)
  then consider ls cb where "rfold (update_leader st) [m..<n] (bc, None) = Ok (with_leaders bc ls, cb)"
      "leaders_ok (with_leaders bc ls)" "leaders_changed m (proposer_leader_sequence_cf bc) ls cb"
      "\<forall>l. ls l \<noteq> proposer_leader_sequence_cf bc l \<longrightarrow> m \<le> l \<and> l < n"
    | "rfold (update_leader st) [m..<n] (bc, None) = Panic UnwrapErr" "\<exists>rate. \<not> poisson_new st rate"
    by auto
  then show ?case
  proof cases
    case 2
    then show ?thesis using step by (simp add: rfold_append)
  next
    case 1
    let ?bc = "with_leaders bc ls" and ?old = "proposer_leader_sequence_cf bc"
    have n: "n \<le> proposer_best_level ?bc" using step.prems by simp
    have fold: "rfold (update_leader st) [m..<Suc n] (bc, None) = update_leader st n (?bc, cb)"
      using 1(1) step(1) by (simp add: rfold_snoc)
    consider r where "update_leader st n (?bc, cb) =
          (if r = ls n then Ok (?bc, cb) else Ok (with_leaders bc (ls(n := r)), if cb = None then Some n else cb))"
        "\<forall>h. r = Some h \<longrightarrow> proposer_node_level_cf bc h = Some n"
      | "update_leader st n (?bc, cb) = Panic UnwrapErr" "\<exists>rate. \<not> poisson_new st rate"
      using update_leader_cases [OF caught_up_with_leaders [OF assms(1)] n, of st cb] by (auto cong: if_cong)
    then show ?thesis
    proof cases
      case r: 1
      show ?thesis
      proof (cases "r = ls n")
        case True
        then show ?thesis using 1 r(1) fold by (metis less_SucI)
      next
        case False
        have "leaders_ok (with_leaders bc (ls(n := r)))"
          using 1(2) r(2) by (simp add: leaders_ok_def)
        moreover have "leaders_changed m ?old (ls(n := r)) (if cb = None then Some n else cb)"
        proof (cases cb)
          case None
          then show ?thesis using 1(3) False step(1) by (simp add: leaders_changed_def)
        next
          case (Some c)
          then have "c < n" using 1(3,4) by (auto simp: leaders_changed_def)
          then show ?thesis using Some 1(3) by (simp add: leaders_changed_def)
        qed
        moreover have "\<forall>l. (ls(n := r)) l \<noteq> ?old l \<longrightarrow> m \<le> l \<and> l < Suc n"
          using 1(4) step(1) by (auto simp: less_Suc_eq)
        ultimately show ?thesis using r(1) fold False by auto
      qed
    qed (use fold in simp)
  qed
qed

end
