(* ===== verification/Prism_Ledger_Update.thy ===== *)
theory Prism_Ledger_Update
  imports Prism_Ledger_Inv
begin

text \<open>
  The update of the ledger keeps its invariant: the levels from the first changed leader on are taken
  back and rebuilt, and the transaction blocks it reports are exactly what was cut from and appended
  to the ledger.
\<close>

section \<open>Taking levels back\<close>

abbreviation with_order :: "blockchain \<Rightarrow> (nat \<rightharpoonup> h256 list) \<Rightarrow> h256 set \<Rightarrow> blockchain" where
  "with_order bc order u \<equiv> bc\<lparr>proposer_ledger_order_cf := order, unconfirmed_proposers := u\<rparr>"

lemma deconfirm_loop:
  assumes "m \<le> n" and "\<And>l. m \<le> l \<Longrightarrow> l < n \<Longrightarrow> proposer_ledger_order_cf bc l \<noteq> None"
  shows "rfold deconfirm_level [m..<n] (bc, []) =
    Ok (with_order bc (\<lambda>l. if m \<le> l \<and> l < n then None else proposer_ledger_order_cf bc l)
          (set (stored_ledger bc m n) \<union> unconfirmed_proposers bc), stored_ledger bc m n)"
  using assms
proof (induction n rule: dec_induct)
  case base
  have "(\<lambda>l. if m \<le> l \<and> l < m then None else proposer_ledger_order_cf bc l) = proposer_ledger_order_cf bc"
    by (rule ext) auto
  then show ?case by (simp add: stored_ledger_def)
next
  case (step n)
  obtain bs where bs: "proposer_ledger_order_cf bc n = Some bs" using step by auto
  have st: "stored_ledger bc m (Suc n) = stored_ledger bc m n @ bs" using step(1) bs by (simp add: stored_ledger_def)
  have "(\<lambda>l. if m \<le> l \<and> l < n then None else proposer_ledger_order_cf bc l)(n := None) =
      (\<lambda>l. if m \<le> l \<and> l < Suc n then None else proposer_ledger_order_cf bc l)"
    using step(1) by (auto simp: less_Suc_eq)
  then show ?case
    using step bs by (simp add: rfold_snoc deconfirm_level_def st Un_assoc Un_left_commute)
qed

section \<open>Rebuilding levels\<close>

lemma ledger_at_extend:
  assumes inv: "proposer_inv bc" and at: "ledger_at bc n" and h: "proposer_leader_sequence_cf bc n = Some h"
  defines "bs \<equiv> level_blocks (proposer_ref_neighbor_cf bc) (set (ledger_blocks bc n)) n h"
  defines "u \<equiv> dom (proposer_node_level_cf bc) - (set (ledger_blocks bc n) \<union> set bs)"
  shows "level_order h bc = Ok (bs, u)"
    and "ledger_at (with_order bc ((proposer_ledger_order_cf bc)(n \<mapsto> bs)) u) (Suc n)"
proof -
  show "level_order h bc = Ok (bs, u)"
    unfolding bs_def u_def
    by (rule level_order_blocks [OF inv leaders_okD [OF ledger_atD(1) [OF at] h] ledger_atD(3) [OF at]])
  show "ledger_at (with_order bc ((proposer_ledger_order_cf bc)(n \<mapsto> bs)) u) (Suc n)"
    using at h by (auto simp: ledger_at_def leaders_ok_def bs_def u_def less_Suc_eq)
qed

lemma rebuild_ledger_at:
  assumes "proposer_inv bc" and "ledger_at bc n" and "0 < n" and "proposer_best_level bc + 2 \<le> fuel + n"
    and "n \<le> proposer_best_level bc + 1"
  shows "\<exists>order u n'. n \<le> n' \<and> proposer_leader_sequence_cf bc n' = None \<and>
    ledger_at (with_order bc order u) n' \<and> (\<forall>l < n. order l = proposer_ledger_order_cf bc l) \<and>
    rebuild_ledger fuel n bc added =
      Ok ((with_order bc order u)\<lparr>proposer_ledger_tip := n' - 1\<rparr>, added @ stored_ledger (with_order bc order u) n n')"
  using assms
proof (induction fuel arbitrary: n bc added)
  case (Suc fuel)
  show ?case
  proof (cases "proposer_leader_sequence_cf bc n")
    case None
    have "with_order bc (proposer_ledger_order_cf bc) (unconfirmed_proposers bc) = bc" by simp
    then show ?thesis
      using None Suc.prems
      by (intro exI [of _ "proposer_ledger_order_cf bc"] exI [of _ "unconfirmed_proposers bc"] exI [of _ n])
         (simp add: stored_ledger_def)
  next
    case (Some h)
    define bs where "bs = level_blocks (proposer_ref_neighbor_cf bc) (set (ledger_blocks bc n)) n h"
    define u where "u = dom (proposer_node_level_cf bc) - (set (ledger_blocks bc n) \<union> set bs)"
    let ?bc = "with_order bc ((proposer_ledger_order_cf bc)(n \<mapsto> bs)) u"
    note ext = ledger_at_extend [OF Suc.prems(1,2) Some, folded bs_def, folded u_def]
    have inv: "proposer_inv ?bc"
      using Suc.prems(1)
      by (simp add: proposer_inv_def proposer_levels_inv_def proposer_refs_inv_def unreferred_inv_def referred_def)
    have "n \<le> proposer_best_level bc"
      using proposer_levels_invD(2) [of bc h n] leaders_okD [OF ledger_atD(1) [OF Suc.prems(2)] Some] Suc.prems(1)
      by (simp add: proposer_inv_def)
    then obtain order u' n' where ih: "Suc n \<le> n'" "proposer_leader_sequence_cf ?bc n' = None"
      "ledger_at (with_order ?bc order u') n'" "\<forall>l < Suc n. order l = proposer_ledger_order_cf ?bc l"
      "rebuild_ledger fuel (Suc n) ?bc (added @ bs) =
        Ok ((with_order ?bc order u')\<lparr>proposer_ledger_tip := n' - 1\<rparr>,
            (added @ bs) @ stored_ledger (with_order ?bc order u') (Suc n) n')"
      using Suc.IH [OF inv ext(2), of "added @ bs"] Suc.prems(4) by auto
    have "stored_ledger (with_order bc order u') n n' = bs @ stored_ledger (with_order bc order u') (Suc n) n'"
      using ih(1,4) by (simp add: stored_ledger_def upt_conv_Cons)
    then show ?thesis
      using ih Some ext(1)
      by (intro exI [of _ order] exI [of _ u'] exI [of _ n']) simp
  qed
qed simp

section \<open>The transaction blocks of the ledger\<close>

definition ledger_transactions :: "blockchain \<Rightarrow> h256 list \<Rightarrow> h256 list" where
  "ledger_transactions bc bs =
     concat (map (\<lambda>b. case transaction_ref_neighbor_cf bc b of Some ts \<Rightarrow> ts | None \<Rightarrow> []) bs)"

lemma ledger_transactions_append:
  "ledger_transactions bc (xs @ ys) = ledger_transactions bc xs @ ledger_transactions bc ys"
  by (simp add: ledger_transactions_def)

lemma transactions_of_total:
  assumes "proposer_inv bc" and "set bs \<subseteq> dom (proposer_node_level_cf bc)"
  shows "transactions_of bc bs = Ok (ledger_transactions bc bs)"
proof -
  have "rmap (\<lambda>b. unwrap (transaction_ref_neighbor_cf bc b)) bs =
      Ok (map (\<lambda>b. case transaction_ref_neighbor_cf bc b of Some ts \<Rightarrow> ts | None \<Rightarrow> []) bs)"
  proof (rule rmap_Ok_pure)
    fix b
    assume "b \<in> set bs"
    then have "b \<in> dom (transaction_ref_neighbor_cf bc)"
      using assms proposer_refs_invD(2) [of bc] by (auto simp: proposer_inv_def)
    then show "unwrap (transaction_ref_neighbor_cf bc b) =
        Ok (case transaction_ref_neighbor_cf bc b of Some ts \<Rightarrow> ts | None \<Rightarrow> [])" by auto
  qed
  then show ?thesis by (simp add: transactions_of_def ledger_transactions_def)
qed

section \<open>Changing the ledger\<close>

lemma ledger_blocks_dom:
  "proposer_inv bc \<Longrightarrow> leaders_ok bc \<Longrightarrow> set (ledger_blocks bc n) \<subseteq> dom (proposer_node_level_cf bc)"
  using ledger_upto_levels by blast

text \<open>The ledger update does not touch what the invariant of the proposer tree is about.\<close>

lemma proposer_inv_ledger_fields [simp]:
  "proposer_inv (with_leaders bc ls) = proposer_inv bc"
  "proposer_inv (with_order bc order u) = proposer_inv bc"
  "proposer_inv (bc\<lparr>proposer_ledger_tip := t\<rparr>) = proposer_inv bc"
  by (simp_all add: proposer_inv_def proposer_levels_inv_def proposer_refs_inv_def unreferred_inv_def referred_def)

text \<open>The state \<open>with_leaders bc ls\<close> has the new leaders and still the ledger of the old ones. A change
  above the first level without a leader has no effect on the ledger.\<close>

lemma change_above_tip:
  assumes old: "ledger_inv bc" and ok: "leaders_ok (with_leaders bc ls)"
    and c: "proposer_ledger_tip bc + 1 < c" and below: "\<And>l. l < c \<Longrightarrow> ls l = proposer_leader_sequence_cf bc l"
  shows "change_ledger c (with_leaders bc ls) = Ok (with_leaders bc ls, [], [])"
    and "ledger_inv (with_leaders bc ls)" and "ledger (with_leaders bc ls) = ledger bc"
proof -
  let ?T = "proposer_ledger_tip bc"
  show "change_ledger c (with_leaders bc ls) = Ok (with_leaders bc ls, [], [])"
    using c by (simp add: change_ledger_def Let_def transactions_of_def)
  have "ls l = proposer_leader_sequence_cf bc l" if "l \<le> ?T + 1" for l using c below that by simp
  moreover have "ledger_upto (proposer_ref_neighbor_cf bc) ls l = ledger_blocks bc l" if "l \<le> ?T + 1" for l
    using c below that by (intro ledger_upto_cong) simp
  ultimately show "ledger_inv (with_leaders bc ls)"
    using old ok by (auto simp: ledger_inv_def ledger_at_def)
  show "ledger (with_leaders bc ls) = ledger bc" by (simp add: ledger_def stored_ledger_def)
qed

text \<open>The state in which the levels from \<open>c\<close> on are taken back.\<close>

definition taken_back :: "blockchain \<Rightarrow> (nat \<rightharpoonup> h256) \<Rightarrow> nat \<Rightarrow> blockchain" where
  "taken_back bc ls c = with_order (with_leaders bc ls)
     (\<lambda>l. if c \<le> l \<and> l < proposer_ledger_tip bc + 1 then None else proposer_ledger_order_cf bc l)
     (set (stored_ledger bc c (proposer_ledger_tip bc + 1)) \<union> unconfirmed_proposers bc)"

lemma taken_back_loop:
  assumes "ledger_inv bc" and "c \<le> proposer_ledger_tip bc + 1"
  shows "rfold deconfirm_level [c..<proposer_ledger_tip bc + 1] (with_leaders bc ls, []) =
    Ok (taken_back bc ls c, stored_ledger bc c (proposer_ledger_tip bc + 1))"
proof -
  let ?T = "proposer_ledger_tip bc" and ?bc = "with_leaders bc ls"
  have at: "ledger_at bc (?T + 1)" using assms(1) by (simp add: ledger_inv_def)
  have "\<And>l. c \<le> l \<Longrightarrow> l < ?T + 1 \<Longrightarrow> proposer_ledger_order_cf ?bc l \<noteq> None"
    using ledger_atD(2,4) [OF at] by fastforce
  note loop = deconfirm_loop [OF assms(2) this]
  have "stored_ledger ?bc c (?T + 1) = stored_ledger bc c (?T + 1)" by (simp add: stored_ledger_def)
  then show ?thesis using loop by (simp add: taken_back_def del: upt_Suc cong: if_cong)
qed

lemma taken_back_at:
  assumes inv: "proposer_inv bc" and old: "ledger_inv bc" and ok: "leaders_ok (with_leaders bc ls)"
    and c: "c \<le> proposer_ledger_tip bc + 1" and below: "\<And>l. l < c \<Longrightarrow> ls l = proposer_leader_sequence_cf bc l"
  shows "ledger_at (taken_back bc ls c) c"
    and "ledger bc = ledger_blocks bc c @ stored_ledger bc c (proposer_ledger_tip bc + 1)"
    and "set (stored_ledger bc c (proposer_ledger_tip bc + 1)) \<subseteq> dom (proposer_node_level_cf bc)"
    and "ledger_upto (proposer_ref_neighbor_cf bc) ls c = ledger_blocks bc c"
proof -
  let ?T = "proposer_ledger_tip bc" and ?removed = "stored_ledger bc c (proposer_ledger_tip bc + 1)"
  have at: "ledger_at bc (?T + 1)" using old by (simp add: ledger_inv_def)
  have upto: "ledger_upto (proposer_ref_neighbor_cf bc) ls k = ledger_blocks bc k" if "k \<le> c" for k
    using that below by (intro ledger_upto_cong) simp
  then show "ledger_upto (proposer_ref_neighbor_cf bc) ls c = ledger_blocks bc c" by simp
  have split: "ledger_blocks bc (?T + 1) = ledger_blocks bc c @ ?removed"
    by (rule stored_ledger_blocks [OF at c order_refl])
  then show "ledger bc = ledger_blocks bc c @ ?removed" using ledger_ledger_blocks [OF old] by simp
  have dom: "set (ledger_blocks bc (?T + 1)) \<subseteq> dom (proposer_node_level_cf bc)"
    by (rule ledger_blocks_dom [OF inv ledger_atD(1) [OF at]])
  then show "set ?removed \<subseteq> dom (proposer_node_level_cf bc)" unfolding split by simp
  have "set (ledger_blocks bc c) \<inter> set ?removed = {}"
    using distinct_ledger_upto [of "proposer_ref_neighbor_cf bc" "proposer_leader_sequence_cf bc" "?T + 1"]
    unfolding split distinct_append by blast
  then have u: "set ?removed \<union> unconfirmed_proposers bc = dom (proposer_node_level_cf bc) - set (ledger_blocks bc c)"
    using ledger_atD(3) [OF at] dom unfolding split by auto
  show "ledger_at (taken_back bc ls c) c"
    unfolding ledger_at_def
  proof (intro conjI allI impI)
    show "leaders_ok (taken_back bc ls c)" using ok by (simp add: taken_back_def leaders_ok_def)
    show "proposer_leader_sequence_cf (taken_back bc ls c) l \<noteq> None" if "l < c" for l
      using that c below ledger_atD(2) [OF at, of l] by (simp add: taken_back_def)
    show "unconfirmed_proposers (taken_back bc ls c) =
        dom (proposer_node_level_cf (taken_back bc ls c)) - set (ledger_blocks (taken_back bc ls c) c)"
      using u upto by (simp add: taken_back_def)
    show "proposer_ledger_order_cf (taken_back bc ls c) l = (if l < c then map_option
        (level_blocks (proposer_ref_neighbor_cf (taken_back bc ls c)) (set (ledger_blocks (taken_back bc ls c) l)) l)
        (proposer_leader_sequence_cf (taken_back bc ls c) l) else None)" for l
      using at c below upto by (auto simp: taken_back_def ledger_at_def)
  qed
qed

lemma change_ledger_inv:
  assumes inv: "proposer_inv bc" and old: "ledger_inv bc" and ok: "leaders_ok (with_leaders bc ls)"
    and c: "0 < c" "c \<le> proposer_best_level bc" and below: "\<And>l. l < c \<Longrightarrow> ls l = proposer_leader_sequence_cf bc l"
  shows "\<exists>bc' order u t added removed pre.
    bc' = (with_order (with_leaders bc ls) order u)\<lparr>proposer_ledger_tip := t\<rparr> \<and> ledger_inv bc' \<and>
    change_ledger c (with_leaders bc ls) = Ok (bc', ledger_transactions bc added, ledger_transactions bc removed) \<and>
    ledger bc = pre @ removed \<and> ledger bc' = pre @ added"
proof (cases "c \<le> proposer_ledger_tip bc + 1")
  case False
  then have "proposer_ledger_tip bc + 1 < c" by simp
  note above = change_above_tip [OF old ok this below]
  show ?thesis
    using above
    by (intro exI [of _ "with_leaders bc ls"] exI [of _ "proposer_ledger_order_cf bc"] exI [of _ "unconfirmed_proposers bc"]
        exI [of _ "proposer_ledger_tip bc"] exI [of _ "[]"] exI [of _ "ledger bc"])
       (simp add: ledger_transactions_def)
next
  case True
  let ?bc = "with_leaders bc ls" and ?removed = "stored_ledger bc c (proposer_ledger_tip bc + 1)"
  let ?tb = "taken_back bc ls c"
  note tb = taken_back_at [OF inv old ok True below]
  have inv1: "proposer_inv ?tb" using inv by (simp add: taken_back_def)
  have "proposer_best_level ?tb = proposer_best_level bc" by (simp add: taken_back_def)
  then obtain order u n where r: "c \<le> n" "proposer_leader_sequence_cf ?tb n = None" "ledger_at (with_order ?tb order u) n"
    "rebuild_ledger (proposer_best_level bc + 2) c ?tb [] =
      Ok ((with_order ?tb order u)\<lparr>proposer_ledger_tip := n - 1\<rparr>, stored_ledger (with_order ?tb order u) c n)"
    using rebuild_ledger_at [OF inv1 tb(1) c(1), of "proposer_best_level bc + 2" "[]"] c(2) by auto
  define bc2 where "bc2 = (with_order ?bc order u)\<lparr>proposer_ledger_tip := n - 1\<rparr>"
  let ?added = "stored_ledger bc2 c n"
  have rebuild: "rebuild_ledger (proposer_best_level bc + 2) c ?tb [] = Ok (bc2, ?added)"
    using r(4) by (simp add: taken_back_def bc2_def stored_ledger_def)
  have at: "ledger_at bc2 n" using r(3) by (simp add: taken_back_def bc2_def ledger_at_def leaders_ok_def)
  have n: "n - 1 + 1 = n" using r(1) c(1) by simp
  have linv: "ledger_inv bc2" using at r(2) n by (simp add: ledger_inv_def taken_back_def bc2_def)
  have new: "ledger_blocks bc2 n = ledger_blocks bc2 c @ ?added"
    by (rule stored_ledger_blocks [OF at r(1) order_refl])
  then have ledger: "ledger bc2 = ledger_blocks bc c @ ?added"
    using ledger_ledger_blocks [OF linv] n tb(4) by (simp add: bc2_def)
  have pinv: "proposer_inv bc2" using inv by (simp add: bc2_def)
  have tx: "ledger_transactions bc2 bs = ledger_transactions bc bs" for bs
    by (simp add: ledger_transactions_def bc2_def)
  have "set ?added \<subseteq> dom (proposer_node_level_cf bc2)"
    using ledger_blocks_dom [OF pinv ledger_atD(1) [OF at], of n] unfolding new by simp
  moreover have "set ?removed \<subseteq> dom (proposer_node_level_cf bc2)" using tb(3) by (simp add: bc2_def)
  ultimately have "change_ledger c ?bc = Ok (bc2, ledger_transactions bc ?added, ledger_transactions bc ?removed)"
    using True taken_back_loop [OF old True, of ls] rebuild transactions_of_total [OF pinv] tx
    by (simp add: change_ledger_def Let_def)
  then show ?thesis using linv tb(2) ledger bc2_def by blast
qed

section \<open>The whole update\<close>

definition full_inv :: "blockchain \<Rightarrow> bool" where
  "full_inv bc \<longleftrightarrow> chain_inv bc \<and> votes_inv bc \<and> ledger_inv bc"

text \<open>What one update of the ledger promises: it keeps the invariants and the block graph, it has
  followed every voter chain, and the reported transaction blocks are those cut from and appended to
  the ledger.\<close>

definition ledger_step :: "blockchain \<Rightarrow> blockchain \<Rightarrow> h256 list \<Rightarrow> h256 list \<Rightarrow> bool" where
  "ledger_step bc bc' added removed \<longleftrightarrow> full_inv bc' \<and> same_graph bc bc' \<and> caught_up bc' \<and>
     (\<exists>pre suf suf'. ledger bc = pre @ suf \<and> ledger bc' = pre @ suf' \<and>
        removed = ledger_transactions bc suf \<and> added = ledger_transactions bc suf')"

lemma update_ledger_votes:
  assumes "full_inv bc"
  shows "\<exists>bc1 a b. rfold update_chain_votes [0..<num_chains bc] (bc, (U64_MAX, 0)) = Ok (bc1, (a, b)) \<and>
    caught_up bc1 \<and> full_inv bc1 \<and> same_graph bc bc1 \<and> ledger bc1 = ledger bc \<and>
    0 < a \<and> b \<le> proposer_best_level bc1 + 1"
proof -
  have inv: "chain_inv bc" "votes_inv bc" "ledger_inv bc" using assms by (simp_all add: full_inv_def)
  obtain cf r ls where l: "rfold update_chain_votes [0..<num_chains bc] (bc, (U64_MAX, 0)) =
      Ok (with_tips bc cf (map fst (voter_best bc)), r)"
    "votes_inv (with_tips bc cf (map fst (voter_best bc)))" "touched (U64_MAX, 0) r ls"
    "ls \<subseteq> {1..proposer_best_level bc}"
    using update_votes_loop [OF inv(1,2), of "(U64_MAX, 0)"] by blast
  let ?bc = "with_tips bc cf (map fst (voter_best bc))"
  have same: "same_graph bc ?bc"
    unfolding same_graph_def
    by (intro exI [of _ cf] exI [of _ "map fst (voter_best bc)"] exI [of _ "proposer_leader_sequence_cf bc"]
        exI [of _ "proposer_ledger_order_cf bc"] exI [of _ "unconfirmed_proposers bc"]
        exI [of _ "proposer_ledger_tip bc"]) simp
  have "chain_inv ?bc" by (rule same_graph_chain_inv [OF same inv(1)])
  moreover have "ledger_inv ?bc" using inv(3) by (simp add: ledger_inv_def ledger_at_def leaders_ok_def)
  moreover have "0 < fst r"
  proof -
    have "\<forall>l \<in> ls. 1 \<le> l" using l(4) by auto
    then have "1 \<le> fst r" using l(3) by (auto simp: touched_def U64_MAX_def)
    then show ?thesis by simp
  qed
  moreover have "snd r \<le> proposer_best_level bc + 1"
  proof -
    have "\<forall>l \<in> ls. l < proposer_best_level bc + 1" using l(4) by auto
    then show ?thesis using l(3) by (auto simp: touched_def)
  qed
  ultimately show ?thesis
    using l(1,2) same
    by (intro exI [of _ ?bc] exI [of _ "fst r"] exI [of _ "snd r"])
       (simp add: caught_up_def full_inv_def ledger_def stored_ledger_def)
qed

lemma change_ledger_step:
  assumes "caught_up bc" and "full_inv bc" and "leaders_ok (with_leaders bc ls)"
    and "0 < c" "c \<le> proposer_best_level bc" and "\<And>l. l < c \<Longrightarrow> ls l = proposer_leader_sequence_cf bc l"
  shows "\<exists>bc' added removed. change_ledger c (with_leaders bc ls) = Ok (bc', added, removed) \<and>
    ledger_step bc bc' added removed"
proof -
  have inv: "proposer_inv bc" "ledger_inv bc" using assms(2) by (simp_all add: full_inv_def chain_inv_def)
  obtain bc' order u t suf' suf pre where
    c: "bc' = (with_order (with_leaders bc ls) order u)\<lparr>proposer_ledger_tip := t\<rparr>" "ledger_inv bc'"
      "change_ledger c (with_leaders bc ls) = Ok (bc', ledger_transactions bc suf', ledger_transactions bc suf)"
      "ledger bc = pre @ suf" "ledger bc' = pre @ suf'"
    using change_ledger_inv [OF inv assms(3-6)] by blast
  have same: "same_graph bc bc'"
    unfolding same_graph_def c(1)
    by (intro exI [of _ "proposer_node_vote_cf bc"] exI [of _ "voter_ledger_tips bc"]
        exI [of _ ls] exI [of _ order] exI [of _ u] exI [of _ t]) simp
  have "chain_inv bc'" using same_graph_chain_inv [OF same] assms(2) by (simp add: full_inv_def)
  moreover have "votes_inv bc'" using same_graph_votes_inv [OF same] assms(2) c(1) by (simp add: full_inv_def)
  ultimately have "full_inv bc'" "caught_up bc'"
    using c(1,2) assms(1) by (simp_all add: full_inv_def caught_up_def)
  then show ?thesis using c same unfolding ledger_step_def by blast
qed

lemma update_ledger_step:
  assumes "full_inv bc"
  shows "(\<exists>bc' added removed. update_ledger st bc = Ok (bc', added, removed) \<and> ledger_step bc bc' added removed) \<or>
    update_ledger st bc = Panic UnwrapErr \<and> (\<exists>rate. \<not> poisson_new st rate)"
proof -
  obtain bc1 a b where v: "rfold update_chain_votes [0..<num_chains bc] (bc, (U64_MAX, 0)) = Ok (bc1, (a, b))"
    "caught_up bc1" "full_inv bc1" "same_graph bc bc1" "ledger bc1 = ledger bc"
    "0 < a" "b \<le> proposer_best_level bc1 + 1"
    using update_ledger_votes [OF assms] by blast
  define m where "m = (if a < b \<and> proposer_ledger_tip bc1 + 1 < a then proposer_ledger_tip bc1 + 1 else a)"
  have m: "0 < m" using v(6) by (simp add: m_def)
  have keep: "ledger_step bc bc' added removed" if "ledger_step bc1 bc' added removed" for bc' added removed
  proof -
    have "ledger_transactions bc1 = ledger_transactions bc"
      by (rule ext) (simp add: ledger_transactions_def same_graph_simps [OF v(4)])
    moreover have "same_graph bc bc'"
      using that v(4) unfolding ledger_step_def same_graph_def by fastforce
    ultimately show ?thesis using that v(5) by (simp add: ledger_step_def)
  qed
  have run: "update_ledger st bc = rbind (rfold (update_leader st) [m..<b] (bc1, None))
      (\<lambda>(bc2, cb). case cb of None \<Rightarrow> Ok (bc2, [], []) | Some l \<Rightarrow> change_ledger l bc2)"
    using v(1) by (simp add: update_ledger_def m_def)
  have stay: "ledger_step bc1 bc1 [] []"
    using v(2,3) same_graph_refl by (auto simp: ledger_step_def ledger_transactions_def intro: exI [of _ "ledger bc1"])
  have ok: "leaders_ok bc1" using v(3) by (simp add: full_inv_def ledger_inv_def ledger_at_def)
  show ?thesis
  proof (cases "m \<le> b")
    case False
    then have "update_ledger st bc = Ok (bc1, [], [])" by (simp add: run)
    then show ?thesis using keep [OF stay] by blast
  next
    case True
    from update_leaders_loop [OF v(2) ok True v(7), of st] show ?thesis
    proof (elim disjE exE conjE)
      fix ls cb
      assume l: "rfold (update_leader st) [m..<b] (bc1, None) = Ok (with_leaders bc1 ls, cb)"
        "leaders_ok (with_leaders bc1 ls)" "leaders_changed m (proposer_leader_sequence_cf bc1) ls cb"
        "\<forall>l. ls l \<noteq> proposer_leader_sequence_cf bc1 l \<longrightarrow> m \<le> l \<and> l < b"
      show ?thesis
      proof (cases cb)
        case None
        then have "update_ledger st bc = Ok (bc1, [], [])" using l(1,3) by (simp add: run leaders_changed_def)
        then show ?thesis using keep [OF stay] by blast
      next
        case (Some c)
        have c: "m \<le> c" "ls c \<noteq> proposer_leader_sequence_cf bc1 c"
          "\<And>k. k < c \<Longrightarrow> ls k = proposer_leader_sequence_cf bc1 k"
          using l(3) Some by (simp_all add: leaders_changed_def)
        have "0 < c" "c \<le> proposer_best_level bc1" using c(1) m l(4) c(2) v(7) by fastforce+
        from change_ledger_step [OF v(2,3) l(2) this c(3)] show ?thesis
          using keep l(1) Some by (auto simp: run)
      qed
    qed (auto simp: run)
  qed
qed

end
