(* ===== verification/Prism_Chain_Init.thy ===== *)
theory Prism_Chain_Init
  imports Prism_Chain_Voter
begin

text \<open>
  The initial block graph: the loop over the voter chains in closed form, and the invariants of the
  state that it builds.
\<close>

section \<open>Maps built by a loop\<close>

definition vmap :: "nat \<Rightarrow> (nat \<Rightarrow> 'k) \<Rightarrow> (nat \<Rightarrow> 'v) \<Rightarrow> ('k \<rightharpoonup> 'v)" where
  "vmap k f g = map_of (rev (map (\<lambda>i. (f i, g i)) [0..<k]))"

lemma vmap_0 [simp]: "vmap 0 f g = Map.empty"
  by (simp add: vmap_def)

lemma vmap_Suc: "vmap (Suc k) f g = (vmap k f g)(f k \<mapsto> g k)"
  by (simp add: vmap_def)

lemma vmap_None: "vmap k f g x = None \<longleftrightarrow> (\<forall>i < k. f i \<noteq> x)"
  by (induction k) (auto simp: vmap_Suc less_Suc_eq)

lemma vmap_Some: "inj_on f {..<k} \<Longrightarrow> vmap k f g x = Some y \<longleftrightarrow> (\<exists>i < k. f i = x \<and> g i = y)"
proof (induction k)
  case (Suc k)
  then have inj: "inj_on f {..<k}" by (auto simp: inj_on_def)
  have "f i \<noteq> f k" if "i < k" for i using Suc.prems that by (auto simp: inj_on_def)
  with Suc.IH [OF inj] show ?case by (auto simp: vmap_Suc less_Suc_eq)
qed simp

lemma dom_vmap: "dom (vmap k f g) = f ` {..<k}"
proof (rule set_eqI)
  show "x \<in> dom (vmap k f g) \<longleftrightarrow> x \<in> f ` {..<k}" for x
    using vmap_None [of k f g x] by (auto simp: domIff simp del: not_None_eq)
qed

section \<open>The loop over the voter chains\<close>

text \<open>The state after the genesis blocks of the first \<open>k\<close> voter chains.\<close>

definition init_state :: "blockchain_config \<Rightarrow> counter \<Rightarrow> nat \<Rightarrow> blockchain" where
  "init_state c ctr k =
     (let g = proposer_genesis c; vg = (\<lambda>i. voter_genesis c ! i); n = unat (voter_chains c) in
      (init_proposer (blockchain_open c ctr))\<lparr>
        parent_neighbor_cf := vmap k vg (\<lambda>_. g),
        vote_neighbor_cf := vmap k vg (\<lambda>_. [g]),
        proposer_vote_count_cf := (if k = 0 then Map.empty else [g \<mapsto> k]),
        proposer_node_vote_cf := (if k = 0 then Map.empty else [g \<mapsto> map (\<lambda>i. (i, 0)) [0..<k]]),
        voter_node_level_cf := vmap k vg (\<lambda>_. 0),
        voter_node_voted_level_cf := vmap k vg (\<lambda>_. 0),
        voter_node_chain_cf := vmap k vg (\<lambda>i. i),
        voter_tree_level_count_cf := vmap k (\<lambda>i. (i, 0)) (\<lambda>_. 1),
        voter_best := map (\<lambda>i. (vg i, 0)) [0..<k] @ replicate (n - k) (0, 0),
        voter_ledger_tips := map vg [0..<k] @ replicate (n - k) 0\<rparr>)"

text \<open>Genesis hashes as the configuration makes them.\<close>

definition wf_genesis :: "blockchain_config \<Rightarrow> bool" where
  "wf_genesis c \<longleftrightarrow> length (voter_genesis c) = unat (voter_chains c) \<and>
     distinct (proposer_genesis c # voter_genesis c)"

lemma inj_voter_genesis:
  "wf_genesis c \<Longrightarrow> k \<le> unat (voter_chains c) \<Longrightarrow> inj_on (\<lambda>i. voter_genesis c ! i) {..<k}"
  by (auto simp: wf_genesis_def inj_on_def nth_eq_iff_index_eq)

lemma update_next: "k < n \<Longrightarrow> length xs = k \<Longrightarrow> (xs @ replicate (n - k) d)[k := v] = (xs @ [v]) @ replicate (n - Suc k) d"
proof -
  assume "k < n" and "length xs = k"
  then have "replicate (n - k) d = d # replicate (n - Suc k) d"
    by (metis Suc_diff_Suc replicate_Suc)
  with \<open>length xs = k\<close> show ?thesis by (simp add: list_update_append)
qed

lemma init_voter_state:
  assumes wf: "wf_genesis c" and k: "k < unat (voter_chains c)"
  shows "init_voter k (init_state c ctr k) = Ok (init_state c ctr (Suc k))"
proof -
  let ?g = "proposer_genesis c" and ?v = "voter_genesis c ! k" and ?n = "unat (voter_chains c)"
  let ?vg = "\<lambda>i. voter_genesis c ! i"
  let ?s = "init_state c ctr k"
  have len: "k < length (voter_genesis c)" using wf k by (simp add: wf_genesis_def)
  have conf: "config ?s = c" by (simp add: init_state_def Let_def init_proposer_def blockchain_open_def)
  have fresh: "\<forall>i < k. ?vg i \<noteq> ?v"
    using wf k by (auto simp: wf_genesis_def nth_eq_iff_index_eq)
  have f1: "parent_neighbor_cf ?s = vmap k ?vg (\<lambda>_. ?g)" "vote_neighbor_cf ?s = vmap k ?vg (\<lambda>_. [?g])"
    "proposer_vote_count_cf ?s = (if k = 0 then Map.empty else [?g \<mapsto> k])"
    "proposer_node_vote_cf ?s = (if k = 0 then Map.empty else [?g \<mapsto> map (\<lambda>i. (i, 0)) [0..<k]])"
    "voter_node_level_cf ?s = vmap k ?vg (\<lambda>_. 0)" "voter_node_voted_level_cf ?s = vmap k ?vg (\<lambda>_. 0)"
    "voter_node_chain_cf ?s = vmap k ?vg (\<lambda>i. i)" "voter_tree_level_count_cf ?s = vmap k (\<lambda>i. (i, 0)) (\<lambda>_. 1)"
    "voter_best ?s = map (\<lambda>i. (?vg i, 0)) [0..<k] @ replicate (?n - k) (0, 0)"
    "voter_ledger_tips ?s = map ?vg [0..<k] @ replicate (?n - k) 0"
    by (simp_all add: init_state_def Let_def)
  have votes: "merge_vote ?g [(True, k, 0)] (proposer_node_vote_cf ?s) = Ok [?g \<mapsto> map (\<lambda>i. (i, 0)) [0..<Suc k]]"
    by (auto simp: f1 merge_vote_def vote_vec_full_merge_def apply_vote_def push_new_def)
  have best: "rnth (voter_best ?s) k = Ok (0, 0)"
    "rset (voter_best ?s) k (?v, 0) = Ok (map (\<lambda>i. (?vg i, 0)) [0..<Suc k] @ replicate (?n - Suc k) (0, 0))"
    "rset (voter_ledger_tips ?s) k ?v = Ok (map ?vg [0..<Suc k] @ replicate (?n - Suc k) 0)"
    using k by (simp_all add: f1 nth_append update_next)
  have maps: "merge_append ?v [?g] (vote_neighbor_cf ?s) = vmap (Suc k) ?vg (\<lambda>_. [?g])"
    "merge_plus ?g 1 (proposer_vote_count_cf ?s) = [?g \<mapsto> Suc k]"
    "merge_plus (k, 0) 1 (voter_tree_level_count_cf ?s) = vmap (Suc k) (\<lambda>i. (i, 0)) (\<lambda>_. 1)"
  proof -
    have none: "vmap k ?vg (\<lambda>_. [?g]) ?v = None" "vmap k (\<lambda>i. (i, 0)) (\<lambda>_. Suc 0) (k, 0 :: nat) = None"
      using fresh by (auto simp: vmap_None)
    show "merge_append ?v [?g] (vote_neighbor_cf ?s) = vmap (Suc k) ?vg (\<lambda>_. [?g])"
      by (rule ext) (simp add: f1 merge_append_at none push_new_def vmap_Suc)
    show "merge_plus ?g 1 (proposer_vote_count_cf ?s) = [?g \<mapsto> Suc k]"
      by (rule ext) (simp add: f1 merge_plus_at)
    show "merge_plus (k, 0) 1 (voter_tree_level_count_cf ?s) = vmap (Suc k) (\<lambda>i. (i, 0)) (\<lambda>_. 1)"
      by (rule ext) (simp add: f1 merge_plus_at none vmap_Suc)
  qed
  show ?thesis
    unfolding init_voter_def conf Let_def
    using len votes best maps
    by (simp add: f1) (simp add: init_state_def Let_def vmap_Suc)
qed

lemma blockchain_new_state:
  assumes "wf_genesis c"
  shows "blockchain_new c ctr = Ok (init_state c ctr (unat (voter_chains c)))"
proof -
  let ?n = "unat (voter_chains c)"
  have start: "init_proposer (blockchain_open c ctr) = init_state c ctr 0"
    by (simp add: init_state_def Let_def init_proposer_def blockchain_open_def)
  have "rfold init_voter [0..<k] (init_state c ctr 0) = Ok (init_state c ctr k)" if "k \<le> ?n" for k
    using that
  proof (induction k)
    case (Suc k)
    then show ?case using init_voter_state [OF assms, of k ctr] by (simp add: rfold_append)
  qed simp
  then show ?thesis by (simp add: blockchain_new_def start)
qed

section \<open>The invariants of the initial state\<close>

lemma init_state_simps [simp]:
  fixes c ctr
  assumes "0 < unat (voter_chains c)"
  defines "s \<equiv> init_state c ctr (unat (voter_chains c))"
  shows "config s = c" "num_chains s = unat (voter_chains c)"
    "proposer_node_level_cf s = [proposer_genesis c \<mapsto> 0]"
    "proposer_tree_level_cf s = [0 \<mapsto> [proposer_genesis c]]"
    "proposer_best_level s = 0"
    "proposer_ref_neighbor_cf s = [proposer_genesis c \<mapsto> []]"
    "transaction_ref_neighbor_cf s = [proposer_genesis c \<mapsto> []]"
    "unreferred_proposers s = [(proposer_genesis c, 0)]"
    "unreferred_transactions s = []"
    "unconfirmed_proposers s = {}"
    "proposer_ledger_tip s = 0"
    "proposer_leader_sequence_cf s = [0 \<mapsto> proposer_genesis c]"
    "proposer_ledger_order_cf s = [0 \<mapsto> [proposer_genesis c]]"
    "voter_parent_neighbor_cf s = Map.empty"
    "parent_neighbor_cf s = vmap (unat (voter_chains c)) (\<lambda>i. voter_genesis c ! i) (\<lambda>_. proposer_genesis c)"
    "vote_neighbor_cf s = vmap (unat (voter_chains c)) (\<lambda>i. voter_genesis c ! i) (\<lambda>_. [proposer_genesis c])"
    "proposer_node_vote_cf s = [proposer_genesis c \<mapsto> map (\<lambda>i. (i, 0)) [0..<unat (voter_chains c)]]"
    "voter_node_level_cf s = vmap (unat (voter_chains c)) (\<lambda>i. voter_genesis c ! i) (\<lambda>_. 0)"
    "voter_node_voted_level_cf s = vmap (unat (voter_chains c)) (\<lambda>i. voter_genesis c ! i) (\<lambda>_. 0)"
    "voter_node_chain_cf s = vmap (unat (voter_chains c)) (\<lambda>i. voter_genesis c ! i) (\<lambda>i. i)"
    "voter_tree_level_count_cf s = vmap (unat (voter_chains c)) (\<lambda>i. (i, 0)) (\<lambda>_. 1)"
    "voter_best s = map (\<lambda>i. (voter_genesis c ! i, 0)) [0..<unat (voter_chains c)]"
    "voter_ledger_tips s = map (\<lambda>i. voter_genesis c ! i) [0..<unat (voter_chains c)]"
    "perf s = ctr"
  using assms(1)
  by (simp_all add: s_def init_state_def Let_def init_proposer_def blockchain_open_def num_chains_def
      merge_append_def h256_vec_append_merge_def push_new_def)

lemma set_voter_genesis:
  "wf_genesis c \<Longrightarrow> v \<in> set (voter_genesis c) \<longleftrightarrow> (\<exists>i < unat (voter_chains c). voter_genesis c ! i = v)"
  unfolding wf_genesis_def in_set_conv_nth by auto

lemma init_proposer_inv:
  assumes "0 < unat (voter_chains c)"
  shows "proposer_inv (init_state c ctr (unat (voter_chains c)))"
  using assms
  by (auto simp: proposer_inv_def proposer_levels_inv_def proposer_refs_inv_def unreferred_inv_def
      referred_def split: if_splits)

lemma init_voter_inv:
  assumes wf: "wf_genesis c" and pos: "0 < unat (voter_chains c)"
  shows "voter_inv (init_state c ctr (unat (voter_chains c)))"
proof -
  let ?n = "unat (voter_chains c)" and ?s = "init_state c ctr (unat (voter_chains c))"
  note inj = inj_voter_genesis [OF wf order_refl]
  have look: "vmap ?n (\<lambda>i. voter_genesis c ! i) g v = Some y \<longleftrightarrow> (\<exists>i < ?n. voter_genesis c ! i = v \<and> g i = y)"
    for g :: "nat \<Rightarrow> 'v" and v y
    using vmap_Some [OF inj] .
  have "voter_tree_inv ?s"
    unfolding voter_tree_inv_def init_state_simps [OF pos] dom_vmap look
    using set_voter_genesis [OF wf] by auto
  moreover have "{v. voter_genesis c ! i = v \<and> (\<exists>j < ?n. voter_genesis c ! j = v)} = {voter_genesis c ! i}"
    if "i < ?n" for i using that by auto
  then have "voter_best_inv ?s"
    unfolding voter_best_inv_def init_state_simps [OF pos] look
    using wf by (auto simp: wf_genesis_def vmap_None vmap_Some inj_on_def)
  ultimately show ?thesis by (simp add: voter_inv_def)
qed

lemma init_chain_inv:
  assumes "wf_genesis c" and "0 < unat (voter_chains c)" and "proposer_main_chain_length ctr = 0"
    and "voter_main_chain_length_sum ctr = 0"
  shows "chain_inv (init_state c ctr (unat (voter_chains c)))"
  using assms init_proposer_inv [of c ctr] init_voter_inv [of c ctr]
  by (simp add: chain_inv_def perf_inv_def comp_def)

end
