(* ===== verification/Prism_Chain_Safety.thy ===== *)
theory Prism_Chain_Safety
  imports Prism_Chain_Init
begin

text \<open>
  What the invariants of the two trees give the users of the block graph: the graph of a fresh
  configuration is well-formed, insertions keep it so, the best blocks are the deepest ones and the
  votes that a miner is given are the ones that validation accepts.
\<close>

section \<open>Well-formed graphs\<close>

lemma wf_genesis_config_new:
  assumes "unat vc + 2 \<le> 2 ^ 16"
  shows "wf_genesis (config_new ln vc sz tp pr vr adv le)"
  using distinct_genesis [OF assms] by (simp add: wf_genesis_def config_new_def Let_def)

text \<open>C29: creating the block graph of a configuration with at least one and at most 65534 voter
  chains never panics and yields the two trees with only the genesis blocks: the invariants of the
  proposer tree, of the voter chains and of the counters hold.\<close>

theorem blockchain_new_wf:
  assumes "0 < unat vc" and "unat vc + 2 \<le> 2 ^ 16"
  shows "\<exists>bc. blockchain_new (config_new ln vc sz tp pr vr adv le) counter_default = Ok bc \<and>
    chain_inv bc \<and> num_chains bc = unat vc"
proof -
  let ?c = "config_new ln vc sz tp pr vr adv le"
  have n: "voter_chains ?c = vc" by (simp add: config_new_def Let_def)
  note wf = wf_genesis_config_new [OF assms(2), of ln sz tp pr vr adv le]
  have "chain_inv (init_state ?c counter_default (unat (voter_chains ?c)))"
    by (rule init_chain_inv [OF wf]) (simp_all add: n assms(1) counter_default_def)
  moreover have "num_chains (init_state ?c counter_default (unat (voter_chains ?c))) = unat (voter_chains ?c)"
    by (rule init_state_simps(2)) (simp add: n assms(1))
  ultimately show ?thesis
    unfolding blockchain_new_state [OF wf] by (simp add: n)
qed

theorem blockchain_new_wf_witness:
  "\<exists>bc. blockchain_new (config_new id 3 1000 500 f_one f_one f_zero f_one) counter_default = Ok bc \<and>
    chain_inv bc \<and> num_chains bc = unat (3 :: u16)"
  by (rule blockchain_new_wf) simp_all

text \<open>C28: inserting a new block that passed validation never panics and keeps the invariants: levels
  are tree levels, references point to smaller levels, the unreferred set is exact, every voter chain
  votes once per level, the recorded best voter blocks are deepest, the level counts are exact.\<close>

theorem insert_block_preserves:
  assumes "chain_inv bc" and "fresh bc (block_hash keccak ser b)"
    and "valid_content bc (header b) (content b)"
  shows "\<exists>bc'. insert_block keccak ser b bc = Ok bc' \<and> chain_inv bc'"
  using assms by (rule insert_block_inv)

lemma example_genesis: "wf_genesis example_config" "0 < unat (voter_chains example_config)"
  using distinct_genesis [of 3] by (simp_all add: wf_genesis_def example_config_def)

definition example_start :: blockchain where
  "example_start = init_state example_config counter_default 3"

lemma example_start_new: "blockchain_new example_config counter_default = Ok example_start"
  using blockchain_new_state [OF example_genesis(1)] by (simp add: example_start_def example_config_def)

lemma example_start_inv: "chain_inv example_start"
  using init_chain_inv [OF example_genesis, of counter_default]
  by (simp add: example_start_def example_config_def counter_default_def)

definition example_proposer :: block where
  "example_proposer = block_new (index_hash PROPOSER_INDEX) 7 0 0 []
     (Proposer \<lparr>transaction_refs = [], proposer_refs = []\<rparr>) [] DEFAULT_DIFFICULTY"

lemmas example_start_simps =
  init_state_simps [OF example_genesis(2), of counter_default]

lemma example_start_level:
  "proposer_node_level_cf example_start = [index_hash PROPOSER_INDEX \<mapsto> 0]"
  "voter_node_level_cf example_start = vmap 3 (\<lambda>i. voter_genesis_hashes 3 ! i) (\<lambda>_. 0)"
  "voter_node_voted_level_cf example_start = vmap 3 (\<lambda>i. voter_genesis_hashes 3 ! i) (\<lambda>_. 0)"
  "parent_neighbor_cf example_start = vmap 3 (\<lambda>i. voter_genesis_hashes 3 ! i) (\<lambda>_. index_hash PROPOSER_INDEX)"
  using example_start_simps(3,15,18,19) by (simp_all add: example_start_def example_config_def)

lemma voter_genesis_hashes_3: "voter_genesis_hashes 3 = [index_hash 2, index_hash 3, index_hash 4]"
  by (simp add: voter_genesis_hashes_def index_defs upt_rec)

lemma unat_voter_genesis_3: "i < 3 \<Longrightarrow> unat (voter_genesis_hashes 3 ! i) = i + 2"
proof -
  assume "i < 3"
  then consider "i = 0" | "i = 1" | "i = 2" by linarith
  then show ?thesis by cases (simp_all add: voter_genesis_hashes_3 unat_index_hash)
qed

lemma example_fresh: "5 \<le> unat h \<Longrightarrow> fresh example_start h"
proof -
  assume h: "5 \<le> unat h"
  have "\<forall>i < 3. voter_genesis_hashes 3 ! i \<noteq> h"
  proof (intro allI impI notI)
    fix i :: nat
    assume "i < 3" and "voter_genesis_hashes 3 ! i = h"
    with unat_voter_genesis_3 [of i] h show False by simp
  qed
  moreover have "h \<noteq> index_hash PROPOSER_INDEX"
  proof
    assume "h = index_hash PROPOSER_INDEX"
    then have "unat h = 0" by (simp add: unat_index_hash index_defs)
    with h show False by simp
  qed
  ultimately show ?thesis by (simp add: fresh_def example_start_level vmap_None)
qed

theorem insert_block_preserves_witness:
  "\<exists>bc bc'. blockchain_new example_config counter_default = Ok bc \<and>
    insert_block (\<lambda>_. 100) (\<lambda>_. []) example_proposer bc = Ok bc' \<and> chain_inv bc'"
proof -
  have "fresh example_start (block_hash (\<lambda>_. 100) (\<lambda>_. []) example_proposer)"
    by (rule example_fresh) (simp add: block_hash_def header_hash_def)
  moreover have "valid_content example_start (header example_proposer) (content example_proposer)"
    by (simp add: example_proposer_def block_new_def block_from_header_def header_new_def
        valid_proposer_def example_start_level)
  ultimately show ?thesis
    using insert_block_preserves [OF example_start_inv] example_start_new by blast
qed

section \<open>Best blocks\<close>

lemma voter_at:
  assumes "chain_inv bc" and "i < num_chains bc"
  shows "best_voter i bc = Ok (fst (voter_best bc ! i))"
  using assms by (simp add: best_voter_def chain_inv_def voter_inv_def voter_best_invD(2))

lemma best_proposer_level:
  assumes "chain_inv bc"
  shows "\<exists>h. best_proposer bc = Ok h \<and> proposer_node_level_cf bc h = Some (proposer_best_level bc)"
proof -
  have inv: "proposer_levels_inv bc" using assms by (simp add: chain_inv_def proposer_inv_def)
  obtain bs where bs: "proposer_tree_level_cf bc (proposer_best_level bc) = Some bs" "bs \<noteq> []"
    "set bs = {h. proposer_node_level_cf bc h = Some (proposer_best_level bc)}"
    using proposer_levels_invD(4) [OF inv order_refl] by blast
  have "hd bs \<in> set bs" using bs(2) by simp
  then have "proposer_node_level_cf bc (hd bs) = Some (proposer_best_level bc)" unfolding bs(3) by simp
  moreover have "best_proposer bc = Ok (hd bs)" using bs by (simp add: best_proposer_def hd_conv_nth)
  ultimately show ?thesis by blast
qed

text \<open>C31: in a well-formed graph the best proposer exists and has the greatest level of all
  proposer blocks.\<close>

theorem best_proposer_deepest:
  assumes "chain_inv bc"
  shows "\<exists>h l. best_proposer bc = Ok h \<and> proposer_level h bc = Ok l \<and>
    (\<forall>h' l'. proposer_level h' bc = Ok l' \<longrightarrow> l' \<le> l)"
  using best_proposer_level [OF assms] assms
  by (auto simp: chain_inv_def proposer_inv_def proposer_level_def res_simps proposer_levels_invD(2))

theorem best_proposer_deepest_witness:
  "\<exists>h l. best_proposer example_start = Ok h \<and> proposer_level h example_start = Ok l \<and>
    (\<forall>h' l'. proposer_level h' example_start = Ok l' \<longrightarrow> l' \<le> l)"
  by (rule best_proposer_deepest [OF example_start_inv])

section \<open>The votes of a new voter block\<close>

definition vote_count :: "blockchain \<Rightarrow> h256 \<Rightarrow> nat" where
  "vote_count bc h = (case proposer_vote_count_cf bc h of Some d \<Rightarrow> d | None \<Rightarrow> 0)"

text \<open>\<open>preferred bc l h\<close>: the block has the most votes of its level, and the smallest hash among
  those with as many.\<close>

definition preferred :: "blockchain \<Rightarrow> nat \<Rightarrow> h256 \<Rightarrow> bool" where
  "preferred bc l h \<longleftrightarrow> proposer_node_level_cf bc h = Some l \<and>
     (\<forall>h'. proposer_node_level_cf bc h' = Some l \<longrightarrow>
        vote_count bc h' < vote_count bc h \<or> vote_count bc h' = vote_count bc h \<and> h \<le> h')"

lemma fold_better_vote:
  assumes "sorted (b # xs)"
  shows "\<exists>h \<in> set (b # xs). fold (better_vote bc) xs (Some (b, vote_count bc b)) = Some (h, vote_count bc h) \<and>
    (\<forall>h' \<in> set (b # xs). vote_count bc h' < vote_count bc h \<or> vote_count bc h' = vote_count bc h \<and> h \<le> h')"
  using assms
proof (induction xs arbitrary: b)
  case (Cons x xs)
  let ?b = "if vote_count bc b < vote_count bc x then x else b"
  have step: "better_vote bc x (Some (b, vote_count bc b)) = Some (?b, vote_count bc ?b)"
    by (simp add: better_vote_def vote_count_def)
  have "sorted (?b # xs)" using Cons.prems by auto
  from Cons.IH [OF this] obtain h where h: "h \<in> set (?b # xs)"
    "fold (better_vote bc) xs (Some (?b, vote_count bc ?b)) = Some (h, vote_count bc h)"
    "\<forall>h' \<in> set (?b # xs). vote_count bc h' < vote_count bc h \<or> vote_count bc h' = vote_count bc h \<and> h \<le> h'"
    by blast
  from h(3) Cons.prems have "\<forall>h' \<in> set (b # x # xs).
      vote_count bc h' < vote_count bc h \<or> vote_count bc h' = vote_count bc h \<and> h \<le> h'"
    by (auto split: if_splits)
  moreover have "h \<in> set (b # x # xs)" using h(1) by (auto split: if_splits)
  ultimately show ?case using h(2) step by auto
qed simp

lemma level_vote_preferred:
  assumes "proposer_levels_inv bc" and "l \<le> proposer_best_level bc"
  shows "\<exists>h. level_vote bc l = Ok h \<and> preferred bc l h"
proof -
  obtain bs where bs: "proposer_tree_level_cf bc l = Some bs" "bs \<noteq> []"
    "set bs = {h. proposer_node_level_cf bc h = Some l}"
    using proposer_levels_invD(4) [OF assms] by blast
  from bs(2) have "sort bs \<noteq> []" by (metis set_sort set_empty)
  then obtain b xs where b: "sort bs = b # xs" by (cases "sort bs") auto
  then have "sorted (b # xs)" by (metis sorted_sort)
  from fold_better_vote [OF this] obtain h where h: "h \<in> set (b # xs)"
    "fold (better_vote bc) xs (Some (b, vote_count bc b)) = Some (h, vote_count bc h)"
    "\<forall>h' \<in> set (b # xs). vote_count bc h' < vote_count bc h \<or> vote_count bc h' = vote_count bc h \<and> h \<le> h'"
    by blast
  have "better_vote bc b None = Some (b, vote_count bc b)" by (simp add: better_vote_def vote_count_def)
  then have "level_vote bc l = Ok h" using bs(1) b h(2) by (simp add: level_vote_def)
  moreover have "set (b # xs) = {h. proposer_node_level_cf bc h = Some l}" using b bs(3) by (metis set_sort)
  ultimately show ?thesis using h(1,3) by (auto simp: preferred_def)
qed

lemma unvoted_valid:
  assumes "chain_inv bc" and "voter_node_voted_level_cf bc tip = Some s"
    and "proposer_node_level_cf bc (parent hdr) = Some e" and "s \<le> e"
  shows "\<exists>vs. unvoted_proposer tip (parent hdr) bc = Ok vs \<and>
    list_all2 (preferred bc) [s + 1..<e + 1] vs \<and>
    valid_voter bc hdr \<lparr>chain_number = n, voter_parent = tip, votes = vs\<rparr>"
proof -
  have inv: "proposer_levels_inv bc" "voter_tree_inv bc"
    using assms(1) by (simp_all add: chain_inv_def proposer_inv_def voter_inv_def)
  have best: "l \<in> set [s + 1..<e + 1] \<Longrightarrow> \<exists>h. level_vote bc l = Ok h \<and> preferred bc l h" for l
    using level_vote_preferred [OF inv(1), of l] proposer_levels_invD(2) [OF inv(1) assms(3)]
    by (auto simp del: upt_Suc)
  then have "\<And>l. l \<in> set [s + 1..<e + 1] \<Longrightarrow> \<exists>h. level_vote bc l = Ok h" by blast
  from rmap_total [OF this] obtain vs where vs: "rmap (level_vote bc) [s + 1..<e + 1] = Ok vs" ..
  have pref: "list_all2 (preferred bc) [s + 1..<e + 1] vs"
    by (rule list.rel_mono_strong [OF vs [unfolded rmap_eq_Ok]]) (metis best res.inject(1))
  then have "map (proposer_node_level_cf bc) vs = map Some [s + 1..<e + 1]"
    by (auto simp: list_all2_conv_all_nth preferred_def simp del: upt_Suc intro!: nth_equalityI)
  moreover have "voter_node_level_cf bc tip \<noteq> None"
    using assms(2) voter_tree_invD(2) [OF inv(2)] by (metis domIff option.distinct(1))
  ultimately show ?thesis
    using vs pref assms by (auto simp: unvoted_proposer_def valid_voter_def)
qed

text \<open>C30: the votes that a miner puts into a voter block on a voter tip and a proposer parent: one
  vote on every level after the deepest one the tip has voted on, each for the preferred block of its
  level, and a voter block with these votes is one that insertion accepts.\<close>

theorem unvoted_proposer_valid:
  assumes "chain_inv bc" and "voter_node_voted_level_cf bc tip = Some s"
    and "proposer_node_level_cf bc (parent hdr) = Some e" and "s \<le> e"
  shows "\<exists>vs. unvoted_proposer tip (parent hdr) bc = Ok vs \<and>
    list_all2 (preferred bc) [s + 1..<e + 1] vs \<and>
    valid_voter bc hdr \<lparr>chain_number = n, voter_parent = tip, votes = vs\<rparr>"
  using assms by (rule unvoted_valid)

theorem unvoted_proposer_valid_witness:
  "\<exists>vs. unvoted_proposer (index_hash 3) (parent (header example_proposer)) example_start = Ok vs \<and>
    list_all2 (preferred example_start) [0 + 1..<0 + 1] vs \<and>
    valid_voter example_start (header example_proposer)
      \<lparr>chain_number = 1, voter_parent = index_hash 3, votes = vs\<rparr>"
proof (rule unvoted_proposer_valid [OF example_start_inv])
  show "voter_node_voted_level_cf example_start (index_hash 3) = Some 0"
    by (simp add: example_start_level voter_genesis_hashes_3 vmap_Suc numeral_3_eq_3)
qed (simp_all add: example_start_level example_proposer_def block_new_def block_from_header_def header_new_def)

end
