(* ===== verification/Prism_Ledger_Insert.thy ===== *)
theory Prism_Ledger_Insert
  imports Prism_Ledger_Update Prism_Chain_Safety
begin

text \<open>
  Insertion of blocks keeps the invariants of the recorded votes and of the ledger, and the initial
  state has them. Every state that a sequence of insertions and ledger updates reaches is well-formed.
\<close>

section \<open>Proposer blocks\<close>

lemma votes_inv_proposer: "votes_inv bc \<Longrightarrow> votes_inv (with_proposer h hdr c l bc)"
proof -
  have "tip_votes (with_proposer h hdr c l bc) v = tip_votes bc v" for v
    by (rule tip_votes_cong) simp_all
  then show "votes_inv bc \<Longrightarrow> votes_inv (with_proposer h hdr c l bc)" by (simp add: votes_inv_def)
qed

text \<open>A block that nothing refers to changes no expansion.\<close>

lemma expand_fresh:
  assumes "proposer_inv bc" and "x \<in> dom (proposer_node_level_cf bc)" and "proposer_node_level_cf bc h = None"
  shows "expand ((proposer_ref_neighbor_cf bc)(h \<mapsto> rs)) c n x = expand (proposer_ref_neighbor_cf bc) c n x"
proof (rule expand_cong [where A = "dom (proposer_node_level_cf bc)"])
  fix y ys
  assume "proposer_ref_neighbor_cf bc y = Some ys"
  then show "set ys \<subseteq> dom (proposer_node_level_cf bc)"
    using proposer_dag.refs_less [OF assms(1)] by blast
qed (use assms in auto)

lemma ledger_upto_fresh:
  assumes "proposer_inv bc" and "leaders_ok bc" and "proposer_node_level_cf bc h = None"
  shows "ledger_upto ((proposer_ref_neighbor_cf bc)(h \<mapsto> rs)) (proposer_leader_sequence_cf bc) n = ledger_blocks bc n"
proof (induction n)
  case (Suc n)
  have "expand ((proposer_ref_neighbor_cf bc)(h \<mapsto> rs)) c (Suc n) x = expand (proposer_ref_neighbor_cf bc) c (Suc n) x"
    if "proposer_leader_sequence_cf bc n = Some x" for c x
    using expand_fresh [OF assms(1) _ assms(3)] leaders_okD [OF assms(2) that] by blast
  then show ?case using Suc
    by (simp add: level_blocks_def del: expand.simps fun_upd_apply split: option.split)
qed simp

lemma ledger_inv_proposer:
  assumes inv: "proposer_inv bc" and led: "ledger_inv bc" and new: "proposer_node_level_cf bc h = None"
  shows "ledger_inv (with_proposer h hdr c l bc)"
proof -
  let ?n = "proposer_ledger_tip bc + 1" and ?bc = "with_proposer h hdr c l bc"
  have at: "ledger_at bc ?n" using led by (simp add: ledger_inv_def)
  note ok = ledger_atD(1) [OF at]
  have upto: "ledger_blocks ?bc n = ledger_blocks bc n" for n
    using ledger_upto_fresh [OF inv ok new] by simp
  have lb: "level_blocks (proposer_ref_neighbor_cf ?bc) s n x = level_blocks (proposer_ref_neighbor_cf bc) s n x"
    if "proposer_leader_sequence_cf bc n = Some x" for s n x
    using expand_fresh [OF inv _ new] leaders_okD [OF ok that]
    by (simp add: level_blocks_def domI del: expand.simps)
  have "leaders_ok ?bc" using ok new by (auto simp: leaders_ok_def)
  moreover have "unconfirmed_proposers ?bc = dom (proposer_node_level_cf ?bc) - set (ledger_blocks ?bc ?n)"
    using ledger_atD(3) [OF at] ledger_blocks_dom [OF inv ok, of ?n] new unfolding upto by auto
  moreover have "proposer_ledger_order_cf ?bc n = (if n < ?n then map_option
      (level_blocks (proposer_ref_neighbor_cf ?bc) (set (ledger_blocks ?bc n)) n)
      (proposer_leader_sequence_cf ?bc n) else None)" for n
    unfolding upto using at lb by (cases "proposer_leader_sequence_cf bc n") (auto simp: ledger_at_def)
  ultimately show ?thesis
    using led at by (simp add: ledger_inv_def ledger_at_def del: with_proposer_simps(2))
qed

section \<open>Voter blocks\<close>

lemma chain_votes_fresh:
  assumes "voter_tree_inv bc" and "voter_node_level_cf bc h = None" and "voter_node_level_cf bc v = Some k"
  shows "chain_votes (with_voter h hdr c l i e bc) k v = chain_votes bc k v"
  using assms(3)
proof (induction k arbitrary: v)
  case (Suc k)
  obtain p where p: "voter_parent_neighbor_cf bc v = Some p" "voter_node_level_cf bc p = Some k"
    using voter_parent_obtain [OF assms(1) Suc.prems] by metis
  have "v \<noteq> h" using assms(2) Suc.prems by auto
  then show ?case using Suc.IH [OF p(2)] p(1) by simp
qed (use assms(2) in auto)

lemma votes_inv_voter:
  assumes inv: "voter_tree_inv bc" and votes: "votes_inv bc" and new: "voter_node_level_cf bc h = None"
  shows "votes_inv (with_voter h hdr c l i e bc)"
proof -
  have lev: "\<exists>k. voter_node_level_cf bc (voter_ledger_tips bc ! j) = Some k" if "j < num_chains bc" for j
    using votes_invD(2) [OF votes that] voter_tree_invD(1) [OF inv] by blast
  have tip: "tip_votes (with_voter h hdr c l i e bc) (voter_ledger_tips bc ! j) = tip_votes bc (voter_ledger_tips bc ! j)"
    "voter_ledger_tips bc ! j \<noteq> h" if "j < num_chains bc" for j
    using lev [OF that] chain_votes_fresh [OF inv new] new by (auto simp: tip_votes_def)
  show ?thesis
    using votes tip unfolding votes_inv_def by (auto simp del: fun_upd_apply) (auto simp: fun_upd_apply)
qed

lemma ledger_inv_voter: "ledger_inv (with_voter h hdr c l i e bc) = ledger_inv bc"
  by (simp add: ledger_inv_def ledger_at_def leaders_ok_def)

section \<open>Every block\<close>

lemma insert_block_full:
  assumes "full_inv bc" and "fresh bc (block_hash keccak ser b)" and "valid_content bc (header b) (content b)"
  shows "\<exists>bc'. insert_block keccak ser b bc = Ok bc' \<and> full_inv bc' \<and> ledger bc' = ledger bc"
proof -
  let ?h = "block_hash keccak ser b"
  have inv: "chain_inv bc" "votes_inv bc" "ledger_inv bc" "proposer_inv bc" "voter_tree_inv bc"
    using assms(1) by (simp_all add: full_inv_def chain_inv_def voter_inv_def)
  have new: "proposer_node_level_cf bc ?h = None" "voter_node_level_cf bc ?h = None"
    using assms(2) by (simp_all add: fresh_def)
  show ?thesis
  proof (cases "content b")
    case (Transaction c)
    let ?bc = "insert_transaction ?h (header b) bc"
    have "tip_votes ?bc v = tip_votes bc v" for v
      by (rule tip_votes_cong) (simp_all add: insert_transaction_def)
    then have "votes_inv ?bc" using inv(2) by (simp add: votes_inv_def insert_transaction_def num_chains_def)
    moreover have "ledger_inv ?bc"
      using inv(3) by (simp add: ledger_inv_def ledger_at_def leaders_ok_def insert_transaction_def)
    ultimately have "full_inv ?bc" using insert_transaction_inv [OF inv(1) assms(2)] by (simp add: full_inv_def)
    moreover have "ledger ?bc = ledger bc" by (simp add: ledger_def stored_ledger_def insert_transaction_def)
    ultimately show ?thesis using Transaction by (simp add: insert_block_def Let_def)
  next
    case (Proposer c)
    then obtain l where "insert_proposer ?h (header b) c bc = Ok (with_proposer ?h (header b) c l bc)"
      "chain_inv (with_proposer ?h (header b) c l bc)"
      using insert_proposer_inv [OF inv(1) assms(2), of "header b" c] assms(3) by auto
    then show ?thesis
      using Proposer votes_inv_proposer [OF inv(2)] ledger_inv_proposer [OF inv(4,3) new(1)]
      by (simp add: insert_block_def full_inv_def ledger_def stored_ledger_def)
  next
    case (Voter c)
    then obtain l i e where "insert_voter ?h (header b) c bc = Ok (with_voter ?h (header b) c l i e bc)"
      "chain_inv (with_voter ?h (header b) c l i e bc)"
      using insert_voter_inv [OF inv(1) assms(2), of "header b" c] assms(3) by auto
    then show ?thesis
      using Voter votes_inv_voter [OF inv(5,2) new(2)] inv(3)
      by (simp add: insert_block_def full_inv_def ledger_inv_voter ledger_def stored_ledger_def)
  qed
qed

section \<open>The initial state\<close>

lemma init_full_inv:
  assumes wf: "wf_genesis c" and pos: "0 < unat (voter_chains c)"
  shows "full_inv (init_state c counter_default (unat (voter_chains c)))"
proof -
  let ?n = "unat (voter_chains c)" and ?s = "init_state c counter_default (unat (voter_chains c))"
  let ?g = "proposer_genesis c"
  note look = vmap_Some [OF inj_voter_genesis [OF wf order_refl]]
  have at: "vmap ?n (\<lambda>i. voter_genesis c ! i) f (voter_genesis c ! i) = Some (f i)" if "i < ?n" for f :: "nat \<Rightarrow> 'v" and i
    unfolding look using that by blast
  have tip: "tip_votes ?s (voter_genesis c ! i) = [(?g, 0)]" if "i < ?n" for i
    by (simp add: tip_votes_def init_state_simps [OF pos] at [OF that])
  have rec: "recorded [?g \<mapsto> map (\<lambda>i. (i, 0)) [0..<?n]] h = (if h = ?g then map (\<lambda>i. (i, 0)) [0..<?n] else [])" for h
    by (simp add: recorded_def)
  have "votes_inv ?s"
    unfolding votes_inv_def
  proof (intro conjI allI impI)
    show "length (voter_ledger_tips ?s) = num_chains ?s" by (simp add: init_state_simps [OF pos])
    show "voter_node_chain_cf ?s (voter_ledger_tips ?s ! i) = Some i" if "i < num_chains ?s" for i
      using that by (simp add: init_state_simps [OF pos] at)
    show "all_distinct (proposer_node_vote_cf ?s)"
      by (simp add: init_state_simps [OF pos] all_distinct_def rec distinct_map inj_on_def)
    show "((i, l) \<in> set (recorded (proposer_node_vote_cf ?s) h)) =
        (i < num_chains ?s \<and> (h, l) \<in> set (tip_votes ?s (voter_ledger_tips ?s ! i)))" for h i l
      using tip [of i] by (auto simp: init_state_simps [OF pos] rec)
  qed
  moreover have "ledger_inv ?s"
  proof -
    have "ledger_blocks ?s (Suc 0) = [?g]" and lb: "level_blocks [?g \<mapsto> []] {} 0 ?g = [?g]"
      by (simp_all add: init_state_simps [OF pos] level_blocks_def)
    then show ?thesis by (simp add: ledger_inv_def ledger_at_def leaders_ok_def init_state_simps [OF pos])
  qed
  moreover have "chain_inv ?s"
    by (rule init_chain_inv [OF wf pos]) (simp_all add: counter_default_def)
  ultimately show ?thesis by (simp add: full_inv_def)
qed

section \<open>Reachable states\<close>

text \<open>A node inserts new blocks that passed validation and updates its ledger, in any order.\<close>

inductive step :: "(bytes \<Rightarrow> h256) \<Rightarrow> (header \<Rightarrow> bytes) \<Rightarrow> statistics \<Rightarrow> blockchain \<Rightarrow> blockchain \<Rightarrow> bool"
  for keccak ser st where
  insertion: "fresh bc (block_hash keccak ser b) \<Longrightarrow> valid_content bc (header b) (content b) \<Longrightarrow>
    insert_block keccak ser b bc = Ok bc' \<Longrightarrow> step keccak ser st bc bc'"
| ledger_update: "update_ledger st bc = Ok (bc', added, removed) \<Longrightarrow> step keccak ser st bc bc'"

inductive reachable ::
  "(bytes \<Rightarrow> h256) \<Rightarrow> (header \<Rightarrow> bytes) \<Rightarrow> statistics \<Rightarrow> blockchain_config \<Rightarrow> blockchain \<Rightarrow> bool"
  for keccak ser st c where
  start: "blockchain_new c counter_default = Ok bc \<Longrightarrow> reachable keccak ser st c bc"
| continue: "reachable keccak ser st c bc \<Longrightarrow> step keccak ser st bc bc' \<Longrightarrow> reachable keccak ser st c bc'"

inductive_cases stepE: "step keccak ser st bc bc'"

lemma step_full_inv: "step keccak ser st bc bc' \<Longrightarrow> full_inv bc \<Longrightarrow> full_inv bc'"
proof (erule stepE)
  fix b
  assume "full_inv bc" "fresh bc (block_hash keccak ser b)" "valid_content bc (header b) (content b)"
    "insert_block keccak ser b bc = Ok bc'"
  then show "full_inv bc'" using insert_block_full by fastforce
next
  fix added removed
  assume "full_inv bc" "update_ledger st bc = Ok (bc', added, removed)"
  then show "full_inv bc'" using update_ledger_step [of bc st] by (auto simp: ledger_step_def)
qed

lemma reachable_full_inv:
  assumes "reachable keccak ser st c bc" and "wf_genesis c" and "0 < unat (voter_chains c)"
  shows "full_inv bc"
  using assms(1)
proof induction
  case (start bc)
  then show ?case using blockchain_new_state [OF assms(2)] init_full_inv [OF assms(2,3)] by simp
qed (rule step_full_inv)

end
