(* ===== verification/Prism_Views.thy ===== *)
theory Prism_Views
  imports Prism_Blockchain
begin

text \<open>
  The views of the block graph that the visualisation and the experiments read
  (\<open>blockchain/mod.rs\<close>): the transaction blocks of the ledger, the bottom and tip of the trees, and
  the dump of the graph. The iterator of the database over a column family is the parameter
  \<open>entries\<close>; the JSON serialisation of a dump is the caller's.
\<close>

section \<open>The ledger and the trees\<close>

text \<open>The blocks of the levels from \<open>ledger_bottom\<close> to \<open>ledger_tip\<close>.\<close>

definition ledger_bottom :: "nat \<Rightarrow> blockchain \<Rightarrow> nat" where
  "ledger_bottom limit bc =
     (if limit < proposer_ledger_tip bc then proposer_ledger_tip bc - limit else 0)"

definition proposers_in_ledger :: "nat \<Rightarrow> blockchain \<Rightarrow> h256 list res" where
  "proposers_in_ledger limit bc =
     rfold (\<lambda>level acc. case proposer_ledger_order_cf bc level of
                          Some blocks \<Rightarrow> Ok (acc @ blocks) | None \<Rightarrow> Panic UnreachableCode)
       [ledger_bottom limit bc..<proposer_ledger_tip bc + 1] []"

definition proposer_transaction_in_ledger :: "nat \<Rightarrow> blockchain \<Rightarrow> (h256 \<times> h256 list) list res" where
  "proposer_transaction_in_ledger limit bc =
     rbind (proposers_in_ledger limit bc) (\<lambda>proposer_in_ledger.
       rmap (\<lambda>hash. case transaction_ref_neighbor_cf bc hash of
                      Some blocks \<Rightarrow> Ok (hash, blocks) | None \<Rightarrow> Panic UnreachableCode) proposer_in_ledger)"

definition proposer_bottom_tip :: "blockchain \<Rightarrow> (h256 \<times> h256 \<times> nat) res" where
  "proposer_bottom_tip bc =
     (case (case proposer_tree_level_cf bc 1 of Some (b # _) \<Rightarrow> Some b | _ \<Rightarrow> None) of
        Some proposer_bottom \<Rightarrow>
          (case proposer_tree_level_cf bc (proposer_best_level bc) of
             Some blocks \<Rightarrow> rbind (rnth blocks 0) (\<lambda>tip. Ok (proposer_bottom, tip, proposer_best_level bc))
           | None \<Rightarrow> Panic UnreachableCode)
      | None \<Rightarrow> Ok (0, 0, 0))"

type_synonym cf_iterator = "(h256 \<rightharpoonup> nat) \<Rightarrow> (h256 \<times> nat) list"

definition voter_bottom_tip :: "cf_iterator \<Rightarrow> blockchain \<Rightarrow> (h256 \<times> h256 \<times> nat) list res" where
  "voter_bottom_tip entries bc =
     rbind (rfold (\<lambda>(hash, chain) voters.
              case voter_node_level_cf bc hash of
                Some level \<Rightarrow>
                  if level = 1
                  then rbind (rnth voters chain) (\<lambda>v. rset voters chain (hash, snd v))
                  else Ok voters
              | None \<Rightarrow> Panic UnreachableCode)
            (entries (voter_node_chain_cf bc)) (replicate (length (voter_best bc)) (0, 0, 0)))
       (\<lambda>voters. Ok (map2 (\<lambda>v best. (fst v, fst best, snd best)) voters (voter_best bc)))"

section \<open>The dump\<close>

datatype edge_type = VoterToVoterParent | ProposerToProposerParent | VoterToProposerVote

record edge =
  edge_from :: string
  edge_to :: string
  edgetype :: edge_type

datatype proposer_status = Leader | Others

record proposer_info =
  prop_level :: nat
  prop_status :: proposer_status
  prop_votes :: u16

datatype voter_status = OnMainChain | Orphan

record voter_info =
  vote_chain :: nat
  vote_level :: nat
  vote_status :: voter_status
  deepest_vote_level :: nat

record dump_data =
  dump_edges :: "edge list"
  dump_proposer_levels :: "string list list"
  dump_proposer_leaders :: "(nat \<times> string) list"
  dump_voter_longest :: "string list"
  dump_proposer_nodes :: "(string \<times> proposer_info) list"
  dump_voter_nodes :: "(string \<times> voter_info) list"
  dump_transaction_in_ledger :: "string list"
  dump_transaction_unreferred :: "string list"
  dump_proposer_in_ledger :: "string list"
  dump_voter_chain_number :: "string list"
  dump_proposer_tree_number :: string

text \<open>The levels of the proposer tree from \<open>level\<close> on, up to the first missing one. The fuel is more
  than the number of levels.\<close>

fun tree_levels :: "blockchain \<Rightarrow> nat \<Rightarrow> nat \<Rightarrow> (nat \<times> h256 list) list res" where
  "tree_levels bc 0 level = Panic OutOfFuel"
| "tree_levels bc (Suc fuel) level =
     (case proposer_tree_level_cf bc level of
        Some blocks \<Rightarrow> rbind (tree_levels bc fuel (level + 1)) (\<lambda>rest. Ok ((level, blocks) # rest))
      | None \<Rightarrow> Ok [])"

text \<open>The pass over the proposer blocks: parent edges, node information, the lowest voter level of
  every chain and the votes by chain and level.\<close>

record pass_state =
  pass_edges :: "edge list"
  pass_proposers :: "(string \<times> proposer_info) list"
  pass_voters :: "(string \<times> voter_info) list"
  voter_lowest :: "nat list"
  vote_cache :: "((nat \<times> nat) \<times> h256 list) list"

definition cache_vote :: "h256 \<Rightarrow> nat \<times> nat \<Rightarrow> pass_state \<Rightarrow> pass_state res" where
  "cache_vote block vote s =
     (case vote of (chain, level) \<Rightarrow>
      rbind (unwrap (if chain < length (voter_lowest s) then Some (voter_lowest s ! chain) else None)) (\<lambda>lowest.
        Ok (s\<lparr>voter_lowest := (if level < lowest then (voter_lowest s)[chain := level] else voter_lowest s),
              vote_cache :=
                (case map_of (vote_cache s) (chain, level) of
                   Some v \<Rightarrow> AList.update (chain, level) (v @ [block]) (vote_cache s)
                 | None \<Rightarrow> AList.update (chain, level) [block] (vote_cache s))\<rparr>)))"

definition dump_proposer :: "blockchain \<Rightarrow> nat \<Rightarrow> h256 \<Rightarrow> pass_state \<Rightarrow> pass_state res" where
  "dump_proposer bc level block s =
     (let name = h256_to_string block;
          s1 = (case parent_neighbor_cf bc block of
                  Some p \<Rightarrow> s\<lparr>pass_edges := pass_edges s @
                     [\<lparr>edge_from = name, edge_to = h256_to_string p, edgetype = ProposerToProposerParent\<rparr>]\<rparr>
                | None \<Rightarrow> s);
          votes = (case proposer_node_vote_cf bc block of Some d \<Rightarrow> d | None \<Rightarrow> []);
          s2 = s1\<lparr>pass_proposers := AList.update name
                 \<lparr>prop_level = level, prop_status = Others, prop_votes = word_of_nat (length votes)\<rparr>
                 (pass_proposers s1)\<rparr>
      in rfold (cache_vote block) votes s2)"

text \<open>The pass over the main chain of one voter tree, from the best block down to the lowest level.\<close>

function dump_main_chain :: "blockchain \<Rightarrow> nat \<Rightarrow> nat \<Rightarrow> h256 \<Rightarrow> nat \<Rightarrow> pass_state \<Rightarrow> pass_state res" where
  "dump_main_chain bc chain lowest voter_block level s =
     (if level < lowest then Ok s
      else (case voter_node_voted_level_cf bc voter_block of
        None \<Rightarrow> Panic UnreachableCode
      | Some deepest \<Rightarrow>
          let name = h256_to_string voter_block;
              votes = (case map_of (vote_cache s) (chain, level) of Some v \<Rightarrow> v | None \<Rightarrow> []);
              s1 = s\<lparr>pass_voters := AList.update name \<lparr>vote_chain = chain, vote_level = level,
                       vote_status = OnMainChain, deepest_vote_level = deepest\<rparr> (pass_voters s),
                     pass_edges := pass_edges s @ map (\<lambda>vote. \<lparr>edge_from = name,
                       edge_to = h256_to_string vote, edgetype = VoterToProposerVote\<rparr>) votes\<rparr>
          in (case voter_parent_neighbor_cf bc voter_block of
               None \<Rightarrow> Ok s1
             | Some p \<Rightarrow>
                 let s2 = s1\<lparr>pass_edges := pass_edges s1 @ [\<lparr>edge_from = name,
                            edge_to = h256_to_string p, edgetype = VoterToVoterParent\<rparr>]\<rparr>
                 in if level = 0 then Panic ArithOverflow
                    else dump_main_chain bc chain lowest p (level - 1) s2)))"
  by pat_completeness auto

termination
  by (relation "measure (\<lambda>(bc, chain, lowest, v, level, s). level)") auto

declare dump_main_chain.simps [simp del]

text \<open>The pass over all voter blocks for forks and orphans, which also counts the blocks per chain.\<close>

definition dump_orphan :: "blockchain \<Rightarrow> h256 \<times> nat \<Rightarrow> pass_state \<times> nat list \<Rightarrow> (pass_state \<times> nat list) res" where
  "dump_orphan bc kv acc =
     (case kv of (hash, chain) \<Rightarrow> case acc of (s, voter_number) \<Rightarrow>
      let voter_block = h256_to_string hash in
      rbind (rnth voter_number chain) (\<lambda>n.
      rbind (rset voter_number chain (n + 1)) (\<lambda>voter_number1.
      case voter_node_level_cf bc hash of
        None \<Rightarrow> Panic UnreachableCode
      | Some level \<Rightarrow>
          rbind (unwrap (if chain < length (voter_lowest s) then Some (voter_lowest s ! chain) else None)) (\<lambda>lowest.
          if lowest \<le> level \<and> map_of (pass_voters s) voter_block = None then
            (case voter_node_voted_level_cf bc hash of
               None \<Rightarrow> Panic UnreachableCode
             | Some deepest \<Rightarrow>
                 (case vote_neighbor_cf bc hash of
                    None \<Rightarrow> Panic UnreachableCode
                  | Some vs \<Rightarrow>
                      Ok (s\<lparr>pass_voters := AList.update voter_block \<lparr>vote_chain = chain, vote_level = level,
                              vote_status = Orphan, deepest_vote_level = deepest\<rparr> (pass_voters s),
                            pass_edges := pass_edges s @
                              map (\<lambda>vote. \<lparr>edge_from = voter_block, edge_to = h256_to_string vote,
                                             edgetype = VoterToProposerVote\<rparr>) vs @
                              (case voter_parent_neighbor_cf bc hash of
                                 Some p \<Rightarrow> [\<lparr>edge_from = voter_block, edge_to = h256_to_string p,
                                              edgetype = VoterToVoterParent\<rparr>]
                               | None \<Rightarrow> [])\<rparr>, voter_number1)))
          else Ok (s, voter_number1)))))"

text \<open>The leaders of the levels of the tree.\<close>

definition dump_leader ::
  "blockchain \<Rightarrow> nat \<Rightarrow> (nat \<times> string) list \<times> (string \<times> proposer_info) list \<Rightarrow>
   (nat \<times> string) list \<times> (string \<times> proposer_info) list" where
  "dump_leader bc level acc =
     (case acc of (leaders, props) \<Rightarrow>
      (case proposer_leader_sequence_cf bc level of
        None \<Rightarrow> (leaders, props)
      | Some h \<Rightarrow>
          let name = h256_to_string h in
          (leaders @ [(level, name)],
           (case map_of props name of
              Some p \<Rightarrow> AList.update name (p\<lparr>prop_status := Leader\<rparr>) props
            | None \<Rightarrow> props))))"

fun decimal :: "nat \<Rightarrow> string" where
  "decimal n = (if n < 10 then [char_of (48 + n)] else decimal (n div 10) @ [char_of (48 + n mod 10)])"

declare decimal.simps [simp del]

definition number_label :: "nat \<Rightarrow> nat \<Rightarrow> string" where
  "number_label a b = ''('' @ decimal a @ ''/'' @ decimal b @ '') ''"

text \<open>The transaction blocks the ledger's proposer blocks refer to.\<close>

definition ledger_transactions_of :: "blockchain \<Rightarrow> h256 list \<Rightarrow> string list res" where
  "ledger_transactions_of bc proposer_in_ledger =
     rbind (rmap (\<lambda>hash. case transaction_ref_neighbor_cf bc hash of
                           Some blocks \<Rightarrow> Ok (map h256_to_string blocks)
                         | None \<Rightarrow> Panic UnreachableCode) proposer_in_ledger)
       (\<lambda>blocks. Ok (concat blocks))"

definition tree_number :: "nat \<Rightarrow> blockchain \<Rightarrow> string res" where
  "tree_number fuel bc =
     rbind (tree_levels bc fuel 0) (\<lambda>levels.
       Ok (number_label (length levels) (sum_list (map (\<lambda>(k, v). length v) levels))))"

definition chain_numbers :: "(h256 \<times> nat) list \<Rightarrow> nat list \<Rightarrow> string list" where
  "chain_numbers voter_longest voter_number =
     map2 (\<lambda>longest n. if n = 0 then [] else number_label (1 + snd longest) n) voter_longest voter_number"

definition edges_to_show :: "string list \<Rightarrow> edge list \<Rightarrow> edge list" where
  "edges_to_show nodes_to_show edges =
     filter (\<lambda>e. edge_from e \<in> set nodes_to_show \<and> edge_to e \<in> set nodes_to_show) edges"

text \<open>The pass over the main chains of all voter trees.\<close>

definition dump_chains :: "blockchain \<Rightarrow> pass_state \<Rightarrow> pass_state res" where
  "dump_chains bc s =
     rfold (\<lambda>chain s.
         rbind (rnth (voter_best bc) chain) (\<lambda>longest.
         rbind (unwrap (if chain < length (voter_lowest s) then Some (voter_lowest s ! chain) else None)) (\<lambda>lowest.
           dump_main_chain bc chain lowest (fst longest) (snd longest) s)))
       [0..<length (voter_best bc)] s"

definition dump ::
  "cf_iterator \<Rightarrow> ((h256 \<times> nat) list \<Rightarrow> (h256 \<times> nat) list) \<Rightarrow> nat \<Rightarrow> bool \<Rightarrow> blockchain \<Rightarrow> dump_data res" where
  "dump entries iter limit display_fork bc =
     (let voter_longest = voter_best bc;
          fuel = proposer_best_level bc + 2;
          s0 = \<lparr>pass_edges = [], pass_proposers = [], pass_voters = [],
                voter_lowest = map snd voter_longest, vote_cache = []\<rparr>
      in rbind (tree_levels bc fuel (ledger_bottom limit bc)) (\<lambda>proposer_tree.
      rbind (rfold (\<lambda>(level, blocks). rfold (dump_proposer bc level) blocks) proposer_tree s0) (\<lambda>s1.
      rbind (dump_chains bc s1) (\<lambda>s2.
      rbind (if display_fork
             then rfold (dump_orphan bc) (entries (voter_node_chain_cf bc)) (s2, replicate (length voter_longest) 0)
             else Ok (s2, replicate (length voter_longest) 0)) (\<lambda>(s3, voter_number).
      let (leaders, props) = fold (dump_leader bc) (map fst proposer_tree) ([], pass_proposers s3) in
      rbind (proposers_in_ledger limit bc) (\<lambda>proposer_in_ledger.
      rbind (ledger_transactions_of bc proposer_in_ledger) (\<lambda>transaction_in_ledger.
      rbind (tree_number fuel bc) (\<lambda>proposer_tree_number.
        Ok \<lparr>dump_edges = edges_to_show (map fst props @ map fst (pass_voters s3)) (pass_edges s3),
            dump_proposer_levels = map (\<lambda>(k, v). map h256_to_string v) proposer_tree,
            dump_proposer_leaders = leaders,
            dump_voter_longest = map (\<lambda>(h, u). h256_to_string h) voter_longest,
            dump_proposer_nodes = props,
            dump_voter_nodes = pass_voters s3,
            dump_transaction_in_ledger = transaction_in_ledger,
            dump_transaction_unreferred = map (\<lambda>h. h256_to_string (fst h)) (iter (unreferred_transactions bc)),
            dump_proposer_in_ledger = map h256_to_string proposer_in_ledger,
            dump_voter_chain_number = chain_numbers voter_longest voter_number,
            dump_proposer_tree_number = proposer_tree_number\<rparr>))))))))"

end
