(* ===== verification/Prism_Validation.thy ===== *)
theory Prism_Validation
  imports Prism_Chain_Safety Prism_Views
begin

text \<open>
  Validation of received blocks (\<open>validation/*.rs\<close>): proof of work and sortition, the sortition
  proof, availability of the referred blocks and the semantics of the content. The checks accept only
  blocks that the insertion into the block graph may rely on.
\<close>

section \<open>Results\<close>

datatype block_result =
    Pass
  | WrongPoW
  | WrongSortitionId
  | WrongSortitionProof h256 h256 "h256 list" nat nat
  | MissingReferences "h256 list"
  | WrongProposerRef
  | WrongChainNumber
  | WrongVoteLevel
  | EmptyTransaction
  | ZeroValue
  | InsufficientInput
  | WrongSignature

definition newline :: string where "newline = [CHR 0x0A]"

fun block_result_display :: "block_result \<Rightarrow> string" where
  "block_result_display Pass = ''validation passed''"
| "block_result_display WrongPoW = ''PoW larger than difficulty''"
| "block_result_display WrongSortitionId = ''Sortition id is not same as content type''"
| "block_result_display (WrongSortitionProof root data pf sid leaf_size) =
     ''Sortition Merkle proof is incorrect'' @ newline @
     ''Root '' @ h256_to_string root @ newline @
     ''Hash '' @ h256_to_string data @ newline @
     concat (map (\<lambda>h. ''Proof '' @ h256_to_string h @ newline) pf) @
     ''Id '' @ decimal sid @ '', Leaf size'' @ decimal leaf_size @ newline"
| "block_result_display (MissingReferences _) = ''referred blocks not in system''"
| "block_result_display WrongProposerRef = ''referred proposer blocks level larger than parent''"
| "block_result_display WrongChainNumber = ''chain number out of range''"
| "block_result_display WrongVoteLevel = ''incorrent vote levels''"
| "block_result_display EmptyTransaction = ''empty transaction input or output''"
| "block_result_display ZeroValue = ''transaction input or output value contains a zero''"
| "block_result_display InsufficientInput = ''insufficient input''"
| "block_result_display WrongSignature = ''signature mismatch''"

section \<open>Proof of work and sortition\<close>

definition check_pow_sortition_id ::
  "(bytes \<Rightarrow> h256) \<Rightarrow> (header \<Rightarrow> bytes) \<Rightarrow> block \<Rightarrow> blockchain_config \<Rightarrow> block_result res" where
  "check_pow_sortition_id keccak ser b cfg =
     rbind (sortition_hash cfg (block_hash keccak ser b) (difficulty (header b))) (\<lambda>sortition_id.
       case sortition_id of
         Some sid \<Rightarrow>
           let correct_sortition_id =
                 (case content b of
                    Proposer _ \<Rightarrow> PROPOSER_INDEX
                  | Transaction _ \<Rightarrow> TRANSACTION_INDEX
                  | Voter c \<Rightarrow> chain_number c + FIRST_VOTER_INDEX)
           in if sid \<noteq> correct_sortition_id then Ok WrongSortitionId else Ok Pass
       | None \<Rightarrow> Ok WrongPoW)"

definition check_sortition_proof ::
  "(bytes \<Rightarrow> h256) \<Rightarrow> (header \<Rightarrow> bytes) \<Rightarrow> block \<Rightarrow> blockchain_config \<Rightarrow> block_result res" where
  "check_sortition_proof keccak ser b cfg =
     rbind (sortition_hash cfg (block_hash keccak ser b) (difficulty (header b))) (\<lambda>sortition_id.
       case sortition_id of
         Some sid \<Rightarrow>
           rbind (content_hash keccak (content b)) (\<lambda>ch.
             let root = content_merkle_root (header b);
                 leaf_size = unat (voter_chains cfg + FIRST_VOTER_INDEX)
             in rbind (verify keccak root ch (sortition_proof b) (unat sid) leaf_size) (\<lambda>ok.
                  if \<not> ok then Ok (WrongSortitionProof root ch (sortition_proof b) (unat sid) leaf_size)
                  else Ok Pass))
       | None \<Rightarrow> Panic UnreachableCode)"

section \<open>Availability\<close>

definition check_proposer_block_exists :: "h256 \<Rightarrow> blockchain \<Rightarrow> bool" where
  "check_proposer_block_exists h bc = contains_proposer h bc"

definition check_voter_block_exists :: "h256 \<Rightarrow> blockchain \<Rightarrow> bool" where
  "check_voter_block_exists h bc = contains_voter h bc"

definition check_transaction_block_exists :: "h256 \<Rightarrow> blockchain \<Rightarrow> bool" where
  "check_transaction_block_exists h bc = contains_transaction h bc"

definition proposer_missing_references :: "proposer_content \<Rightarrow> blockchain \<Rightarrow> h256 list" where
  "proposer_missing_references c bc =
     filter (\<lambda>h. \<not> check_transaction_block_exists h bc) (transaction_refs c) @
     filter (\<lambda>h. \<not> check_proposer_block_exists h bc) (proposer_refs c)"

definition voter_missing_references :: "voter_content \<Rightarrow> blockchain \<Rightarrow> h256 list" where
  "voter_missing_references c bc =
     (if check_voter_block_exists (voter_parent c) bc then [] else [voter_parent c]) @
     filter (\<lambda>h. \<not> check_proposer_block_exists h bc) (votes c)"

definition check_data_availability :: "block \<Rightarrow> blockchain \<Rightarrow> block_result" where
  "check_data_availability b bc =
     (let p = parent (header b);
          missing = (if check_proposer_block_exists p bc then [] else [p]) @
            (case content b of
               Proposer c \<Rightarrow> proposer_missing_references c bc
             | Voter c \<Rightarrow> voter_missing_references c bc
             | Transaction _ \<Rightarrow> [])
      in if missing \<noteq> [] then MissingReferences missing else Pass)"

section \<open>Content\<close>

text \<open>The loop stops at the first reference that is too deep.\<close>

fun refs_within :: "nat \<Rightarrow> h256 list \<Rightarrow> blockchain \<Rightarrow> bool res" where
  "refs_within parent_level [] bc = Ok True"
| "refs_within parent_level (h # hs) bc =
     rbind (proposer_level h bc) (\<lambda>l. if parent_level < l then Ok False else refs_within parent_level hs bc)"

definition check_ref_proposer_level :: "h256 \<Rightarrow> proposer_content \<Rightarrow> blockchain \<Rightarrow> bool res" where
  "check_ref_proposer_level p c bc =
     rbind (proposer_level p bc) (\<lambda>parent_level. refs_within parent_level (proposer_refs c) bc)"

definition check_chain_number :: "voter_content \<Rightarrow> blockchain \<Rightarrow> bool res" where
  "check_chain_number c bc =
     rbind (voter_chain_number (voter_parent c) bc) (\<lambda>chain_num. Ok (chain_num = unat (chain_number c)))"

fun levels_match :: "nat \<Rightarrow> h256 list \<Rightarrow> blockchain \<Rightarrow> bool res" where
  "levels_match start [] bc = Ok True"
| "levels_match start (v # vs) bc =
     rbind (proposer_level v bc) (\<lambda>l. if start + 1 \<noteq> l then Ok False else levels_match (start + 1) vs bc)"

definition check_levels_voted :: "voter_content \<Rightarrow> blockchain \<Rightarrow> h256 \<Rightarrow> bool res" where
  "check_levels_voted c bc p =
     rbind (deepest_voted_level (voter_parent c) bc) (\<lambda>start.
     rbind (proposer_level p bc) (\<lambda>end_level.
       if end_level < start then Ok False
       else if length (votes c) \<noteq> end_level - start then Ok False
       else levels_match start (votes c) bc))"

definition check_content_semantic :: "crypto \<Rightarrow> block \<Rightarrow> blockchain \<Rightarrow> block_result res" where
  "check_content_semantic cr b bc =
     (let p = parent (header b) in
      case content b of
        Proposer c \<Rightarrow>
          rbind (check_ref_proposer_level p c bc) (\<lambda>ok. Ok (if ok then Pass else WrongProposerRef))
      | Voter c \<Rightarrow>
          rbind (check_chain_number c bc) (\<lambda>chain_ok.
            if \<not> chain_ok then Ok WrongChainNumber
            else rbind (check_levels_voted c bc p) (\<lambda>ok. Ok (if ok then Pass else WrongVoteLevel)))
      | Transaction c \<Rightarrow>
          Ok (if check_signature_batch cr (transactions c) then Pass else WrongSignature))"

section \<open>What the checks establish\<close>

lemma refs_within_iff:
  "refs_within l hs bc = Ok True \<longleftrightarrow> (\<forall>h \<in> set hs. \<exists>k. proposer_node_level_cf bc h = Some k \<and> k \<le> l)"
  by (induction hs) (auto simp: res_simps proposer_level_def not_less split: if_splits)

lemma refs_within_total:
  "\<forall>h \<in> set hs. contains_proposer h bc \<Longrightarrow> is_ok (refs_within l hs bc)"
  by (induction hs) (auto simp: proposer_level_def contains_proposer_def)

lemma levels_match_iff:
  "levels_match s vs bc = Ok True \<longleftrightarrow> map (proposer_node_level_cf bc) vs = map Some [s + 1..<s + 1 + length vs]"
proof (induction vs arbitrary: s)
  case (Cons v vs)
  have "[s + 1..<s + 1 + length (v # vs)] = (s + 1) # [Suc s + 1..<Suc s + 1 + length vs]"
    by (simp add: upt_conv_Cons del: upt_Suc)
  then show ?case using Cons.IH [of "Suc s"]
    by (auto simp: res_simps proposer_level_def simp del: upt_Suc split: if_splits)
qed simp

lemma levels_match_total:
  "\<forall>h \<in> set vs. contains_proposer h bc \<Longrightarrow> is_ok (levels_match s vs bc)"
  by (induction vs arbitrary: s) (auto simp: proposer_level_def contains_proposer_def)

lemma availability_Pass:
  "check_data_availability b bc = Pass \<longleftrightarrow> contains_proposer (parent (header b)) bc \<and>
     (case content b of
        Proposer c \<Rightarrow> (\<forall>h \<in> set (transaction_refs c). contains_transaction h bc) \<and>
          (\<forall>h \<in> set (proposer_refs c). contains_proposer h bc)
      | Voter c \<Rightarrow> contains_voter (voter_parent c) bc \<and> (\<forall>h \<in> set (votes c). contains_proposer h bc)
      | Transaction _ \<Rightarrow> True)"
  by (auto simp: check_data_availability_def Let_def proposer_missing_references_def voter_missing_references_def
      check_proposer_block_exists_def check_voter_block_exists_def check_transaction_block_exists_def
      filter_empty_conv split: content.splits if_splits)

lemma semantic_valid:
  assumes "check_data_availability b bc = Pass" and "check_content_semantic cr b bc = Ok Pass"
  shows "valid_content bc (header b) (content b)"
proof (cases "content b")
  case (Transaction c)
  then show ?thesis by simp
next
  case (Proposer c)
  then show ?thesis using assms(2)
    by (auto simp: check_content_semantic_def check_ref_proposer_level_def valid_proposer_def res_simps
        proposer_level_def refs_within_iff split: if_splits)
next
  case (Voter c)
  obtain s e where l: "voter_node_voted_level_cf bc (voter_parent c) = Some s"
    "proposer_node_level_cf bc (parent (header b)) = Some e" "\<not> e < s" "length (votes c) = e - s"
    "levels_match s (votes c) bc = Ok True"
    using assms(2) Voter
    by (auto simp: check_content_semantic_def check_levels_voted_def deepest_voted_level_def proposer_level_def
        res_simps split: if_splits)
  then have "s + 1 + length (votes c) = e + 1" by simp
  with l(5) have "map (proposer_node_level_cf bc) (votes c) = map Some [s + 1..<e + 1]"
    unfolding levels_match_iff by (simp only:)
  moreover have "voter_node_level_cf bc (voter_parent c) \<noteq> None"
    using assms(1) Voter by (simp add: availability_Pass contains_voter_def)
  ultimately show ?thesis using l(1-3) Voter by (auto simp: valid_voter_def)
qed

lemma semantic_total:
  assumes inv: "chain_inv bc" and av: "check_data_availability b bc = Pass"
  shows "is_ok (check_content_semantic cr b bc)"
proof -
  have par: "contains_proposer (parent (header b)) bc" using av by (simp add: availability_Pass)
  then obtain e where e: "proposer_node_level_cf bc (parent (header b)) = Some e" by (auto simp: contains_proposer_def)
  show ?thesis
  proof (cases "content b")
    case (Transaction c)
    then show ?thesis by (simp add: check_content_semantic_def)
  next
    case (Proposer c)
    then obtain r where "refs_within e (proposer_refs c) bc = Ok r"
      using refs_within_total [of "proposer_refs c" bc e] av by (auto simp: availability_Pass is_ok_iff)
    then show ?thesis using Proposer e
      by (simp add: check_content_semantic_def check_ref_proposer_level_def proposer_level_def)
  next
    case (Voter c)
    have tree: "voter_tree_inv bc" using inv by (simp add: chain_inv_def voter_inv_def)
    have "voter_parent c \<in> dom (voter_node_level_cf bc)"
      using av Voter by (auto simp: availability_Pass contains_voter_def)
    then obtain i s where "voter_node_chain_cf bc (voter_parent c) = Some i"
      "voter_node_voted_level_cf bc (voter_parent c) = Some s"
      using voter_tree_invD(1,2) [OF tree] by blast
    moreover obtain r where "levels_match s (votes c) bc = Ok r"
      using levels_match_total [of "votes c" bc s] av Voter by (auto simp: availability_Pass is_ok_iff)
    ultimately show ?thesis using Voter e
      by (simp add: check_content_semantic_def check_chain_number_def check_levels_voted_def voter_chain_number_def
          deepest_voted_level_def proposer_level_def)
  qed
qed

text \<open>C19: a block that passes the availability and the content checks may be inserted: it is valid in the
  sense that insertion relies on, so on a well-formed graph the insertion of a new such block never
  panics and keeps the graph well-formed. On a block whose references are available the content check
  itself never panics.\<close>

theorem validation_sound:
  assumes "chain_inv bc" and "check_data_availability b bc = Pass"
  shows "is_ok (check_content_semantic cr b bc) \<and>
    (check_content_semantic cr b bc = Ok Pass \<longrightarrow> fresh bc (block_hash keccak ser b) \<longrightarrow>
      valid_content bc (header b) (content b) \<and>
      (\<exists>bc'. insert_block keccak ser b bc = Ok bc' \<and> chain_inv bc'))"
proof
  show "check_content_semantic cr b bc = Ok Pass \<longrightarrow> fresh bc (block_hash keccak ser b) \<longrightarrow>
      valid_content bc (header b) (content b) \<and> (\<exists>bc'. insert_block keccak ser b bc = Ok bc' \<and> chain_inv bc')"
    using semantic_valid [OF assms(2)] insert_block_inv [OF assms(1)] by blast
  show "is_ok (check_content_semantic cr b bc)" by (rule semantic_total [OF assms])
qed

theorem validation_sound_witness:
  "is_ok (check_content_semantic example_crypto example_proposer example_start) \<and>
    (\<exists>bc'. insert_block (\<lambda>_. 100) (\<lambda>_. []) example_proposer example_start = Ok bc' \<and> chain_inv bc')"
proof -
  have "check_data_availability example_proposer example_start = Pass"
    by (simp add: availability_Pass example_proposer_def block_new_def block_from_header_def header_new_def
        contains_proposer_def example_start_level)
  moreover have "check_content_semantic example_crypto example_proposer example_start = Ok Pass"
    by (simp add: check_content_semantic_def check_ref_proposer_level_def proposer_level_def example_proposer_def
        block_new_def block_from_header_def header_new_def example_start_level)
  moreover have "fresh example_start (block_hash (\<lambda>_. 100) (\<lambda>_. []) example_proposer)"
    by (rule example_fresh) (simp add: block_hash_def header_hash_def)
  ultimately show ?thesis using validation_sound [OF example_start_inv] by blast
qed

end
