(* ===== verification/Prism_Mempool.thy ===== *)
theory Prism_Mempool
  imports Prism_Transaction "HOL-Library.AList"
begin

text \<open>
  The memory pool of transactions (\<open>miner/memory_pool.rs\<close>) and the handler of new transactions
  (\<open>handler/new_transaction.rs\<close>). The pool keeps its transactions by hash and by arrival index; the
  hash map is an association list with distinct keys, the B-tree map a list sorted by key. It
  implements a first-in first-out sequence of transactions.
\<close>

section \<open>Ordered maps\<close>

definition btree_insert :: "'k::linorder \<Rightarrow> 'v \<Rightarrow> ('k \<times> 'v) list \<Rightarrow> ('k \<times> 'v) list" where
  "btree_insert k v m = takeWhile (\<lambda>e. fst e < k) m @ (k, v) # dropWhile (\<lambda>e. fst e \<le> k) m"

definition btree_remove :: "'k \<Rightarrow> ('k \<times> 'v) list \<Rightarrow> ('k \<times> 'v) list" where
  "btree_remove k m = filter (\<lambda>e. fst e \<noteq> k) m"

lemma btree_insert_last:
  assumes "\<forall>e \<in> set m. fst e < k"
  shows "btree_insert k v m = m @ [(k, v)]"
proof -
  have "takeWhile (\<lambda>e. fst e < k) m = m" using assms by (simp add: takeWhile_eq_all_conv)
  moreover have "dropWhile (\<lambda>e. fst e \<le> k) m = []" using assms by (auto simp: dropWhile_eq_Nil_conv)
  ultimately show ?thesis by (simp add: btree_insert_def)
qed

lemma alist_update_fresh:
  assumes "k \<notin> fst ` set m"
  shows "AList.update k v m = m @ [(k, v)]"
  using assms by (induction m) auto

section \<open>The pool\<close>

record entry =
  entry_transaction :: transaction
  storage_index :: nat

record memory_pool =
  num_transactions :: nat
  max_transactions :: nat
  pool_counter :: nat
  by_hash :: "(h256 \<times> entry) list"
  by_storage_index :: "(nat \<times> h256) list"

definition pool_new :: "nat \<Rightarrow> memory_pool" where
  "pool_new size_limit = \<lparr>num_transactions = 0, max_transactions = size_limit, pool_counter = 0,
     by_hash = [], by_storage_index = []\<rparr>"

definition pool_insert :: "transaction \<Rightarrow> memory_pool \<Rightarrow> memory_pool" where
  "pool_insert tx p =
     (if max_transactions p < num_transactions p then p
      else
        let hash = tx_hash tx;
            e = \<lparr>entry_transaction = tx, storage_index = pool_counter p\<rparr>
        in p\<lparr>pool_counter := pool_counter p + 1,
             by_storage_index := btree_insert (storage_index e) hash (by_storage_index p),
             by_hash := AList.update hash e (by_hash p),
             num_transactions := num_transactions p + 1\<rparr>)"

definition pool_get :: "h256 \<Rightarrow> memory_pool \<Rightarrow> entry option" where
  "pool_get h p = map_of (by_hash p) h"

definition pool_contains :: "h256 \<Rightarrow> memory_pool \<Rightarrow> bool" where
  "pool_contains h p = (map_of (by_hash p) h \<noteq> None)"

definition remove_and_get :: "h256 \<Rightarrow> memory_pool \<Rightarrow> (entry option \<times> memory_pool) res" where
  "remove_and_get hash p =
     (case map_of (by_hash p) hash of
        None \<Rightarrow> Ok (None, p)
      | Some e \<Rightarrow>
          rbind (rsub (num_transactions p) 1) (\<lambda>n.
            Ok (Some e, p\<lparr>by_hash := AList.delete hash (by_hash p),
                          by_storage_index := btree_remove (storage_index e) (by_storage_index p),
                          num_transactions := n\<rparr>)))"

definition remove_by_hash :: "h256 \<Rightarrow> memory_pool \<Rightarrow> memory_pool res" where
  "remove_by_hash hash p = rbind (remove_and_get hash p) (\<lambda>(_, p'). Ok p')"

definition get_transactions :: "nat \<Rightarrow> memory_pool \<Rightarrow> transaction list res" where
  "get_transactions n p =
     rmap (\<lambda>hash. rbind (unwrap (pool_get hash p)) (\<lambda>e. Ok (entry_transaction e)))
       (take n (map snd (by_storage_index p)))"

definition pool_len :: "memory_pool \<Rightarrow> nat" where
  "pool_len p = length (by_hash p)"

definition new_transaction :: "transaction \<Rightarrow> memory_pool \<Rightarrow> memory_pool" where
  "new_transaction tx p = (if \<not> pool_contains (tx_hash tx) p then pool_insert tx p else p)"

section \<open>Invariant\<close>

definition pool_inv :: "memory_pool \<Rightarrow> bool" where
  "pool_inv p \<longleftrightarrow>
     sorted_wrt (<) (map fst (by_storage_index p)) \<and>
     (\<forall>i h. (i, h) \<in> set (by_storage_index p) \<longrightarrow> i < pool_counter p) \<and>
     distinct (map fst (by_hash p)) \<and>
     (\<forall>h e. (h, e) \<in> set (by_hash p) \<longrightarrow>
        tx_hash (entry_transaction e) = h \<and> (storage_index e, h) \<in> set (by_storage_index p)) \<and>
     (\<forall>i h. (i, h) \<in> set (by_storage_index p) \<longrightarrow> (\<exists>e. (h, e) \<in> set (by_hash p) \<and> storage_index e = i)) \<and>
     num_transactions p = length (by_storage_index p) \<and>
     num_transactions p \<le> max_transactions p + 1"

text \<open>The transactions in the order of their arrival.\<close>

definition pool_txs :: "memory_pool \<Rightarrow> transaction list" where
  "pool_txs p = map (\<lambda>e. entry_transaction (the (map_of (by_hash p) (snd e)))) (by_storage_index p)"

lemma pool_invD:
  assumes "pool_inv p"
  shows "sorted_wrt (<) (map fst (by_storage_index p))" "distinct (map fst (by_storage_index p))"
    "(i, h) \<in> set (by_storage_index p) \<Longrightarrow> i < pool_counter p"
    "distinct (map fst (by_hash p))"
    "(h, e) \<in> set (by_hash p) \<Longrightarrow> tx_hash (entry_transaction e) = h"
    "(h, e) \<in> set (by_hash p) \<Longrightarrow> (storage_index e, h) \<in> set (by_storage_index p)"
    "(i, h) \<in> set (by_storage_index p) \<Longrightarrow> \<exists>e. (h, e) \<in> set (by_hash p) \<and> storage_index e = i"
    "num_transactions p = length (by_storage_index p)" "num_transactions p \<le> max_transactions p + 1"
  using assms unfolding pool_inv_def strict_sorted_iff by blast+

lemma pool_invI:
  assumes "sorted_wrt (<) (map fst (by_storage_index p))"
    and "\<And>i h. (i, h) \<in> set (by_storage_index p) \<Longrightarrow> i < pool_counter p"
    and "distinct (map fst (by_hash p))"
    and "\<And>h e. (h, e) \<in> set (by_hash p) \<Longrightarrow>
      tx_hash (entry_transaction e) = h \<and> (storage_index e, h) \<in> set (by_storage_index p)"
    and "\<And>i h. (i, h) \<in> set (by_storage_index p) \<Longrightarrow> \<exists>e. (h, e) \<in> set (by_hash p) \<and> storage_index e = i"
    and "num_transactions p = length (by_storage_index p)" and "num_transactions p \<le> max_transactions p + 1"
  shows "pool_inv p"
  using assms unfolding pool_inv_def by blast

lemma entry_at:
  assumes "pool_inv p" and "(i, h) \<in> set (by_storage_index p)"
  shows "\<exists>e. map_of (by_hash p) h = Some e \<and> storage_index e = i \<and> tx_hash (entry_transaction e) = h"
proof -
  obtain e where e: "(h, e) \<in> set (by_hash p)" "storage_index e = i" using pool_invD(7) [OF assms] by blast
  then have "map_of (by_hash p) h = Some e" using pool_invD(4) [OF assms(1)] by simp
  then show ?thesis using e pool_invD(5) [OF assms(1) e(1)] by simp
qed

lemma keys_pool_txs:
  assumes "pool_inv p"
  shows "map tx_hash (pool_txs p) = map snd (by_storage_index p)"
proof -
  have "tx_hash (entry_transaction (the (map_of (by_hash p) (snd e)))) = snd e" if "e \<in> set (by_storage_index p)" for e
    using entry_at [OF assms, of "fst e" "snd e"] that by auto
  then show ?thesis by (simp add: pool_txs_def)
qed

lemma distinct_hashes:
  assumes "pool_inv p"
  shows "distinct (map snd (by_storage_index p))"
proof -
  have "inj_on snd (set (by_storage_index p))"
  proof (rule inj_onI)
    fix a b
    assume ab: "a \<in> set (by_storage_index p)" "b \<in> set (by_storage_index p)" "snd a = snd b"
    have "\<exists>e. map_of (by_hash p) (snd c) = Some e \<and> storage_index e = fst c" if "c \<in> set (by_storage_index p)" for c
      using entry_at [OF assms, of "fst c" "snd c"] that by auto
    from this [OF ab(1)] this [OF ab(2)] show "a = b" using ab(3) by (auto simp: prod_eq_iff)
  qed
  moreover have "distinct (by_storage_index p)" using pool_invD(2) [OF assms] by (simp add: distinct_map)
  ultimately show ?thesis by (simp add: distinct_map)
qed

lemma pool_contains_iff:
  assumes "pool_inv p"
  shows "pool_contains h p \<longleftrightarrow> h \<in> tx_hash ` set (pool_txs p)"
proof -
  have "h \<in> tx_hash ` set (pool_txs p) \<longleftrightarrow> h \<in> snd ` set (by_storage_index p)"
    using arg_cong [OF keys_pool_txs [OF assms], of set] by simp
  also have "\<dots> \<longleftrightarrow> map_of (by_hash p) h \<noteq> None"
  proof
    assume "h \<in> snd ` set (by_storage_index p)"
    then obtain i where "(i, h) \<in> set (by_storage_index p)" by auto
    from entry_at [OF assms this] show "map_of (by_hash p) h \<noteq> None" by auto
  next
    assume "map_of (by_hash p) h \<noteq> None"
    then obtain e where "(h, e) \<in> set (by_hash p)" by (auto dest: map_of_SomeD)
    from pool_invD(6) [OF assms this] show "h \<in> snd ` set (by_storage_index p)" by force
  qed
  finally show ?thesis by (simp add: pool_contains_def)
qed

lemma pool_insert_eq:
  assumes inv: "pool_inv p" and new: "\<not> pool_contains (tx_hash tx) p" and room: "num_transactions p \<le> max_transactions p"
  shows "pool_insert tx p = p\<lparr>pool_counter := pool_counter p + 1,
      by_storage_index := by_storage_index p @ [(pool_counter p, tx_hash tx)],
      by_hash := by_hash p @ [(tx_hash tx, \<lparr>entry_transaction = tx, storage_index = pool_counter p\<rparr>)],
      num_transactions := num_transactions p + 1\<rparr>"
proof -
  have "AList.update (tx_hash tx) e (by_hash p) = by_hash p @ [(tx_hash tx, e)]" for e
    using new by (intro alist_update_fresh) (simp add: pool_contains_def map_of_eq_None_iff)
  moreover have "btree_insert (pool_counter p) (tx_hash tx) (by_storage_index p) = by_storage_index p @ [(pool_counter p, tx_hash tx)]"
    using pool_invD(3) [OF inv] by (intro btree_insert_last) auto
  ultimately show ?thesis using room by (simp add: pool_insert_def Let_def)
qed

lemma pool_insert_inv:
  assumes inv: "pool_inv p" and new: "\<not> pool_contains (tx_hash tx) p"
  shows "pool_inv (pool_insert tx p)"
proof (cases "num_transactions p \<le> max_transactions p")
  case True
  have fresh: "tx_hash tx \<notin> fst ` set (by_hash p)" using new by (simp add: pool_contains_def map_of_eq_None_iff)
  show ?thesis
  proof (rule pool_invI, unfold pool_insert_eq [OF inv new True], goal_cases)
    case 1
    then show ?case using pool_invD(1,3) [OF inv] by (auto simp: sorted_wrt_append)
  next
    case (5 i h)
    then show ?case using pool_invD(7) [OF inv, of i h] by auto
  qed (use pool_invD [OF inv] fresh True in \<open>auto simp: less_SucI\<close>)
next
  case False
  then show ?thesis using inv by (simp add: pool_insert_def)
qed

lemma pool_insert_txs:
  assumes inv: "pool_inv p" and new: "\<not> pool_contains (tx_hash tx) p"
  shows "pool_txs (pool_insert tx p) = (if num_transactions p \<le> max_transactions p then pool_txs p @ [tx] else pool_txs p)"
proof (cases "num_transactions p \<le> max_transactions p")
  case True
  have none: "map_of (by_hash p) (tx_hash tx) = None" using new by (simp add: pool_contains_def)
  have "snd e \<noteq> tx_hash tx" if "e \<in> set (by_storage_index p)" for e
    using entry_at [OF inv, of "fst e" "snd e"] that none by auto
  then show ?thesis
    using True none by (simp add: pool_insert_eq [OF inv new True] pool_txs_def map_add_def split: option.splits)
next
  case False
  then show ?thesis by (simp add: pool_insert_def)
qed

lemma remove_and_get_None:
  "\<not> pool_contains h p \<Longrightarrow> remove_and_get h p = Ok (None, p)"
  by (simp add: pool_contains_def remove_and_get_def)

lemma remove_and_get_Some:
  assumes inv: "pool_inv p" and e: "map_of (by_hash p) h = Some e"
  shows "remove_and_get h p = Ok (Some e, p\<lparr>by_hash := AList.delete h (by_hash p),
      by_storage_index := filter (\<lambda>x. snd x \<noteq> h) (by_storage_index p), num_transactions := num_transactions p - 1\<rparr>)"
proof -
  have mem: "(storage_index e, h) \<in> set (by_storage_index p)" using pool_invD(6) [OF inv map_of_SomeD [OF e]] .
  have "fst x = storage_index e \<longleftrightarrow> snd x = h" if x: "x \<in> set (by_storage_index p)" for x
  proof
    assume "fst x = storage_index e"
    then show "snd x = h" using pool_invD(2) [OF inv] mem x by (metis eq_key_imp_eq_value prod.collapse)
  next
    assume "snd x = h"
    then show "fst x = storage_index e" using entry_at [OF inv, of "fst x" h] e x by auto
  qed
  then have "btree_remove (storage_index e) (by_storage_index p) = filter (\<lambda>x. snd x \<noteq> h) (by_storage_index p)"
    by (auto simp: btree_remove_def intro: filter_cong)
  moreover have "0 < num_transactions p" using mem by (auto simp: pool_invD(8) [OF inv] intro: length_pos_if_in_set)
  ultimately show ?thesis using e by (simp add: remove_and_get_def rsub_def)
qed

lemma length_filter_key:
  assumes "distinct (map f xs)" and "k \<in> f ` set xs"
  shows "length (filter (\<lambda>x. f x \<noteq> k) xs) = length xs - 1"
  using assms
proof (induction xs)
  case (Cons x xs)
  show ?case
  proof (cases "f x = k")
    case True
    then have "filter (\<lambda>y. f y \<noteq> k) xs = xs" using Cons.prems by (simp add: filter_id_conv) (metis imageI)
    then show ?thesis using True by simp
  next
    case False
    then have "k \<in> f ` set xs" using Cons.prems by auto
    then have "length (filter (\<lambda>y. f y \<noteq> k) xs) = length xs - 1" "xs \<noteq> []" using Cons by auto
    then show ?thesis using False by (cases xs) auto
  qed
qed simp

lemma remove_and_get_inv:
  assumes inv: "pool_inv p"
  shows "\<exists>p'. remove_and_get h p = Ok (pool_get h p, p') \<and> pool_inv p' \<and>
     pool_txs p' = filter (\<lambda>t. tx_hash t \<noteq> h) (pool_txs p)"
proof (cases "map_of (by_hash p) h")
  case None
  then have "filter (\<lambda>t. tx_hash t \<noteq> h) (pool_txs p) = pool_txs p"
    using pool_contains_iff [OF inv, of h] by (auto simp: pool_contains_def filter_id_conv)
  then show ?thesis using None inv by (simp add: remove_and_get_def pool_get_def)
next
  case (Some e)
  let ?q = "p\<lparr>by_hash := AList.delete h (by_hash p),
      by_storage_index := filter (\<lambda>x. snd x \<noteq> h) (by_storage_index p), num_transactions := num_transactions p - 1\<rparr>"
  have mem: "h \<in> snd ` set (by_storage_index p)" using pool_invD(6) [OF inv map_of_SomeD [OF Some]] by force
  have len: "length (filter (\<lambda>x. snd x \<noteq> h) (by_storage_index p)) = length (by_storage_index p) - 1"
    by (rule length_filter_key [OF distinct_hashes [OF inv] mem])
  have "pool_inv ?q"
  proof (rule pool_invI, goal_cases)
    case 1
    then show ?case using pool_invD(1) [OF inv] by (simp add: sorted_wrt_map sorted_wrt_filter)
  next
    case (5 i k)
    then show ?case using pool_invD(7) [OF inv, of i k] by (auto simp: AList.delete_eq)
  qed (use pool_invD [OF inv] len in \<open>auto simp: AList.delete_eq distinct_map_filter\<close>)
  moreover have "pool_txs ?q = filter (\<lambda>t. tx_hash t \<noteq> h) (pool_txs p)"
  proof -
    have "map (\<lambda>e. entry_transaction (the (map_of (AList.delete h (by_hash p)) (snd e)))) (filter (\<lambda>x. snd x \<noteq> h) xs) =
      filter (\<lambda>t. tx_hash t \<noteq> h) (map (\<lambda>e. entry_transaction (the (map_of (by_hash p) (snd e)))) xs)"
      if "set xs \<subseteq> set (by_storage_index p)" for xs
      using that
    proof (induction xs)
      case (Cons x xs)
      then show ?case using entry_at [OF inv, of "fst x" "snd x"] by (auto simp: delete_conv)
    qed simp
    then show ?thesis by (simp add: pool_txs_def)
  qed
  ultimately show ?thesis using remove_and_get_Some [OF inv Some] Some by (simp add: pool_get_def)
qed

lemma get_transactions_take:
  assumes "pool_inv p"
  shows "get_transactions n p = Ok (take n (pool_txs p))"
proof -
  have "rmap (\<lambda>h. rbind (unwrap (pool_get h p)) (\<lambda>e. Ok (entry_transaction e))) (map snd xs) =
      Ok (map (\<lambda>e. entry_transaction (the (map_of (by_hash p) (snd e)))) xs)" if "set xs \<subseteq> set (by_storage_index p)" for xs
    using that
  proof (induction xs)
    case (Cons x xs)
    then show ?case using entry_at [OF assms, of "fst x" "snd x"] by (auto simp: pool_get_def)
  qed simp
  from this [of "take n (by_storage_index p)"] show ?thesis
    by (simp add: get_transactions_def pool_txs_def take_map set_take_subset)
qed

section \<open>The contract of a first-in first-out pool\<close>

text \<open>
  What the miner and the block handlers rely on: the pool represents a sequence of values with
  distinct keys, additions go to its end while there is room, removal is by key, and the values are
  handed out from the front.
\<close>

locale fifo_pool =
  fixes invar :: "'p \<Rightarrow> bool" and abs :: "'p \<Rightarrow> 't list" and key :: "'t \<Rightarrow> 'k"
    and room :: "'p \<Rightarrow> bool" and member :: "'k \<Rightarrow> 'p \<Rightarrow> bool" and add :: "'t \<Rightarrow> 'p \<Rightarrow> 'p"
    and remove :: "'k \<Rightarrow> 'p \<Rightarrow> 'p res" and front :: "nat \<Rightarrow> 'p \<Rightarrow> 't list res"
  assumes distinct_keys: "invar p \<Longrightarrow> distinct (map key (abs p))"
    and member_iff: "invar p \<Longrightarrow> member k p \<longleftrightarrow> k \<in> key ` set (abs p)"
    and add_invar: "invar p \<Longrightarrow> \<not> member (key t) p \<Longrightarrow> invar (add t p)"
    and add_abs: "invar p \<Longrightarrow> \<not> member (key t) p \<Longrightarrow> abs (add t p) = (if room p then abs p @ [t] else abs p)"
    and remove_abs: "invar p \<Longrightarrow> \<exists>p'. remove k p = Ok p' \<and> invar p' \<and> abs p' = filter (\<lambda>t. key t \<noteq> k) (abs p)"
    and front_abs: "invar p \<Longrightarrow> front n p = Ok (take n (abs p))"
begin

definition offer :: "'t \<Rightarrow> 'p \<Rightarrow> 'p" where
  "offer t p = (if \<not> member (key t) p then add t p else p)"

lemma offer_abs:
  assumes "invar p"
  shows "invar (offer t p)"
    and "abs (offer t p) = (if key t \<notin> key ` set (abs p) \<and> room p then abs p @ [t] else abs p)"
  using assms by (auto simp: offer_def add_invar add_abs member_iff)

lemma offers_invar: "invar p \<Longrightarrow> invar (fold offer ts p)"
  by (induction ts arbitrary: p) (auto simp: offer_abs)

lemma remove_all_abs:
  assumes "invar p"
  shows "\<exists>p'. rfold remove ks p = Ok p' \<and> invar p' \<and> abs p' = filter (\<lambda>t. key t \<notin> set ks) (abs p)"
  using assms
proof (induction ks arbitrary: p)
  case (Cons k ks)
  obtain p1 where p1: "remove k p = Ok p1" "invar p1" "abs p1 = filter (\<lambda>t. key t \<noteq> k) (abs p)"
    using remove_abs [OF Cons.prems] by blast
  from Cons.IH [OF p1(2)] obtain p2 where
    "rfold remove ks p1 = Ok p2" "invar p2" "abs p2 = filter (\<lambda>t. key t \<notin> set ks) (abs p1)" by blast
  then show ?case using p1 by (auto intro!: filter_cong)
qed simp

end

interpretation tx_pool: fifo_pool pool_inv pool_txs tx_hash "\<lambda>p. num_transactions p \<le> max_transactions p"
  pool_contains pool_insert remove_by_hash get_transactions
proof (unfold_locales, goal_cases)
  case (1 p)
  then show ?case using keys_pool_txs distinct_hashes by simp
next
  case (5 p k)
  then show ?case using remove_and_get_inv [of p k] by (auto simp: remove_by_hash_def)
qed (simp_all add: pool_contains_iff pool_insert_inv pool_insert_txs get_transactions_take)

lemma new_transaction_offer: "new_transaction tx p = tx_pool.offer tx p"
  by (simp add: new_transaction_def tx_pool.offer_def)

lemma pool_new_inv: "pool_inv (pool_new n)" and pool_new_txs: "pool_txs (pool_new n) = []"
  by (simp_all add: pool_new_def pool_inv_def pool_txs_def)

lemma pool_size:
  assumes "pool_inv p"
  shows "length (pool_txs p) = num_transactions p" and "pool_len p = num_transactions p"
proof -
  show len: "length (pool_txs p) = num_transactions p" using pool_invD(8) [OF assms] by (simp add: pool_txs_def)
  have "set (map fst (by_hash p)) = set (map tx_hash (pool_txs p))"
    using pool_contains_iff [OF assms] by (auto simp: pool_contains_def map_of_eq_None_iff)
  then have "length (map fst (by_hash p)) = length (map tx_hash (pool_txs p))"
    using distinct_card [OF pool_invD(4) [OF assms]] distinct_card [OF tx_pool.distinct_keys [OF assms]] by metis
  then show "pool_len p = num_transactions p" by (simp add: pool_len_def len)
qed

section \<open>Sequences of operations\<close>

datatype pool_op = Offer transaction | Remove h256

text \<open>Offering is the handler of new transactions, removal what the handler of new blocks does.\<close>

definition pool_step :: "pool_op \<Rightarrow> memory_pool \<Rightarrow> memory_pool res" where
  "pool_step op p = (case op of Offer tx \<Rightarrow> Ok (new_transaction tx p) | Remove h \<Rightarrow> remove_by_hash h p)"

definition queue_step :: "nat \<Rightarrow> pool_op \<Rightarrow> transaction list \<Rightarrow> transaction list" where
  "queue_step limit op ts =
     (case op of
        Offer tx \<Rightarrow> if tx_hash tx \<in> tx_hash ` set ts \<or> limit < length ts then ts else ts @ [tx]
      | Remove h \<Rightarrow> filter (\<lambda>t. tx_hash t \<noteq> h) ts)"

lemma max_transactions_offer: "max_transactions (new_transaction tx p) = max_transactions p"
  by (simp add: new_transaction_def pool_insert_def Let_def)

lemma max_transactions_remove: "remove_by_hash h p = Ok p' \<Longrightarrow> max_transactions p' = max_transactions p"
  by (auto simp: remove_by_hash_def remove_and_get_def res_simps split: option.splits)

lemma pool_step_queue:
  assumes "pool_inv p"
  shows "\<exists>p'. pool_step op p = Ok p' \<and> pool_inv p' \<and> max_transactions p' = max_transactions p \<and>
    pool_txs p' = queue_step (max_transactions p) op (pool_txs p)"
proof (cases op)
  case (Offer tx)
  then show ?thesis
    using tx_pool.offer_abs [OF assms, of tx]
    by (auto simp: pool_step_def queue_step_def new_transaction_offer [symmetric] max_transactions_offer pool_size [OF assms])
next
  case (Remove h)
  then show ?thesis
    using tx_pool.remove_abs [OF assms, of h] max_transactions_remove by (auto simp: pool_step_def queue_step_def)
qed

lemma pool_steps_queue:
  assumes "pool_inv p"
  shows "\<exists>p'. rfold pool_step ops p = Ok p' \<and> pool_inv p' \<and> max_transactions p' = max_transactions p \<and>
    pool_txs p' = fold (queue_step (max_transactions p)) ops (pool_txs p)"
  using assms
proof (induction ops arbitrary: p)
  case (Cons op ops)
  obtain p1 where p1: "pool_step op p = Ok p1" "pool_inv p1" "max_transactions p1 = max_transactions p"
    "pool_txs p1 = queue_step (max_transactions p) op (pool_txs p)"
    using pool_step_queue [OF Cons.prems] by blast
  with Cons.IH [OF p1(2)] show ?case by auto
qed simp

text \<open>C23: the memory pool is a first-in first-out queue of bounded size. Whatever transactions arrive and
  whatever blocks remove, no operation panics, and at every moment the transactions handed to the miner
  are the first ones of the queue that keeps the arrivals in order, without duplicates and without the
  removed ones; lookup and length agree with that queue.\<close>

theorem mempool_fifo:
  "\<exists>p. rfold pool_step ops (pool_new limit) = Ok p \<and>
     (let queue = fold (queue_step limit) ops [] in
       (\<forall>n. get_transactions n p = Ok (take n queue)) \<and> pool_len p = length queue \<and>
       (\<forall>h. pool_contains h p = (h \<in> tx_hash ` set queue)))"
proof -
  obtain p where p: "rfold pool_step ops (pool_new limit) = Ok p" "pool_inv p"
    "pool_txs p = fold (queue_step (max_transactions (pool_new limit))) ops (pool_txs (pool_new limit))"
    using pool_steps_queue [OF pool_new_inv] by blast
  have "max_transactions (pool_new limit) = limit" by (simp add: pool_new_def)
  then have "pool_txs p = fold (queue_step limit) ops []" using p(3) by (simp add: pool_new_txs)
  then show ?thesis
    using p(1) tx_pool.front_abs [OF p(2)] tx_pool.member_iff [OF p(2)] pool_size [OF p(2)] by (simp add: Let_def)
qed

lemma offers_queue:
  assumes "pool_inv p" and "distinct (map tx_hash (pool_txs p @ ts))" and "length (pool_txs p) \<le> max_transactions p + 1"
  shows "pool_inv (fold new_transaction ts p) \<and>
    pool_txs (fold new_transaction ts p) = take (max_transactions p + 1) (pool_txs p @ ts)"
  using assms
proof (induction ts arbitrary: p)
  case (Cons t ts)
  let ?p = "new_transaction t p"
  have p: "pool_inv ?p" "pool_txs ?p = (if length (pool_txs p) \<le> max_transactions p then pool_txs p @ [t] else pool_txs p)"
    using tx_pool.offer_abs [OF Cons.prems(1), of t] Cons.prems(2)
    by (auto simp: new_transaction_offer pool_size [OF Cons.prems(1)])
  show ?case
    using Cons.IH [OF p(1)] Cons.prems(2,3) by (auto simp: p(2) max_transactions_offer Suc_diff_le)
qed simp

text \<open>C24: a pool created for n transactions holds up to n + 1 of them: of distinct transactions offered to
  an empty pool the first n + 1 are kept, in order, and the later ones are dropped.\<close>

theorem mempool_capacity:
  assumes "distinct (map tx_hash ts)"
  shows "pool_len (fold new_transaction ts (pool_new limit)) = min (length ts) (limit + 1) \<and>
    get_transactions n (fold new_transaction ts (pool_new limit)) = Ok (take n (take (limit + 1) ts))"
proof -
  have "max_transactions (pool_new limit) = limit" by (simp add: pool_new_def)
  then have "pool_inv (fold new_transaction ts (pool_new limit))"
    "pool_txs (fold new_transaction ts (pool_new limit)) = take (limit + 1) ts"
    using offers_queue [OF pool_new_inv, of limit ts] assms by (auto simp: pool_new_txs)
  then show ?thesis using tx_pool.front_abs pool_size by (metis length_take min.commute)
qed

definition numbered_tx :: "h256 \<Rightarrow> transaction" where
  "numbered_tx h = \<lparr>stx_transaction =
      \<lparr>utx_unsigned = \<lparr>rtx_nonce = 0, rtx_gas_price = 1, rtx_gas = 21000, rtx_action = Create, rtx_value = 5, rtx_data = []\<rparr>,
       utx_v = 27, utx_r = 0, utx_s = 0, utx_hash = h\<rparr>,
     stx_sender = 0, stx_public = None\<rparr>"

theorem mempool_capacity_witness:
  "pool_len (fold new_transaction (map numbered_tx [1, 2, 3, 4]) (pool_new 2)) = 3"
proof -
  have "distinct (map tx_hash (map numbered_tx [1, 2, 3, 4]))" by (simp add: tx_hash_def numbered_tx_def)
  from mempool_capacity [OF this, of 2] show ?thesis by simp
qed

end
