(* ===== verification/Prism_Buffer.thy ===== *)
theory Prism_Buffer
  imports Prism_Block
begin

text \<open>
  The buffer of received blocks whose references are missing (\<open>network/buffer.rs\<close>). Hash maps are maps
  and hash sets are sets; the order in which a hash set is iterated is the parameter \<open>iter\<close>. The buffer
  implements a table of blocks with the references each still waits for.
\<close>

section \<open>The buffer\<close>

record block_buffer =
  buf_blocks :: "h256 \<rightharpoonup> block"
  dependency :: "h256 \<rightharpoonup> h256 set"
  dependent :: "h256 \<rightharpoonup> h256 set"

definition buffer_new :: block_buffer where
  "buffer_new = \<lparr>buf_blocks = Map.empty, dependency = Map.empty, dependent = Map.empty\<rparr>"

definition add_dependent :: "h256 \<Rightarrow> h256 \<Rightarrow> h256 set \<times> (h256 \<rightharpoonup> h256 set) \<Rightarrow> (h256 set \<times> (h256 \<rightharpoonup> h256 set)) res" where
  "add_dependent hash dep_hash acc =
     (case acc of (deps, dependents) \<Rightarrow>
      let dependents1 = (if dependents dep_hash = None then dependents(dep_hash \<mapsto> {}) else dependents)
      in rbind (unwrap (dependents1 dep_hash)) (\<lambda>nodes.
           Ok (insert dep_hash deps, dependents1(dep_hash \<mapsto> insert hash nodes))))"

definition buffer_insert ::
  "(bytes \<Rightarrow> h256) \<Rightarrow> (header \<Rightarrow> bytes) \<Rightarrow> block \<Rightarrow> h256 list \<Rightarrow> block_buffer \<Rightarrow> block_buffer res" where
  "buffer_insert keccak ser b dependencies buf =
     (let hash = block_hash keccak ser b in
      rbind (rfold (add_dependent hash) dependencies ({}, dependent buf)) (\<lambda>(deps, dependents).
        Ok (buf\<lparr>buf_blocks := (buf_blocks buf)(hash \<mapsto> b), dependent := dependents,
                dependency := (dependency buf)(hash \<mapsto> deps)\<rparr>)))"

definition satisfy_node :: "h256 \<Rightarrow> h256 \<Rightarrow> block list \<times> block_buffer \<Rightarrow> (block list \<times> block_buffer) res" where
  "satisfy_node hash node acc =
     (case acc of (resolved, buf) \<Rightarrow>
      rbind (unwrap (dependency buf node)) (\<lambda>deps.
        let deps1 = deps - {hash}; buf1 = buf\<lparr>dependency := (dependency buf)(node \<mapsto> deps1)\<rparr> in
        if deps1 = {} then
          rbind (unwrap (dependency buf1 node)) (\<lambda>_.
          let buf2 = buf1\<lparr>dependency := (dependency buf1)(node := None)\<rparr> in
          rbind (unwrap (buf_blocks buf2 node)) (\<lambda>b.
            Ok (resolved @ [b], buf2\<lparr>buf_blocks := (buf_blocks buf2)(node := None)\<rparr>)))
        else Ok (resolved, buf1)))"

definition satisfy :: "(h256 set \<Rightarrow> h256 list) \<Rightarrow> h256 \<Rightarrow> block_buffer \<Rightarrow> (block list \<times> block_buffer) res" where
  "satisfy iter hash buf =
     (case dependent buf hash of
        None \<Rightarrow> Ok ([], buf)
      | Some dependents \<Rightarrow>
          rfold (satisfy_node hash) (iter dependents) ([], buf\<lparr>dependent := (dependent buf)(hash := None)\<rparr>))"

section \<open>Invariant\<close>

definition buf_inv :: "block_buffer \<Rightarrow> bool" where
  "buf_inv buf \<longleftrightarrow>
     finite (dom (dependency buf)) \<and> dom (buf_blocks buf) = dom (dependency buf) \<and>
     (\<forall>n D. dependency buf n = Some D \<longrightarrow> D \<noteq> {}) \<and>
     (\<forall>d n. (\<exists>S. dependent buf d = Some S \<and> n \<in> S) \<longleftrightarrow> (\<exists>D. dependency buf n = Some D \<and> d \<in> D))"

text \<open>The blocks with the references they wait for, by hash.\<close>

definition waiting :: "block_buffer \<Rightarrow> h256 \<rightharpoonup> block \<times> h256 set" where
  "waiting buf n =
     (case buf_blocks buf n of None \<Rightarrow> None | Some b \<Rightarrow> map_option (Pair b) (dependency buf n))"

lemma buf_invD:
  assumes "buf_inv buf"
  shows "finite (dom (dependency buf))" "dom (buf_blocks buf) = dom (dependency buf)"
    "dependency buf n = Some D \<Longrightarrow> D \<noteq> {}"
    "dependent buf d = Some S \<Longrightarrow> n \<in> S \<Longrightarrow> \<exists>D. dependency buf n = Some D \<and> d \<in> D"
    "dependency buf n = Some D \<Longrightarrow> d \<in> D \<Longrightarrow> \<exists>S. dependent buf d = Some S \<and> n \<in> S"
  using assms unfolding buf_inv_def by blast+

lemma waiting_Some:
  assumes "buf_inv buf"
  shows "waiting buf n = Some (b, D) \<longleftrightarrow> buf_blocks buf n = Some b \<and> dependency buf n = Some D"
  by (auto simp: waiting_def split: option.splits)

lemma dom_waiting: "buf_inv buf \<Longrightarrow> dom (waiting buf) = dom (buf_blocks buf)"
  using buf_invD(2) [of buf] by (auto simp: waiting_def dom_def split: option.splits)

lemma buffer_new_inv: "buf_inv buffer_new" and buffer_new_waiting: "waiting buffer_new = Map.empty"
  by (simp_all add: buffer_new_def buf_inv_def waiting_def fun_eq_iff)

section \<open>Insertion\<close>

lemma add_dependent_loop:
  "\<exists>M'. rfold (add_dependent hash) ds (D, M) = Ok (D \<union> set ds, M') \<and>
     (\<forall>d n. (\<exists>S. M' d = Some S \<and> n \<in> S) \<longleftrightarrow> (\<exists>S. M d = Some S \<and> n \<in> S) \<or> d \<in> set ds \<and> n = hash)"
proof (induction ds arbitrary: D M)
  case (Cons x ds)
  let ?M = "M(x \<mapsto> insert hash (case M x of None \<Rightarrow> {} | Some S \<Rightarrow> S))"
  have step: "add_dependent hash x (D, M) = Ok (insert x D, ?M)"
    by (auto simp: add_dependent_def fun_upd_twist split: option.splits)
  from Cons.IH [of "insert x D" ?M] obtain M' where
    "rfold (add_dependent hash) ds (insert x D, ?M) = Ok (insert x D \<union> set ds, M')"
    "\<forall>d n. (\<exists>S. M' d = Some S \<and> n \<in> S) \<longleftrightarrow> (\<exists>S. ?M d = Some S \<and> n \<in> S) \<or> d \<in> set ds \<and> n = hash" by blast
  then show ?case using step by (auto split: option.splits)
qed simp

lemma buffer_insert_inv:
  assumes inv: "buf_inv buf" and new: "buf_blocks buf (block_hash keccak ser b) = None" and "ds \<noteq> []"
  shows "\<exists>buf'. buffer_insert keccak ser b ds buf = Ok buf' \<and> buf_inv buf' \<and>
    waiting buf' = (waiting buf)(block_hash keccak ser b \<mapsto> (b, set ds))"
proof -
  let ?h = "block_hash keccak ser b"
  obtain M' where M': "rfold (add_dependent ?h) ds ({}, dependent buf) = Ok (set ds, M')"
    "\<forall>d n. (\<exists>S. M' d = Some S \<and> n \<in> S) \<longleftrightarrow> (\<exists>S. dependent buf d = Some S \<and> n \<in> S) \<or> d \<in> set ds \<and> n = ?h"
    using add_dependent_loop [of ?h ds "{}" "dependent buf"] by auto
  let ?buf = "buf\<lparr>buf_blocks := (buf_blocks buf)(?h \<mapsto> b), dependent := M', dependency := (dependency buf)(?h \<mapsto> set ds)\<rparr>"
  have none: "dependency buf ?h = None" using new buf_invD(2) [OF inv] by (metis domIff)
  have "(\<exists>S. M' d = Some S \<and> n \<in> S) \<longleftrightarrow> (\<exists>D. ((dependency buf)(?h \<mapsto> set ds)) n = Some D \<and> d \<in> D)" for d n
    using M'(2) buf_invD(4,5) [OF inv, of _ _ _] none by (cases "n = ?h") (auto, (metis option.distinct(1))+)
  then have "buf_inv ?buf"
    using buf_invD(1-3) [OF inv] \<open>ds \<noteq> []\<close> unfolding buf_inv_def by (auto split: if_splits)
  moreover have "waiting ?buf = (waiting buf)(?h \<mapsto> (b, set ds))" by (auto simp: waiting_def fun_eq_iff split: option.splits)
  ultimately show ?thesis using M'(1) by (simp add: buffer_insert_def Let_def)
qed

section \<open>Satisfaction\<close>

definition without :: "h256 \<Rightarrow> h256 set option \<Rightarrow> h256 set option" where
  "without h D = (case D of None \<Rightarrow> None | Some D \<Rightarrow> if D - {h} = {} then None else Some (D - {h}))"

definition satisfied :: "h256 \<Rightarrow> h256 set \<Rightarrow> block_buffer \<Rightarrow> block_buffer" where
  "satisfied h N buf =
     buf\<lparr>dependency := (\<lambda>n. if n \<in> N then without h (dependency buf n) else dependency buf n),
         buf_blocks := (\<lambda>n. if n \<in> N \<and> without h (dependency buf n) = None then None else buf_blocks buf n)\<rparr>"

lemma satisfy_node_step:
  assumes "dependency buf n = Some D" and "buf_blocks buf n \<noteq> None"
  shows "satisfy_node h n (res, buf) =
    Ok (res @ (if without h (dependency buf n) = None then [the (buf_blocks buf n)] else []), satisfied h {n} buf)"
  using assms by (auto simp: satisfy_node_def satisfied_def without_def Let_def fun_eq_iff)

lemma satisfied_twice: "n \<notin> N \<Longrightarrow> satisfied h N (satisfied h {n} buf) = satisfied h (insert n N) buf"
  by (rule block_buffer.equality) (auto simp: satisfied_def fun_eq_iff)

lemma satisfy_loop:
  assumes "distinct ns" and "\<And>n. n \<in> set ns \<Longrightarrow> dependency buf n \<noteq> None \<and> buf_blocks buf n \<noteq> None"
  shows "rfold (satisfy_node h) ns (res, buf) =
    Ok (res @ map (\<lambda>n. the (buf_blocks buf n)) (filter (\<lambda>n. without h (dependency buf n) = None) ns), satisfied h (set ns) buf)"
  using assms
proof (induction ns arbitrary: res buf)
  case Nil
  then show ?case by (simp add: satisfied_def)
next
  case (Cons n ns)
  let ?buf = "satisfied h {n} buf"
  have same: "dependency ?buf m = dependency buf m" "buf_blocks ?buf m = buf_blocks buf m" if "m \<in> set ns" for m
    using that Cons.prems(1) by (auto simp: satisfied_def)
  have "filter (\<lambda>m. without h (dependency ?buf m) = None) ns = filter (\<lambda>m. without h (dependency buf m) = None) ns"
    "\<And>xs. set xs \<subseteq> set ns \<Longrightarrow> map (\<lambda>m. the (buf_blocks ?buf m)) xs = map (\<lambda>m. the (buf_blocks buf m)) xs"
    using same by (auto intro!: filter_cong map_cong)
  then have "rfold (satisfy_node h) ns (r, ?buf) =
      Ok (r @ map (\<lambda>n. the (buf_blocks buf n)) (filter (\<lambda>n. without h (dependency buf n) = None) ns), satisfied h (set ns) ?buf)" for r
    using Cons.IH [of ?buf r] Cons.prems same by auto
  moreover obtain D where "dependency buf n = Some D" using Cons.prems(2) [of n] by auto
  ultimately show ?case
    using satisfy_node_step [of buf n D h res] Cons.prems by (auto simp: satisfied_twice)
qed

text \<open>Iteration over a hash set visits every element once.\<close>

definition set_iterator :: "(h256 set \<Rightarrow> h256 list) \<Rightarrow> bool" where
  "set_iterator iter \<longleftrightarrow> (\<forall>A. finite A \<longrightarrow> set (iter A) = A \<and> distinct (iter A))"

lemma satisfied_inv:
  assumes inv: "buf_inv buf" and N: "\<And>n. n \<in> N \<longleftrightarrow> (\<exists>D. dependency buf n = Some D \<and> h \<in> D)"
  shows "buf_inv (satisfied h N (buf\<lparr>dependent := (dependent buf)(h := None)\<rparr>))" (is "buf_inv ?buf")
proof -
  have dep: "dependency ?buf n = without h (dependency buf n)" for n
  proof (cases "n \<in> N")
    case False
    then have "dependency buf n = Some D \<Longrightarrow> D - {h} = D \<and> D \<noteq> {}" for D using N buf_invD(3) [OF inv] by blast
    then show ?thesis using False by (auto simp: satisfied_def without_def split: option.splits)
  qed (simp add: satisfied_def)
  have blk: "buf_blocks ?buf n = (if without h (dependency buf n) = None then None else buf_blocks buf n)" for n
  proof (cases "n \<in> N")
    case False
    then have "without h (dependency buf n) = None \<longleftrightarrow> dependency buf n = None"
      using N buf_invD(3) [OF inv] by (auto simp: without_def split: option.splits)
    moreover have "buf_blocks buf n = None \<longleftrightarrow> dependency buf n = None" using buf_invD(2) [OF inv] by (metis domIff)
    ultimately show ?thesis using False by (simp add: satisfied_def)
  qed (simp add: satisfied_def)
  have sub: "without h (dependency buf n) \<noteq> None \<Longrightarrow> dependency buf n \<noteq> None" for n by (auto simp: without_def split: option.splits)
  have "dom (dependency ?buf) \<subseteq> dom (dependency buf)" using dep sub by (auto simp: domIff)
  then have "finite (dom (dependency ?buf))" using buf_invD(1) [OF inv] finite_subset by blast
  moreover have "buf_blocks buf n = None \<longleftrightarrow> dependency buf n = None" for n using buf_invD(2) [OF inv] by (metis domIff)
  then have "buf_blocks ?buf n = None \<longleftrightarrow> dependency ?buf n = None" for n unfolding dep blk using sub [of n] by auto
  then have "dom (buf_blocks ?buf) = dom (dependency ?buf)" by (simp add: dom_def)
  moreover have "D \<noteq> {}" if "dependency ?buf n = Some D" for n D
    using that unfolding dep by (auto simp: without_def split: option.splits if_splits)
  moreover have "(\<exists>S. dependent ?buf d = Some S \<and> n \<in> S) \<longleftrightarrow> (\<exists>D. dependency ?buf n = Some D \<and> d \<in> D)" for d n
  proof -
    have "(\<exists>S. dependent ?buf d = Some S \<and> n \<in> S) \<longleftrightarrow> d \<noteq> h \<and> (\<exists>D. dependency buf n = Some D \<and> d \<in> D)"
      using buf_invD(4,5) [OF inv] by (auto simp: satisfied_def)
    also have "\<dots> \<longleftrightarrow> (\<exists>D. without h (dependency buf n) = Some D \<and> d \<in> D)"
      by (auto simp: without_def split: option.splits)
    finally show ?thesis by (simp only: dep)
  qed
  ultimately show ?thesis unfolding buf_inv_def by blast
qed

lemma satisfy_inv:
  assumes iter: "set_iterator iter" and inv: "buf_inv buf"
  shows "\<exists>ns buf'. satisfy iter h buf = Ok (map (\<lambda>n. fst (the (waiting buf n))) ns, buf') \<and> buf_inv buf' \<and>
    distinct ns \<and> set ns = {n. \<exists>b. waiting buf n = Some (b, {h})} \<and>
    (\<forall>n. waiting buf' n =
       (case waiting buf n of None \<Rightarrow> None | Some (b, D) \<Rightarrow> if D \<subseteq> {h} then None else Some (b, D - {h})))"
proof -
  define N where "N = {n. \<exists>D. dependency buf n = Some D \<and> h \<in> D}"
  define xs where "xs = (case dependent buf h of None \<Rightarrow> [] | Some S \<Rightarrow> iter S)"
  define ns where "ns = filter (\<lambda>n. without h (dependency buf n) = None) xs"
  let ?buf = "buf\<lparr>dependent := (dependent buf)(h := None)\<rparr>" and ?buf' = "satisfied h N (buf\<lparr>dependent := (dependent buf)(h := None)\<rparr>)"
  have xs: "set xs = N" "distinct xs"
  proof -
    have "S = N" "finite S" if "dependent buf h = Some S" for S
    proof -
      have "n \<in> S" if "dependency buf n = Some D" "h \<in> D" for n D
        using buf_invD(5) [OF inv that] \<open>dependent buf h = Some S\<close> by auto
      then show "S = N" using buf_invD(4) [OF inv that] unfolding N_def by blast
      then show "finite S" using buf_invD(1) [OF inv] by (auto simp: N_def dom_def elim: rev_finite_subset)
    qed
    moreover have "N = {}" if "dependent buf h = None"
      using buf_invD(5) [OF inv] that by (fastforce simp: N_def)
    ultimately show "set xs = N" "distinct xs"
      using iter by (cases "dependent buf h"; auto simp: xs_def set_iterator_def)+
  qed
  have N: "dependency ?buf n \<noteq> None \<and> buf_blocks ?buf n \<noteq> None" if "n \<in> set xs" for n
    using that buf_invD(2) [OF inv] by (auto simp: xs N_def)
  have empty: "satisfied h {} buf = buf" by (simp add: satisfied_def)
  have "satisfy iter h buf = Ok (map (\<lambda>n. the (buf_blocks buf n)) ns, ?buf')"
  proof (cases "dependent buf h")
    case None
    then have "?buf = buf" by (simp add: fun_upd_idem)
    then show ?thesis using None xs by (simp add: satisfy_def ns_def xs_def empty)
  next
    case (Some S)
    then show ?thesis
      using satisfy_loop [OF xs(2) N, of h "[]"] xs(1) by (simp add: satisfy_def xs_def ns_def)
  qed
  moreover have ns: "n \<in> set ns \<longleftrightarrow> (\<exists>b. waiting buf n = Some (b, {h}))" for n
    using buf_invD(2,3) [OF inv] by (force simp: ns_def xs N_def without_def waiting_Some [OF inv] split: option.splits if_splits)
  have "the (buf_blocks buf n) = fst (the (waiting buf n))" if mem: "n \<in> set ns" for n
  proof -
    obtain b where "waiting buf n = Some (b, {h})" using ns mem by blast
    then show ?thesis using waiting_Some [OF inv, of n b "{h}"] by simp
  qed
  then have "map (\<lambda>n. the (buf_blocks buf n)) ns = map (\<lambda>n. fst (the (waiting buf n))) ns" by simp
  moreover have "waiting ?buf' n = (case waiting buf n of None \<Rightarrow> None | Some (b, D) \<Rightarrow> if D \<subseteq> {h} then None else Some (b, D - {h}))" for n
  proof (cases "waiting buf n")
    case None
    then show ?thesis using buf_invD(2) [OF inv] by (auto simp: waiting_def satisfied_def without_def split: option.splits if_splits)
  next
    case (Some p)
    then obtain b D where D: "p = (b, D)" "buf_blocks buf n = Some b" "dependency buf n = Some D" "D \<noteq> {}"
      using waiting_Some [OF inv] buf_invD(3) [OF inv] by (metis surj_pair)
    then show ?thesis unfolding Some by (auto simp: waiting_def satisfied_def without_def N_def split: option.splits if_splits)
  qed
  moreover have "buf_inv ?buf'" by (rule satisfied_inv [OF inv]) (simp add: N_def)
  moreover have "distinct ns" using xs(2) by (simp add: ns_def)
  ultimately show ?thesis using ns by (intro exI [of _ ns] exI [of _ ?buf']) auto
qed

section \<open>The contract of a buffer of waiting items\<close>

text \<open>
  What the processing of received blocks relies on: the buffer represents a table of items with the keys
  each waits for, and marking a key as processed releases exactly the items that waited for it alone.
\<close>

locale waiting_room =
  fixes invar :: "'s \<Rightarrow> bool" and abs :: "'s \<Rightarrow> 'k \<rightharpoonup> 'b \<times> 'k set" and key :: "'b \<Rightarrow> 'k"
    and put :: "'b \<Rightarrow> 'k list \<Rightarrow> 's \<Rightarrow> 's res" and release :: "'k \<Rightarrow> 's \<Rightarrow> ('b list \<times> 's) res"
  assumes abs_nonempty: "invar s \<Longrightarrow> abs s n = Some (b, D) \<Longrightarrow> D \<noteq> {}"
    and put_abs: "invar s \<Longrightarrow> abs s (key b) = None \<Longrightarrow> ds \<noteq> [] \<Longrightarrow>
      \<exists>s'. put b ds s = Ok s' \<and> invar s' \<and> abs s' = (abs s)(key b \<mapsto> (b, set ds))"
    and release_abs: "invar s \<Longrightarrow> \<exists>ns s'. release k s = Ok (map (\<lambda>n. fst (the (abs s n))) ns, s') \<and> invar s' \<and>
      distinct ns \<and> set ns = {n. \<exists>b. abs s n = Some (b, {k})} \<and>
      (\<forall>n. abs s' n = (case abs s n of None \<Rightarrow> None | Some (b, D) \<Rightarrow> if D \<subseteq> {k} then None else Some (b, D - {k})))"
begin

definition release_all :: "'k list \<Rightarrow> 's \<Rightarrow> ('b list \<times> 's) res" where
  "release_all ks s =
     rfold (\<lambda>k (acc, s). rbind (release k s) (\<lambda>(r, s'). Ok (acc @ r, s'))) ks ([], s)"

lemma release_all_acc:
  assumes "invar s"
  shows "\<exists>ns s'. rfold (\<lambda>k (acc, s). rbind (release k s) (\<lambda>(r, s'). Ok (acc @ r, s'))) ks (acc, s) =
      Ok (acc @ map (\<lambda>n. fst (the (abs s n))) ns, s') \<and> invar s' \<and>
    distinct ns \<and> set ns = {n. \<exists>b D. abs s n = Some (b, D) \<and> D \<subseteq> set ks} \<and>
    (\<forall>n. abs s' n = (case abs s n of None \<Rightarrow> None | Some (b, D) \<Rightarrow> if D \<subseteq> set ks then None else Some (b, D - set ks)))"
  using assms
proof (induction ks arbitrary: acc s)
  case Nil
  have ne: "abs s n = Some (b, D) \<Longrightarrow> D \<noteq> {}" for n b D by (rule abs_nonempty [OF Nil])
  have "abs s n = (case abs s n of None \<Rightarrow> None | Some (b, D) \<Rightarrow> if D \<subseteq> set [] then None else Some (b, D - set []))" for n
    using ne [of n] by (cases "abs s n") auto
  moreover have "set [] = {n. \<exists>b D. abs s n = Some (b, D) \<and> D \<subseteq> set []}" using ne by auto
  ultimately show ?case using Nil by (intro exI [of _ "[]"] exI [of _ s] conjI allI) simp_all
next
  case (Cons k ks)
  obtain ns1 s1 where s1: "release k s = Ok (map (\<lambda>n. fst (the (abs s n))) ns1, s1)" "invar s1"
    "distinct ns1" "set ns1 = {n. \<exists>b. abs s n = Some (b, {k})}"
    "\<forall>n. abs s1 n = (case abs s n of None \<Rightarrow> None | Some (b, D) \<Rightarrow> if D \<subseteq> {k} then None else Some (b, D - {k}))"
    using release_abs [OF Cons.prems] by blast
  obtain ns2 s2 where s2: "rfold (\<lambda>k (acc, s). rbind (release k s) (\<lambda>(r, s'). Ok (acc @ r, s'))) ks
      (acc @ map (\<lambda>n. fst (the (abs s n))) ns1, s1) =
      Ok ((acc @ map (\<lambda>n. fst (the (abs s n))) ns1) @ map (\<lambda>n. fst (the (abs s1 n))) ns2, s2)" "invar s2"
    "distinct ns2" "set ns2 = {n. \<exists>b D. abs s1 n = Some (b, D) \<and> D \<subseteq> set ks}"
    "\<forall>n. abs s2 n = (case abs s1 n of None \<Rightarrow> None | Some (b, D) \<Rightarrow> if D \<subseteq> set ks then None else Some (b, D - set ks))"
    using Cons.IH [OF s1(2)] by blast
  have mem2: "n \<in> set ns2 \<longleftrightarrow> (\<exists>b D. abs s n = Some (b, D) \<and> \<not> D \<subseteq> {k} \<and> D \<subseteq> set (k # ks))" for n
    unfolding s2(4) using s1(5) [rule_format, of n] by (auto split: option.splits if_splits)
  have "fst (the (abs s1 n)) = fst (the (abs s n))" if mem: "n \<in> set ns2" for n
  proof -
    obtain b D where "abs s n = Some (b, D)" "\<not> D \<subseteq> {k}" using mem mem2 by blast
    then show ?thesis using s1(5) by simp
  qed
  then have "map (\<lambda>n. fst (the (abs s1 n))) ns2 = map (\<lambda>n. fst (the (abs s n))) ns2" by simp
  moreover have "distinct (ns1 @ ns2)"
    using s1(3) s2(3) by (auto simp: s1(4) mem2)
  moreover have "n \<in> set (ns1 @ ns2) \<longleftrightarrow> (\<exists>b D. abs s n = Some (b, D) \<and> D \<subseteq> set (k # ks))" for n
  proof -
    have "n \<in> set ns1 \<longleftrightarrow> (\<exists>b D. abs s n = Some (b, D) \<and> D \<subseteq> {k})"
      using abs_nonempty [OF Cons.prems, of n] by (auto simp: s1(4) subset_singleton_iff)
    then show ?thesis using mem2 by auto
  qed
  moreover have "abs s2 n = (case abs s n of None \<Rightarrow> None
      | Some (b, D) \<Rightarrow> if D \<subseteq> set (k # ks) then None else Some (b, D - set (k # ks)))" for n
    using s1(5) [rule_format, of n] s2(5) [rule_format, of n] by (auto split: option.splits if_splits)
  ultimately show ?case using s1(1) s2(1,2) by (intro exI [of _ "ns1 @ ns2"] exI [of _ s2]) auto
qed

lemmas release_all_abs = release_all_acc [where acc = "[]", folded release_all_def, simplified]

end

lemma buffer_room:
  assumes "set_iterator iter"
  shows "waiting_room buf_inv waiting (block_hash keccak ser) (buffer_insert keccak ser) (satisfy iter)"
proof (unfold_locales, goal_cases)
  case (1 s n b D)
  then show ?case using buf_invD(3) waiting_Some by blast
next
  case (2 s b ds)
  then have "buf_blocks s (block_hash keccak ser b) = None" using dom_waiting [OF 2(1)] by (metis domIff)
  then show ?case using buffer_insert_inv [OF 2(1) _ 2(3)] by blast
next
  case (3 s k)
  then show ?case by (rule satisfy_inv [OF assms])
qed

interpretation buffer: waiting_room buf_inv waiting "block_hash keccak ser" "buffer_insert keccak ser" "satisfy sorted_list_of_set"
  for keccak ser
  by (rule buffer_room) (simp add: set_iterator_def)

section \<open>Properties\<close>

text \<open>The processing of blocks with the given hashes, one after the other.\<close>

definition satisfy_all :: "(h256 set \<Rightarrow> h256 list) \<Rightarrow> h256 list \<Rightarrow> block_buffer \<Rightarrow> (block list \<times> block_buffer) res" where
  "satisfy_all iter hashes buf =
     rfold (\<lambda>h (acc, buf). rbind (satisfy iter h buf) (\<lambda>(r, buf'). Ok (acc @ r, buf'))) hashes ([], buf)"

text \<open>C25: a buffered block is released by the last of its missing references, once, and not before. After a
  new block has been buffered, processing any sequence of blocks never panics; when it covers all missing
  references of the buffered block, the block is among the released ones and gone from the buffer, and
  otherwise the block waits for exactly the references not yet processed.\<close>

theorem buffer_releases:
  assumes iter: "set_iterator iter" and inv: "buf_inv buf" and new: "waiting buf (block_hash keccak ser b) = None" and "ds \<noteq> []"
  shows "\<exists>buf1 out buf2. buffer_insert keccak ser b ds buf = Ok buf1 \<and> satisfy_all iter hs buf1 = Ok (out, buf2) \<and> buf_inv buf2 \<and>
    (if set ds \<subseteq> set hs then b \<in> set out \<and> waiting buf2 (block_hash keccak ser b) = None
     else waiting buf2 (block_hash keccak ser b) = Some (b, set ds - set hs))"
proof -
  let ?h = "block_hash keccak ser b"
  note room = buffer_room [OF iter, of keccak ser]
  obtain buf1 where buf1: "buffer_insert keccak ser b ds buf = Ok buf1" "buf_inv buf1" "waiting buf1 = (waiting buf)(?h \<mapsto> (b, set ds))"
    using waiting_room.put_abs [OF room inv new \<open>ds \<noteq> []\<close>] by blast
  obtain ns buf2 where buf2: "satisfy_all iter hs buf1 = Ok (map (\<lambda>n. fst (the (waiting buf1 n))) ns, buf2)" "buf_inv buf2"
    "set ns = {n. \<exists>b D. waiting buf1 n = Some (b, D) \<and> D \<subseteq> set hs}"
    "\<forall>n. waiting buf2 n = (case waiting buf1 n of None \<Rightarrow> None | Some (b, D) \<Rightarrow> if D \<subseteq> set hs then None else Some (b, D - set hs))"
    using waiting_room.release_all_abs [OF room buf1(2), of hs] unfolding waiting_room.release_all_def [OF room] satisfy_all_def by blast
  have "b \<in> set (map (\<lambda>n. fst (the (waiting buf1 n))) ns)" if "set ds \<subseteq> set hs"
  proof -
    have "?h \<in> set ns" using that by (simp add: buf2(3) buf1(3))
    then have "fst (the (waiting buf1 ?h)) \<in> set (map (\<lambda>n. fst (the (waiting buf1 n))) ns)" by simp
    then show ?thesis by (simp add: buf1(3))
  qed
  moreover have "waiting buf2 ?h = (if set ds \<subseteq> set hs then None else Some (b, set ds - set hs))"
    using spec [OF buf2(4), of ?h] by (simp add: buf1(3))
  ultimately show ?thesis
    using buf1(1) buf2(1,2) by (intro exI [of _ buf1] exI [of _ "map (\<lambda>n. fst (the (waiting buf1 n))) ns"] exI [of _ buf2]) simp
qed

theorem buffer_releases_witness:
  "\<exists>buf1 out buf2. buffer_insert (\<lambda>_. 100) (\<lambda>_. []) proposer_genesis_block [1, 2] buffer_new = Ok buf1 \<and>
    satisfy_all sorted_list_of_set [2, 3, 1] buf1 = Ok (out, buf2) \<and> proposer_genesis_block \<in> set out"
proof -
  have "waiting buffer_new (block_hash (\<lambda>_. 100) (\<lambda>_. []) proposer_genesis_block) = None" by (simp add: buffer_new_waiting)
  from buffer_releases [OF _ buffer_new_inv this, of sorted_list_of_set "[1, 2]" "[2, 3, 1]"]
  show ?thesis by (auto simp: set_iterator_def)
qed

end
