(* ===== verification/Prism_BlockDb.thy ===== *)
theory Prism_BlockDb
  imports Prism_Block
begin

text \<open>
  The block database (\<open>blockdb/mod.rs\<close>): the encoded blocks by hash, the hashes by arrival number and
  the arrival numbers by hash. A column family is a map; the arrival numbers, 64-bit counters of the
  source, are natural numbers. The serialisation of blocks (bincode) is the parameter record \<open>codec\<close>,
  the iterator of the database over the arrival order is the parameter \<open>entries\<close>.
\<close>

section \<open>The database\<close>

record codec =
  encode :: "block \<Rightarrow> bytes"
  decode :: "bytes \<Rightarrow> block option"

record block_db =
  block_cf :: "h256 \<rightharpoonup> bytes"
  block_arrival_order_cf :: "nat \<rightharpoonup> h256"
  block_sequence_number_cf :: "h256 \<rightharpoonup> nat"
  db_count :: nat

text \<open>Opening creates the column families that are missing; the counter starts at zero. The argument
  holds the contents found on disk.\<close>

definition blockdb_open :: "block_db \<Rightarrow> block_db" where
  "blockdb_open disk = disk\<lparr>db_count := 0\<rparr>"

definition blockdb_put :: "h256 \<Rightarrow> bytes \<Rightarrow> nat \<Rightarrow> block_db \<Rightarrow> block_db" where
  "blockdb_put hash raw counter db =
     db\<lparr>block_cf := (block_cf db)(hash \<mapsto> raw),
        block_arrival_order_cf := (block_arrival_order_cf db)(counter \<mapsto> hash),
        block_sequence_number_cf := (block_sequence_number_cf db)(hash \<mapsto> counter)\<rparr>"

definition blockdb_new :: "codec \<Rightarrow> blockchain_config \<Rightarrow> block_db res" where
  "blockdb_new cd c =
     (let db = blockdb_open \<lparr>block_cf = Map.empty, block_arrival_order_cf = Map.empty,
                 block_sequence_number_cf = Map.empty, db_count = 0\<rparr>;
          db1 = blockdb_put (proposer_genesis c) (encode cd proposer_genesis_block) 0 db
      in rbind (rfold (\<lambda>i (db, counter).
                  rbind (rnth (voter_genesis c) i) (\<lambda>hash.
                    Ok (blockdb_put hash (encode cd (voter_genesis_block (word_of_nat i))) counter db, counter + 1)))
                [0..<unat (voter_chains c)] (db1, 1))
           (\<lambda>(db2, counter). Ok (db2\<lparr>db_count := counter\<rparr>)))"

definition blockdb_load :: "((nat \<rightharpoonup> h256) \<Rightarrow> (nat \<times> h256) list) \<Rightarrow> block_db \<Rightarrow> block_db" where
  "blockdb_load entries disk =
     (let db = blockdb_open disk in db\<lparr>db_count := length (entries (block_arrival_order_cf db))\<rparr>)"

definition insert_encoded :: "h256 \<Rightarrow> bytes \<Rightarrow> block_db \<Rightarrow> nat \<times> block_db" where
  "insert_encoded hash raw_block db =
     (let counter = db_count db
      in (counter, blockdb_put hash raw_block counter (db\<lparr>db_count := counter + 1\<rparr>)))"

definition blockdb_insert ::
  "codec \<Rightarrow> (bytes \<Rightarrow> h256) \<Rightarrow> (header \<Rightarrow> bytes) \<Rightarrow> block \<Rightarrow> block_db \<Rightarrow> nat \<times> block_db" where
  "blockdb_insert cd keccak ser b db =
     (let hash = block_hash keccak ser b; serialized = encode cd b; counter = db_count db
      in (counter, blockdb_put hash serialized counter (db\<lparr>db_count := counter + 1\<rparr>)))"

definition unwrap_decode :: "codec \<Rightarrow> bytes \<Rightarrow> block res" where
  "unwrap_decode cd raw = (case decode cd raw of Some b \<Rightarrow> Ok b | None \<Rightarrow> Panic UnwrapErr)"

definition blockdb_get :: "codec \<Rightarrow> h256 \<Rightarrow> block_db \<Rightarrow> block option res" where
  "blockdb_get cd hash db =
     (case block_cf db hash of None \<Rightarrow> Ok None | Some s \<Rightarrow> rbind (unwrap_decode cd s) (\<lambda>b. Ok (Some b)))"

definition get_encoded :: "h256 \<Rightarrow> block_db \<Rightarrow> bytes option" where
  "get_encoded hash db = block_cf db hash"

definition blockdb_contains :: "h256 \<Rightarrow> block_db \<Rightarrow> bool" where
  "blockdb_contains hash db = (case block_cf db hash of None \<Rightarrow> False | Some _ \<Rightarrow> True)"

definition num_blocks :: "block_db \<Rightarrow> nat" where
  "num_blocks db = db_count db"

text \<open>The loop of \<open>latest_block_hash\<close> goes down to the last number with an entry.\<close>

fun latest_from :: "block_db \<Rightarrow> nat \<Rightarrow> h256 res" where
  "latest_from db n =
     (case block_arrival_order_cf db n of
        Some h \<Rightarrow> Ok h
      | None \<Rightarrow> (case n of 0 \<Rightarrow> Panic ArithOverflow | Suc k \<Rightarrow> latest_from db k))"

definition latest_block_hash :: "block_db \<Rightarrow> h256 res" where
  "latest_block_hash db = rbind (rsub (db_count db) 1) (latest_from db)"

section \<open>Blocks in arrival order\<close>

record blocks_in_arrival_order =
  seq_number :: nat
  batch :: nat

definition blocks_after :: "h256 \<Rightarrow> nat \<Rightarrow> block_db \<Rightarrow> blocks_in_arrival_order res" where
  "blocks_after after batch_size db =
     rbind (unwrap (block_sequence_number_cf db after)) (\<lambda>s. Ok \<lparr>seq_number = s + 1, batch = batch_size\<rparr>)"

function next_loop :: "codec \<Rightarrow> block_db \<Rightarrow> nat \<Rightarrow> nat \<Rightarrow> nat \<Rightarrow> block list \<Rightarrow> (nat \<times> block list) res" where
  "next_loop cd db batch_size seq_no this_batch result =
     (if seq_no < db_count db \<and> this_batch < batch_size then
        rbind (unwrap (block_arrival_order_cf db seq_no)) (\<lambda>hash.
        rbind (unwrap (block_cf db hash)) (\<lambda>raw.
        rbind (unwrap_decode cd raw) (\<lambda>b.
          next_loop cd db batch_size (seq_no + 1) (this_batch + 1) (result @ [b]))))
      else Ok (seq_no, result))"
  by pat_completeness auto

termination
  by (relation "measure (\<lambda>(cd, db, batch_size, seq_no, this_batch, result). db_count db - seq_no)") auto

declare next_loop.simps [simp del]

definition arrival_next ::
  "codec \<Rightarrow> block_db \<Rightarrow> blocks_in_arrival_order \<Rightarrow> (block list option \<times> blocks_in_arrival_order) res" where
  "arrival_next cd db it =
     rbind (next_loop cd db (batch it) (seq_number it) 0 []) (\<lambda>(seq_no, result).
       Ok (if result = [] then None else Some result, it\<lparr>seq_number := seq_no\<rparr>))"

declare latest_from.simps [simp del]

section \<open>The history of the database\<close>

text \<open>What the database represents: the encoded blocks in the order of their arrival, each hash once.\<close>

definition arrivals :: "block_db \<Rightarrow> h256 list" where
  "arrivals db = map (\<lambda>i. the (block_arrival_order_cf db i)) [0..<db_count db]"

definition db_inv :: "block_db \<Rightarrow> bool" where
  "db_inv db \<longleftrightarrow>
     (\<forall>i. block_arrival_order_cf db i = (if i < db_count db then Some (arrivals db ! i) else None)) \<and>
     distinct (arrivals db) \<and>
     dom (block_cf db) = set (arrivals db) \<and>
     (\<forall>h i. block_sequence_number_cf db h = Some i \<longleftrightarrow> block_arrival_order_cf db i = Some h)"

lemma length_arrivals [simp]: "length (arrivals db) = db_count db"
  by (simp add: arrivals_def)

lemma db_invD:
  assumes "db_inv db"
  shows "i < db_count db \<Longrightarrow> block_arrival_order_cf db i = Some (arrivals db ! i)"
    "\<not> i < db_count db \<Longrightarrow> block_arrival_order_cf db i = None"
    "distinct (arrivals db)" "dom (block_cf db) = set (arrivals db)"
    "block_sequence_number_cf db h = Some i \<longleftrightarrow> block_arrival_order_cf db i = Some h"
  using assms by (simp_all add: db_inv_def)

lemma contains_arrivals: "db_inv db \<Longrightarrow> blockdb_contains h db \<longleftrightarrow> h \<in> set (arrivals db)"
  using db_invD(4) [of db] by (auto simp: blockdb_contains_def split: option.splits)

lemma put_arrivals:
  "arrivals (blockdb_put h raw (db_count db) (db\<lparr>db_count := db_count db + 1\<rparr>)) = arrivals db @ [h]"
  by (simp add: arrivals_def blockdb_put_def)

lemma put_inv:
  assumes inv: "db_inv db" and new: "\<not> blockdb_contains h db"
  shows "db_inv (blockdb_put h raw (db_count db) (db\<lparr>db_count := db_count db + 1\<rparr>))"
proof -
  let ?db = "blockdb_put h raw (db_count db) (db\<lparr>db_count := db_count db + 1\<rparr>)"
  have h: "h \<notin> set (arrivals db)" using new contains_arrivals [OF inv] by simp
  have order: "block_arrival_order_cf ?db i = (if i < db_count ?db then Some (arrivals ?db ! i) else None)" for i
    unfolding put_arrivals using db_invD(1,2) [OF inv, of i]
    by (auto simp: blockdb_put_def nth_append less_Suc_eq)
  have seq: "block_sequence_number_cf ?db k = Some i \<longleftrightarrow> block_arrival_order_cf ?db i = Some k" for k i
  proof -
    have "block_sequence_number_cf db h = None"
      using db_invD(5) [OF inv, of h] db_invD(1,2) [OF inv] h
      by (metis length_arrivals nth_mem option.distinct(1) option.exhaust option.inject)
    moreover have "block_arrival_order_cf db (db_count db) = None" using db_invD(2) [OF inv] by simp
    moreover have "block_arrival_order_cf db i \<noteq> Some h" using calculation(1) db_invD(5) [OF inv, of h i] by simp
    ultimately show ?thesis using db_invD(5) [OF inv, of k i] db_invD(5) [OF inv, of h i] by (auto simp: blockdb_put_def)
  qed
  have "dom (block_cf ?db) = set (arrivals ?db)" unfolding put_arrivals using db_invD(4) [OF inv] by (auto simp: blockdb_put_def)
  moreover have "distinct (arrivals ?db)" unfolding put_arrivals using db_invD(3) [OF inv] h by simp
  ultimately show ?thesis unfolding db_inv_def using order seq by blast
qed

lemma insert_encoded_inv:
  assumes "db_inv db" and "\<not> blockdb_contains h db" and "insert_encoded h raw db = (n, db')"
  shows "db_inv db'" "arrivals db' = arrivals db @ [h]" "n = db_count db" "block_cf db' = (block_cf db)(h \<mapsto> raw)"
proof -
  have n: "n = db_count db" and db': "db' = blockdb_put h raw (db_count db) (db\<lparr>db_count := db_count db + 1\<rparr>)"
    using assms(3) by (auto simp: insert_encoded_def Let_def)
  show "db_inv db'" "arrivals db' = arrivals db @ [h]" "n = db_count db"
    unfolding n db' using put_inv [OF assms(1,2), of raw] put_arrivals [of h raw db] by simp_all
  show "block_cf db' = (block_cf db)(h \<mapsto> raw)" unfolding db' by (simp add: blockdb_put_def)
qed

lemma blockdb_insert_encoded:
  "blockdb_insert cd keccak ser b db = insert_encoded (block_hash keccak ser b) (encode cd b) db"
  by (simp add: blockdb_insert_def insert_encoded_def)

section \<open>Creation\<close>

lemma put_count: "(blockdb_put h raw n db)\<lparr>db_count := m\<rparr> = blockdb_put h raw n (db\<lparr>db_count := m\<rparr>)"
  by (simp add: blockdb_put_def)

lemma new_loop:
  assumes inv: "db_inv (db\<lparr>db_count := n\<rparr>)" and new: "distinct (arrivals (db\<lparr>db_count := n\<rparr>) @ take k hs)" and k: "k \<le> length hs"
  shows "\<exists>db'. rfold (\<lambda>i (db, counter). rbind (rnth hs i) (\<lambda>hash.
      Ok (blockdb_put hash (f i) counter db, counter + 1))) [0..<k] (db, n) = Ok (db', n + k) \<and>
    db_inv (db'\<lparr>db_count := n + k\<rparr>) \<and> arrivals (db'\<lparr>db_count := n + k\<rparr>) = arrivals (db\<lparr>db_count := n\<rparr>) @ take k hs"
  using new k
proof (induction k)
  case 0
  then show ?case using inv by simp
next
  case (Suc k)
  have "take (Suc k) hs = take k hs @ [hs ! k]" using Suc.prems(2) by (simp add: take_Suc_conv_app_nth)
  then have fresh: "distinct (arrivals (db\<lparr>db_count := n\<rparr>) @ take k hs)" "hs ! k \<notin> set (arrivals (db\<lparr>db_count := n\<rparr>) @ take k hs)"
    and take: "take (Suc k) hs = take k hs @ [hs ! k]" using Suc.prems(1) by auto
  from Suc.IH [OF fresh(1)] Suc.prems(2) obtain db' where
    db': "rfold (\<lambda>i (db, counter). rbind (rnth hs i) (\<lambda>hash.
      Ok (blockdb_put hash (f i) counter db, counter + 1))) [0..<k] (db, n) = Ok (db', n + k)"
    "db_inv (db'\<lparr>db_count := n + k\<rparr>)" "arrivals (db'\<lparr>db_count := n + k\<rparr>) = arrivals (db\<lparr>db_count := n\<rparr>) @ take k hs"
    by auto
  have "\<not> blockdb_contains (hs ! k) (db'\<lparr>db_count := n + k\<rparr>)"
    using contains_arrivals [OF db'(2)] fresh(2) db'(3) by simp
  from put_inv [OF db'(2) this, of "f k"] put_arrivals [of "hs ! k" "f k" "db'\<lparr>db_count := n + k\<rparr>"]
  show ?case using Suc.prems(2) take db'(1,3) by (simp add: rfold_append put_count)
qed

lemma blockdb_new_inv:
  assumes "length (voter_genesis c) = unat (voter_chains c)" and "distinct (proposer_genesis c # voter_genesis c)"
  shows "\<exists>db. blockdb_new cd c = Ok db \<and> db_inv db \<and> arrivals db = proposer_genesis c # voter_genesis c"
proof -
  let ?e = "\<lparr>block_cf = Map.empty, block_arrival_order_cf = Map.empty, block_sequence_number_cf = Map.empty, db_count = 0\<rparr>"
  let ?db = "blockdb_put (proposer_genesis c) (encode cd proposer_genesis_block) 0 ?e"
  have e: "db_inv ?e" "arrivals ?e = []" by (simp_all add: db_inv_def arrivals_def)
  have db: "?db\<lparr>db_count := 1\<rparr> = blockdb_put (proposer_genesis c) (encode cd proposer_genesis_block) (db_count ?e) (?e\<lparr>db_count := db_count ?e + 1\<rparr>)"
    by (simp add: blockdb_put_def)
  have inv: "db_inv (?db\<lparr>db_count := 1\<rparr>)" unfolding db by (rule put_inv [OF e(1)]) (simp add: blockdb_contains_def)
  have arr: "arrivals (?db\<lparr>db_count := 1\<rparr>) = [proposer_genesis c]" unfolding db put_arrivals e by simp
  from new_loop [OF inv, of "unat (voter_chains c)" "voter_genesis c" "\<lambda>i. encode cd (voter_genesis_block (word_of_nat i))"] assms arr
  show ?thesis by (auto simp: blockdb_new_def blockdb_open_def)
qed

section \<open>Loading and reading\<close>

lemma load_restores:
  assumes "db_inv db" and "map_of (entries (block_arrival_order_cf db)) = block_arrival_order_cf db"
    and "distinct (map fst (entries (block_arrival_order_cf db)))"
  shows "blockdb_load entries db = db"
proof -
  let ?es = "entries (block_arrival_order_cf db)"
  have "i \<in> dom (block_arrival_order_cf db) \<longleftrightarrow> i < db_count db" for i
    using db_invD(1,2) [OF assms(1), of i] by (cases "i < db_count db") auto
  then have "dom (map_of ?es) = {..<db_count db}" unfolding assms(2) by blast
  then have "set (map fst ?es) = {..<db_count db}" by (simp add: dom_map_of_conv_image_fst)
  then have "length (map fst ?es) = db_count db" using distinct_card [OF assms(3)] by simp
  then have "length ?es = db_count db" by simp
  then show ?thesis by (simp add: blockdb_load_def blockdb_open_def Let_def)
qed

lemma latest_arrival:
  assumes "db_inv db" and "arrivals db \<noteq> []"
  shows "latest_block_hash db = Ok (last (arrivals db))"
proof -
  have n: "0 < db_count db" using assms(2) by (simp add: length_arrivals [symmetric] del: length_arrivals)
  have "latest_from db (db_count db - 1) = Ok (last (arrivals db))"
    using db_invD(1) [OF assms(1), of "db_count db - 1"] n assms(2) by (simp add: latest_from.simps last_conv_nth)
  then show ?thesis using n by (simp add: latest_block_hash_def rsub_def)
qed

definition stored :: "codec \<Rightarrow> block_db \<Rightarrow> h256 \<Rightarrow> block option" where
  "stored cd db h = (case block_cf db h of Some raw \<Rightarrow> decode cd raw | None \<Rightarrow> None)"

lemma next_loop_blocks:
  assumes inv: "db_inv db" and dec: "\<And>h. h \<in> set (arrivals db) \<Longrightarrow> stored cd db h \<noteq> None" and s: "s \<le> db_count db"
  shows "next_loop cd db n s t acc =
    Ok (min (s + (n - t)) (db_count db), acc @ map (\<lambda>h. the (stored cd db h)) (take (n - t) (drop s (arrivals db))))"
  using s
proof (induction "db_count db - s" arbitrary: s t acc)
  case 0
  then show ?case by (subst next_loop.simps) simp
next
  case (Suc d)
  show ?case
  proof (cases "t < n")
    case False
    then show ?thesis using Suc.prems by (subst next_loop.simps) simp
  next
    case True
    have lt: "s < db_count db" using Suc.hyps(2) by simp
    let ?h = "arrivals db ! s"
    have mem: "?h \<in> set (arrivals db)" using lt by simp
    obtain raw b where raw: "block_cf db ?h = Some raw" "decode cd raw = Some b"
      using dec [OF mem] by (auto simp: stored_def split: option.splits)
    have "n - t = Suc (n - Suc t)" using True by simp
    moreover have "drop s (arrivals db) = ?h # drop (Suc s) (arrivals db)" using lt by (simp add: Cons_nth_drop_Suc)
    ultimately show ?thesis
      using Suc.hyps(1) [of "s + 1" "t + 1" "acc @ [b]"] Suc.hyps(2) lt True raw db_invD(1) [OF inv lt]
      by (subst next_loop.simps) (simp add: unwrap_decode_def stored_def)
  qed
qed

lemma arrival_next_blocks:
  assumes "db_inv db" and "\<And>h. h \<in> set (arrivals db) \<Longrightarrow> stored cd db h \<noteq> None" and "seq_number it \<le> db_count db"
  shows "arrival_next cd db it =
    (let bs = map (\<lambda>h. the (stored cd db h)) (take (batch it) (drop (seq_number it) (arrivals db)))
     in Ok (if bs = [] then None else Some bs, it\<lparr>seq_number := min (seq_number it + batch it) (db_count db)\<rparr>))"
  using next_loop_blocks [OF assms, of "batch it" 0 "[]"] by (simp add: arrival_next_def Let_def)

text \<open>A consumer that calls the iterator until it ends.\<close>

fun drain :: "codec \<Rightarrow> block_db \<Rightarrow> nat \<Rightarrow> blocks_in_arrival_order \<Rightarrow> block list list res" where
  "drain cd db 0 it = Panic OutOfFuel"
| "drain cd db (Suc fuel) it =
     rbind (arrival_next cd db it) (\<lambda>(r, it').
       case r of None \<Rightarrow> Ok [] | Some bs \<Rightarrow> rbind (drain cd db fuel it') (\<lambda>rest. Ok (bs # rest)))"

lemma drain_blocks:
  assumes "db_inv db" and "\<And>h. h \<in> set (arrivals db) \<Longrightarrow> stored cd db h \<noteq> None"
    and "seq_number it \<le> db_count db" and "0 < batch it" and "db_count db - seq_number it < fuel"
  shows "\<exists>bss. drain cd db fuel it = Ok bss \<and>
    concat bss = map (\<lambda>h. the (stored cd db h)) (drop (seq_number it) (arrivals db)) \<and>
    (\<forall>bs \<in> set bss. bs \<noteq> [] \<and> length bs \<le> batch it)"
  using assms(3-5)
proof (induction fuel arbitrary: it)
  case (Suc fuel)
  let ?s = "seq_number it" and ?n = "batch it" and ?f = "\<lambda>h. the (stored cd db h)"
  note nxt = arrival_next_blocks [OF assms(1,2) Suc.prems(1), unfolded Let_def]
  show ?case
  proof (cases "?s = db_count db")
    case True
    then show ?thesis using nxt by simp
  next
    case False
    let ?it = "it\<lparr>seq_number := min (?s + ?n) (db_count db)\<rparr>"
    have less: "db_count db - min (?s + ?n) (db_count db) < fuel" using False Suc.prems by linarith
    have ne: "take ?n (drop ?s (arrivals db)) \<noteq> []" using False Suc.prems(1,2) by simp
    obtain bss where bss: "drain cd db fuel ?it = Ok bss"
      "concat bss = map ?f (drop (min (?s + ?n) (db_count db)) (arrivals db))" "\<forall>bs \<in> set bss. bs \<noteq> [] \<and> length bs \<le> ?n"
      using Suc.IH [of ?it] less Suc.prems(2) by auto
    have "drop (min (?s + ?n) (db_count db)) (arrivals db) = drop ?n (drop ?s (arrivals db))"
      by (cases "?s + ?n \<le> db_count db") (simp_all add: min_def add.commute)
    then have "map ?f (take ?n (drop ?s (arrivals db))) @ concat bss = map ?f (drop ?s (arrivals db))"
      unfolding bss(2) by (metis append_take_drop_id map_append)
    then show ?thesis using nxt ne bss by auto
  qed
qed simp

section \<open>Properties\<close>

definition insert_blocks ::
  "codec \<Rightarrow> (bytes \<Rightarrow> h256) \<Rightarrow> (header \<Rightarrow> bytes) \<Rightarrow> block list \<Rightarrow> block_db \<Rightarrow> block_db" where
  "insert_blocks cd keccak ser bs db = fold (\<lambda>b db. snd (blockdb_insert cd keccak ser b db)) bs db"

lemma insert_blocks_inv:
  assumes "db_inv db" and "distinct (arrivals db @ map (block_hash keccak ser) bs)"
  shows "db_inv (insert_blocks cd keccak ser bs db) \<and>
    arrivals (insert_blocks cd keccak ser bs db) = arrivals db @ map (block_hash keccak ser) bs \<and>
    (\<forall>h. h \<notin> block_hash keccak ser ` set bs \<longrightarrow> block_cf (insert_blocks cd keccak ser bs db) h = block_cf db h) \<and>
    (\<forall>b \<in> set bs. block_cf (insert_blocks cd keccak ser bs db) (block_hash keccak ser b) = Some (encode cd b))"
  using assms
proof (induction bs arbitrary: db)
  case (Cons b bs)
  let ?h = "block_hash keccak ser b"
  obtain n db1 where ins: "insert_encoded ?h (encode cd b) db = (n, db1)" by fastforce
  have "\<not> blockdb_contains ?h db" using contains_arrivals [OF Cons.prems(1)] Cons.prems(2) by simp
  note db1 = insert_encoded_inv [OF Cons.prems(1) this ins]
  have step: "insert_blocks cd keccak ser (b # bs) db = insert_blocks cd keccak ser bs db1"
    using ins by (simp add: insert_blocks_def blockdb_insert_encoded)
  have "distinct (arrivals db1 @ map (block_hash keccak ser) bs)" using Cons.prems(2) by (simp add: db1(2))
  note IH = Cons.IH [OF db1(1) this]
  have "?h \<notin> block_hash keccak ser ` set bs" using Cons.prems(2) by auto
  with IH show ?case unfolding step db1(2,4) by auto
qed (simp add: insert_blocks_def)



definition sorted_entries :: "(nat \<rightharpoonup> h256) \<Rightarrow> (nat \<times> h256) list" where
  "sorted_entries m = map (\<lambda>k. (k, the (m k))) (sorted_list_of_set (dom m))"

lemma sorted_entries_law:
  assumes "finite (dom m)"
  shows "map_of (sorted_entries m) = m \<and> distinct (map fst (sorted_entries m))"
proof
  show "map_of (sorted_entries m) = m"
  proof
    fix k
    show "map_of (sorted_entries m) k = m k"
      using assms by (cases "k \<in> dom m") (auto simp: sorted_entries_def map_of_map_keys domIff)
  qed
  show "distinct (map fst (sorted_entries m))" by (simp add: sorted_entries_def comp_def)
qed

definition example_codec :: codec where
  "example_codec = \<lparr>encode = (\<lambda>b. [if header b = header (voter_genesis_block 0) then 1 else 0]),
     decode = (\<lambda>bs. Some (if bs = [1] then voter_genesis_block 0 else proposer_genesis_block))\<rparr>"


definition example_db :: block_db where
  "example_db = insert_blocks example_codec (\<lambda>bs. word_of_nat (length bs)) (\<lambda>h. replicate (unat (nonce h)) 0)
     [block_new 0 0 7 0 [] (content proposer_genesis_block) [] 0, block_new 0 0 8 0 [] (content proposer_genesis_block) [] 0,
      block_new 0 0 9 0 [] (content proposer_genesis_block) [] 0]
     \<lparr>block_cf = Map.empty, block_arrival_order_cf = Map.empty, block_sequence_number_cf = Map.empty, db_count = 0\<rparr>"


end
