(* ===== verification/Prism_Worker.thy ===== *)
theory Prism_Worker
  imports Prism_Ledger_Insert Prism_Validation Prism_Mempool Prism_Buffer Prism_BlockDb
begin

text \<open>
  The worker that processes the messages of the peers (\<open>network/worker.rs\<close>, \<open>network/message.rs\<close>,
  \<open>handler/*.rs\<close>) on the state of a node: block graph, block database, memory pool and buffer. One
  message is handled as one step; what the handler sends is a list of effects. The parameters of the
  node (Keccak, serialisation, signatures, the clock, the iteration order of hash sets) are the record
  \<open>worker_env\<close>. A loop that may not end has type \<open>option\<close>, with \<open>None\<close> for not returning.
\<close>

section \<open>Messages and state\<close>

datatype message =
    Ping string
  | Pong string
  | NewBlockHashes "h256 list"
  | GetBlocks "h256 list"
  | Blocks "bytes list"
  | NewTransactionHashes "h256 list"
  | GetTransactions "h256 list"
  | Transactions "transaction list"
  | Bootstrap h256

datatype context_update_signal = NewProposerBlock | NewVoterBlock u16 | NewTransactionBlock

datatype effect = Write message | Broadcast message | Signal context_update_signal

record worker_env =
  we_keccak :: "bytes \<Rightarrow> h256"
  we_ser :: "header \<Rightarrow> bytes"
  we_crypto :: crypto
  we_codec :: codec
  we_message :: "bytes \<Rightarrow> message option"
  we_iter :: "h256 set \<Rightarrow> h256 list"
  we_config :: blockchain_config
  we_header_size :: nat
  we_clock :: "block \<Rightarrow> nat"
  we_db_time :: "h256 \<Rightarrow> nat"

record node =
  node_chain :: blockchain
  node_db :: block_db
  node_pool :: memory_pool
  node_buffer :: block_buffer
  recent_blocks :: "h256 set"
  requested_blocks :: "h256 set"

definition worker_new :: "blockchain \<Rightarrow> block_db \<Rightarrow> memory_pool \<Rightarrow> node" where
  "worker_new bc db p =
     \<lparr>node_chain = bc, node_db = db, node_pool = p, node_buffer = buffer_new,
      recent_blocks = {}, requested_blocks = {}\<rparr>"

abbreviation env_hash :: "worker_env \<Rightarrow> block \<Rightarrow> h256" where
  "env_hash env \<equiv> block_hash (we_keccak env) (we_ser env)"

definition record_perf :: "(counter \<Rightarrow> counter) \<Rightarrow> node \<Rightarrow> node" where
  "record_perf f n = n\<lparr>node_chain := (node_chain n)\<lparr>perf := f (perf (node_chain n))\<rparr>\<rparr>"

section \<open>Validated blocks\<close>

definition new_validated_block :: "worker_env \<Rightarrow> block \<Rightarrow> node \<Rightarrow> node res" where
  "new_validated_block env b n =
     (let n1 = record_perf (record_process_block (we_header_size env) b) n in
      rbind (case content b of
               Transaction c \<Rightarrow> rfold (\<lambda>tx. remove_by_hash (tx_hash tx)) (transactions c) (node_pool n1)
             | _ \<Rightarrow> Ok (node_pool n1)) (\<lambda>pool.
      rbind (insert_block (we_keccak env) (we_ser env) b (node_chain n1)) (\<lambda>chain.
        Ok (n1\<lparr>node_pool := pool, node_chain := chain\<rparr>))))"

definition update_signal :: "block \<Rightarrow> context_update_signal" where
  "update_signal b =
     (case content b of
        Proposer _ \<Rightarrow> NewProposerBlock
      | Voter c \<Rightarrow> NewVoterBlock (chain_number c)
      | Transaction _ \<Rightarrow> NewTransactionBlock)"

section \<open>Received blocks\<close>

text \<open>The first loop over the received blocks: decoding, proof of work, duplicates and storage.\<close>

definition receive_block :: "worker_env \<Rightarrow> bytes \<Rightarrow> block list \<times> node \<Rightarrow> (block list \<times> node) res" where
  "receive_block env encoded_block acc =
     (case acc of (blocks, n) \<Rightarrow>
      rbind (unwrap_decode (we_codec env) encoded_block) (\<lambda>b.
        let hash = env_hash env b;
            n1 = n\<lparr>requested_blocks := requested_blocks n - {hash}\<rparr> in
        rbind (check_pow_sortition_id (we_keccak env) (we_ser env) b (we_config env)) (\<lambda>pow_check.
          if pow_check \<noteq> Pass then Ok (blocks, n1)
          else if hash \<in> recent_blocks n1 then Ok (blocks, n1)
          else
            let n2 = n1\<lparr>recent_blocks := insert hash (recent_blocks n1)\<rparr> in
            if blockdb_contains hash (node_db n2)
            then Ok (blocks, n2\<lparr>recent_blocks := recent_blocks n2 - {hash}\<rparr>)
            else
              let n3 = n2\<lparr>node_db := snd (insert_encoded hash encoded_block (node_db n2))\<rparr>;
                  n4 = record_perf (record_insert_block_db_time (we_db_time env hash)) n3
              in Ok (blocks @ [b], n4\<lparr>recent_blocks := recent_blocks n4 - {hash}\<rparr>))))"

text \<open>One round of the second loop: the block taken from the end of the work list is buffered, rejected
  or inserted; insertion releases the buffered blocks that waited for it.\<close>

record work =
  to_process :: "block list"
  to_request :: "h256 list"
  signals :: "context_update_signal list"

definition process_block :: "worker_env \<Rightarrow> block \<Rightarrow> work \<times> node \<Rightarrow> (work \<times> node) res" where
  "process_block env b acc =
     (case acc of (w, n) \<Rightarrow>
      (case check_data_availability b (node_chain n) of
         MissingReferences r \<Rightarrow>
           rbind (buffer_insert (we_keccak env) (we_ser env) b r (node_buffer n)) (\<lambda>buf.
             Ok (w\<lparr>to_request := to_request w @ r\<rparr>, n\<lparr>node_buffer := buf\<rparr>))
       | Pass \<Rightarrow>
           rbind (check_sortition_proof (we_keccak env) (we_ser env) b (we_config env)) (\<lambda>sortition.
             if sortition \<noteq> Pass then Ok (w, n)
             else rbind (check_content_semantic (we_crypto env) b (node_chain n)) (\<lambda>content_semantic.
               if content_semantic \<noteq> Pass then Ok (w, n)
               else rbind (new_validated_block env b n) (\<lambda>n1.
                 rbind (satisfy (we_iter env) (env_hash env b) (node_buffer n1)) (\<lambda>(resolved, buf).
                   Ok (w\<lparr>to_process := to_process w @ resolved, signals := signals w @ [update_signal b]\<rparr>,
                       n1\<lparr>node_buffer := buf\<rparr>)))))
       | _ \<Rightarrow> Panic UnreachableCode))"

partial_function (option) process_loop :: "worker_env \<Rightarrow> work \<Rightarrow> node \<Rightarrow> (work \<times> node) res option" where
  "process_loop env w n =
     (if to_process w = [] then Some (Ok (w, n))
      else (case process_block env (last (to_process w)) (w\<lparr>to_process := butlast (to_process w)\<rparr>, n) of
              Panic p \<Rightarrow> Some (Panic p)
            | Ok (w1, n1) \<Rightarrow> process_loop env w1 n1))"

definition handle_blocks :: "worker_env \<Rightarrow> bytes list \<Rightarrow> node \<Rightarrow> (effect list \<times> node) res option" where
  "handle_blocks env encoded_blocks n =
     (case rfold (receive_block env) encoded_blocks ([], n) of
        Panic p \<Rightarrow> Some (Panic p)
      | Ok (blocks, n1) \<Rightarrow>
          let n2 = fold (\<lambda>b. record_perf (record_receive_block (we_clock env b) b)) blocks n1;
              hashes = map (env_hash env) blocks in
          if hashes = [] then Some (Ok ([], n2))
          else (case process_loop env \<lparr>to_process = blocks, to_request = [], signals = []\<rparr> n2 of
                  None \<Rightarrow> None
                | Some (Panic p) \<Rightarrow> Some (Panic p)
                | Some (Ok (w, n3)) \<Rightarrow>
                    Some (Ok ([Broadcast (NewBlockHashes hashes)] @ map Signal (signals w) @
                      (if to_request w = [] then [] else [Write (GetBlocks (remdups_adj (sort (to_request w))))]), n3))))"

section \<open>The handler of a message\<close>

definition handle_message :: "worker_env \<Rightarrow> message \<Rightarrow> node \<Rightarrow> (effect list \<times> node) res option" where
  "handle_message env msg n =
     (case msg of
        Ping s \<Rightarrow> Some (Ok ([Write (Pong s)], n))
      | Pong s \<Rightarrow> Some (Ok ([], n))
      | NewTransactionHashes hashes \<Rightarrow>
          let hashes_to_request = filter (\<lambda>h. \<not> pool_contains h (node_pool n)) hashes in
          Some (Ok (if hashes_to_request = [] then [] else [Write (GetTransactions hashes_to_request)], n))
      | GetTransactions hashes \<Rightarrow>
          let txs = List.map_filter (\<lambda>h. map_option entry_transaction (pool_get h (node_pool n))) hashes in
          Some (Ok ([Write (Transactions txs)], n))
      | Transactions txs \<Rightarrow> Some (Ok ([], n\<lparr>node_pool := fold new_transaction txs (node_pool n)\<rparr>))
      | NewBlockHashes hashes \<Rightarrow>
          let hashes_to_request = filter (\<lambda>h. \<not> (blockdb_contains h (node_db n) \<or> h \<in> requested_blocks n)) hashes in
          Some (Ok (if hashes_to_request = [] then [] else [Write (GetBlocks hashes_to_request)],
            n\<lparr>requested_blocks := requested_blocks n \<union> set hashes_to_request\<rparr>))
      | GetBlocks hashes \<Rightarrow>
          let blocks = List.map_filter (\<lambda>h. get_encoded h (node_db n)) hashes in
          Some (Ok ([Write (Blocks blocks)], n))
      | Blocks encoded_blocks \<Rightarrow> handle_blocks env encoded_blocks n
      | Bootstrap after \<Rightarrow> Some (Ok ([], n)))"

definition worker_step :: "worker_env \<Rightarrow> bytes \<Rightarrow> node \<Rightarrow> (effect list \<times> node) res option" where
  "worker_step env raw n =
     (let n1 = record_perf (record_process_message (length raw)) n in
      case we_message env raw of
        None \<Rightarrow> Some (Panic UnwrapErr)
      | Some msg \<Rightarrow> handle_message env msg n1)"

end
