(* ===== verification/Prism_Miner.thy ===== *)
theory Prism_Miner
  imports Prism_Worker
begin

text \<open>
  The miner (\<open>miner/mod.rs\<close>): one round of its loop on the state of the node. The round takes the
  control signal and the context updates that are waiting, and the results of the random generator and
  of the clock, as arguments; the block graph does not change during a round. Sleeping between rounds
  has no effect on the state. Hash maps are iterated in the order of the parameter \<open>iter\<close>.
\<close>

section \<open>State\<close>

datatype control_signal = Start nat bool flt | StepSignal | Exit

datatype operating_state = Paused | Run nat bool flt | Step | ShutDown

record miner =
  m_header :: header
  m_contents :: "content list"
  m_tree :: merkle_tree
  m_state :: operating_state

definition content_tree :: "(bytes \<Rightarrow> h256) \<Rightarrow> content list \<Rightarrow> merkle_tree res" where
  "content_tree keccak contents = rbind (rmap (content_hash keccak) contents) (merkle_new keccak (\<lambda>h. h))"

definition update_content :: "(bytes \<Rightarrow> h256) \<Rightarrow> nat \<Rightarrow> content \<Rightarrow> merkle_tree \<Rightarrow> merkle_tree res" where
  "update_content keccak i c t = rbind (content_hash keccak c) (\<lambda>h. merkle_update keccak (\<lambda>h. h) t i h)"

definition miner_new :: "worker_env \<Rightarrow> nat \<Rightarrow> miner res" where
  "miner_new env now =
     (let c = we_config env in
      rbind (rmap (\<lambda>i. rbind (rnth (voter_genesis c) i) (\<lambda>g.
               Ok (Voter \<lparr>chain_number = word_of_nat i, voter_parent = g, votes = []\<rparr>)))
             [0..<unat (voter_chains c)]) (\<lambda>voters.
      let contents = Proposer \<lparr>transaction_refs = [], proposer_refs = []\<rparr> # Transaction \<lparr>transactions = []\<rparr> # voters in
      rbind (content_tree (we_keccak env) contents) (\<lambda>tree.
        Ok \<lparr>m_header = \<lparr>parent = proposer_genesis c, timestamp = now, nonce = 0, content_merkle_root = 0,
              extra_content = replicate 32 0, difficulty = DEFAULT_DIFFICULTY\<rparr>,
            m_contents = contents, m_tree = tree, m_state = Paused\<rparr>)))"

definition initial_signals :: "worker_env \<Rightarrow> context_update_signal list" where
  "initial_signals env =
     NewProposerBlock # NewTransactionBlock # map (\<lambda>i. NewVoterBlock (word_of_nat i)) [0..<unat (voter_chains (we_config env))]"

section \<open>Control signals\<close>

definition handle_control_signal :: "control_signal \<Rightarrow> miner \<Rightarrow> miner" where
  "handle_control_signal signal m =
     (case signal of
        Exit \<Rightarrow> m\<lparr>m_state := ShutDown\<rparr>
      | Start i l p \<Rightarrow> m\<lparr>m_state := Run i l p\<rparr>
      | StepSignal \<Rightarrow> m\<lparr>m_state := Step\<rparr>)"

text \<open>The result tells whether the round goes on to mine. A paused miner waits for a signal; without one
  it stays paused.\<close>

definition miner_poll :: "control_signal option \<Rightarrow> miner \<Rightarrow> miner \<times> bool" where
  "miner_poll signal m =
     (case m_state m of
        Paused \<Rightarrow> ((case signal of Some s \<Rightarrow> handle_control_signal s m | None \<Rightarrow> m), False)
      | ShutDown \<Rightarrow> (m, False)
      | _ \<Rightarrow>
          let m1 = (case signal of Some s \<Rightarrow> handle_control_signal s m | None \<Rightarrow> m)
          in (m1, m_state m1 \<noteq> ShutDown))"

section \<open>Context updates\<close>

record updates =
  new_transaction_block :: bool
  new_voter_block :: "u16 set"
  new_proposer_block :: bool

definition collect_signals :: "context_update_signal list \<Rightarrow> updates" where
  "collect_signals sigs =
     fold (\<lambda>sig u. case sig of
             NewProposerBlock \<Rightarrow> u\<lparr>new_proposer_block := True\<rparr>
           | NewVoterBlock chain \<Rightarrow> u\<lparr>new_voter_block := insert chain (new_voter_block u)\<rparr>
           | NewTransactionBlock \<Rightarrow> u\<lparr>new_transaction_block := True\<rparr>)
       sigs \<lparr>new_transaction_block = False, new_voter_block = {}, new_proposer_block = False\<rparr>"

text \<open>The contents being mined and the indices of those that changed.\<close>

type_synonym contents = "content list \<times> u16 set"

definition update_voter_parent :: "blockchain \<Rightarrow> u16 \<Rightarrow> contents \<Rightarrow> contents res" where
  "update_voter_parent bc voter_chain acc =
     (case acc of (cs, marks) \<Rightarrow>
      let chain_id = unat (FIRST_VOTER_INDEX + voter_chain) in
      rbind (best_voter (unat voter_chain) bc) (\<lambda>vp.
      rbind (rnth cs chain_id) (\<lambda>c.
        case c of
          Voter v \<Rightarrow>
            if vp \<noteq> voter_parent v
            then Ok (cs[chain_id := Voter (v\<lparr>voter_parent := vp\<rparr>)], insert (word_of_nat chain_id) marks)
            else Ok (cs, marks)
        | _ \<Rightarrow> Panic UnreachableCode)))"

definition update_transactions :: "worker_env \<Rightarrow> memory_pool \<Rightarrow> contents \<Rightarrow> contents res" where
  "update_transactions env pool acc =
     (case acc of (cs, marks) \<Rightarrow>
      rbind (get_transactions (unat (tx_txs (we_config env))) pool) (\<lambda>txs.
      rbind (rnth cs (unat TRANSACTION_INDEX)) (\<lambda>c.
        case c of
          Transaction t \<Rightarrow> Ok (cs[unat TRANSACTION_INDEX := Transaction (t\<lparr>transactions := txs\<rparr>)], insert TRANSACTION_INDEX marks)
        | _ \<Rightarrow> Panic UnreachableCode)))"

definition append_transaction_refs ::
  "worker_env \<Rightarrow> ((h256 \<times> nat) list \<Rightarrow> (h256 \<times> nat) list) \<Rightarrow> blockchain \<Rightarrow> contents \<Rightarrow> contents res" where
  "append_transaction_refs env iter bc acc =
     (case acc of (cs, marks) \<Rightarrow>
      let quota = unat (proposer_tx_refs (we_config env)) in
      rbind (rnth cs (unat PROPOSER_INDEX)) (\<lambda>c.
        case c of
          Proposer p \<Rightarrow>
            if length (transaction_refs p) < quota
            then Ok (cs[unat PROPOSER_INDEX := Proposer (p\<lparr>transaction_refs := take quota (unreferred_transactions_list iter bc)\<rparr>)],
                     insert PROPOSER_INDEX marks)
            else Ok (cs, marks)
        | _ \<Rightarrow> Panic UnreachableCode))"

definition refresh_refs ::
  "worker_env \<Rightarrow> ((h256 \<times> nat) list \<Rightarrow> (h256 \<times> nat) list) \<Rightarrow> blockchain \<Rightarrow> h256 \<Rightarrow> contents \<Rightarrow> contents res" where
  "refresh_refs env iter bc p acc =
     (case acc of (cs, marks) \<Rightarrow>
      let quota = unat (proposer_tx_refs (we_config env)) in
      rbind (rnth cs (unat PROPOSER_INDEX)) (\<lambda>c.
        case c of
          Proposer _ \<Rightarrow>
            Ok (cs[unat PROPOSER_INDEX := Proposer \<lparr>transaction_refs = take quota (unreferred_transactions_list iter bc),
                     proposer_refs = filter (\<lambda>x. x \<noteq> p) (unreferred_proposers_list iter bc)\<rparr>],
                insert PROPOSER_INDEX marks)
        | _ \<Rightarrow> Panic UnreachableCode))"

text \<open>The loop that follows the best proposer. On an unchanging graph the second pass ends it.\<close>

fun follow_best ::
  "nat \<Rightarrow> worker_env \<Rightarrow> ((h256 \<times> nat) list \<Rightarrow> (h256 \<times> nat) list) \<Rightarrow> blockchain \<Rightarrow> bool \<Rightarrow> h256 \<Rightarrow> contents \<Rightarrow>
   (bool \<times> h256 \<times> contents) res" where
  "follow_best 0 env iter bc new_proposer p acc = Panic OutOfFuel"
| "follow_best (Suc fuel) env iter bc new_proposer p acc =
     rbind (if new_proposer then refresh_refs env iter bc p acc else Ok acc) (\<lambda>acc1.
     rbind (best_proposer bc) (\<lambda>best.
       if p = best then Ok (new_proposer, p, acc1)
       else follow_best fuel env iter bc True best acc1))"

definition update_vote :: "blockchain \<Rightarrow> h256 \<Rightarrow> bool \<Rightarrow> nat \<Rightarrow> contents \<Rightarrow> contents res" where
  "update_vote bc p always voter_chain acc =
     (case acc of (cs, marks) \<Rightarrow>
      let chain_id = unat (FIRST_VOTER_INDEX + word_of_nat voter_chain) in
      rbind (rnth cs chain_id) (\<lambda>c.
        case c of
          Voter v \<Rightarrow>
            rbind (unvoted_proposer (voter_parent v) p bc) (\<lambda>vs.
              if always \<or> vs \<noteq> votes v
              then Ok (cs[chain_id := Voter (v\<lparr>votes := vs\<rparr>)], insert (word_of_nat chain_id) marks)
              else Ok (cs, marks))
        | _ \<Rightarrow> Panic UnreachableCode))"

definition update_votes :: "worker_env \<Rightarrow> blockchain \<Rightarrow> h256 \<Rightarrow> bool \<Rightarrow> bool \<Rightarrow> contents \<Rightarrow> contents res" where
  "update_votes env bc p new_proposer new_voter acc =
     (if new_proposer \<or> new_voter
      then rfold (update_vote bc p new_proposer) [0..<unat (voter_chains (we_config env))] acc
      else Ok acc)"

definition get_difficulty :: "codec \<Rightarrow> h256 \<Rightarrow> block_db \<Rightarrow> h256 res" where
  "get_difficulty cd h db =
     rbind (blockdb_get cd h db) (\<lambda>b. Ok (case b of Some b \<Rightarrow> difficulty (header b) | None \<Rightarrow> DEFAULT_DIFFICULTY))"

definition update_tree :: "(bytes \<Rightarrow> h256) \<Rightarrow> bool \<Rightarrow> contents \<Rightarrow> merkle_tree \<Rightarrow> merkle_tree res" where
  "update_tree keccak new_proposer acc tree =
     (case acc of (cs, marks) \<Rightarrow>
      if new_proposer then content_tree keccak cs
      else rfold (\<lambda>chain_id tree. rbind (rnth cs (unat chain_id)) (\<lambda>c. update_content keccak (unat chain_id) c tree))
             (sorted_list_of_set marks) tree)"

definition update_context ::
  "worker_env \<Rightarrow> ((h256 \<times> nat) list \<Rightarrow> (h256 \<times> nat) list) \<Rightarrow> updates \<Rightarrow> node \<Rightarrow> miner \<Rightarrow> miner res" where
  "update_context env iter u n m =
     (let bc = node_chain n in
      rbind (rfold (update_voter_parent bc) (sorted_list_of_set (new_voter_block u)) (m_contents m, {})) (\<lambda>acc1.
      rbind (if new_transaction_block u then update_transactions env (node_pool n) acc1 else Ok acc1) (\<lambda>acc2.
      rbind (if new_transaction_block u \<and> \<not> new_proposer_block u then append_transaction_refs env iter bc acc2 else Ok acc2) (\<lambda>acc3.
      rbind (if new_proposer_block u then best_proposer bc else Ok (parent (m_header m))) (\<lambda>p.
      rbind (follow_best 2 env iter bc (new_proposer_block u) p acc3) (\<lambda>(new_proposer, p1, acc4).
      rbind (update_votes env bc p1 new_proposer (new_voter_block u \<noteq> {}) acc4) (\<lambda>acc5.
      rbind (get_difficulty (we_codec env) p1 (node_db n)) (\<lambda>d.
      rbind (update_tree (we_keccak env) new_proposer acc5 (m_tree m)) (\<lambda>tree.
        Ok (m\<lparr>m_contents := fst acc5, m_tree := tree,
              m_header := (m_header m)\<lparr>parent := p1, difficulty := d, content_merkle_root := merkle_root tree\<rparr>\<rparr>))))))))))"

section \<open>Mining\<close>

definition produce_block :: "worker_env \<Rightarrow> miner \<Rightarrow> h256 \<Rightarrow> block res" where
  "produce_block env m hh =
     rbind (sortition_hash (we_config env) hh (difficulty (m_header m))) (\<lambda>sid.
     rbind (unwrap sid) (\<lambda>sortition_id.
     rbind (merkle_proof (m_tree m) (unat sortition_id)) (\<lambda>pf.
     rbind (rnth (m_contents m) (unat sortition_id)) (\<lambda>c.
       Ok (block_from_header (m_header m) c pf)))))"

text \<open>The random nonce, the time and the choice of the lazy annotation are arguments.\<close>

definition try_header :: "u32 \<Rightarrow> nat \<Rightarrow> bool \<Rightarrow> miner \<Rightarrow> miner" where
  "try_header rnd now lazy m =
     m\<lparr>m_header := (m_header m)\<lparr>nonce := rnd, timestamp := now,
         extra_content := (case m_state m of
             Run _ True prob \<Rightarrow> if lazy then LAZY_ANNOTATION else replicate 32 0
           | _ \<Rightarrow> extra_content (m_header m))\<rparr>\<rparr>"

definition publish_block :: "worker_env \<Rightarrow> h256 \<Rightarrow> block \<Rightarrow> node \<Rightarrow> (effect list \<times> node) res" where
  "publish_block env hh b n =
     (let n1 = record_perf (record_mine_block (we_header_size env) b) n;
          n2 = n1\<lparr>node_db := snd (blockdb_insert (we_codec env) (we_keccak env) (we_ser env) b (node_db n1))\<rparr>
      in rbind (new_validated_block env b n2) (\<lambda>n3.
           Ok ([Broadcast (NewBlockHashes [hh]), Signal (update_signal b)], n3)))"

definition mine :: "worker_env \<Rightarrow> miner \<times> node \<Rightarrow> (effect list \<times> miner \<times> node) res" where
  "mine env mn =
     (case mn of (m, n) \<Rightarrow>
      let hash = header_hash (we_keccak env) (we_ser env) (m_header m) in
      if hash < difficulty (m_header m) then
        rbind (produce_block env m hash) (\<lambda>b.
        rbind (publish_block env hash b n) (\<lambda>(es, n1).
          Ok (es, (if m_state m = Step then m\<lparr>m_state := Paused\<rparr> else m), n1)))
      else Ok ([], m, n))"

definition miner_round ::
  "worker_env \<Rightarrow> ((h256 \<times> nat) list \<Rightarrow> (h256 \<times> nat) list) \<Rightarrow> control_signal option \<Rightarrow> context_update_signal list \<Rightarrow>
   u32 \<Rightarrow> nat \<Rightarrow> bool \<Rightarrow> miner \<times> node \<Rightarrow> (effect list \<times> miner \<times> node) res" where
  "miner_round env iter signal sigs rnd now lazy mn =
     (case mn of (m, n) \<Rightarrow>
      let (m1, go) = miner_poll signal m in
      if \<not> go then Ok ([], m1, n)
      else rbind (update_context env iter (collect_signals sigs) n m1) (\<lambda>m2.
             mine env (try_header rnd now lazy m2, n)))"

end
