(* ===== verification/Prism_Growth.thy ===== *)
theory Prism_Growth
  imports Prism_Worker
begin

text \<open>
  How the block graph of a node grows: missing references, the insertion of one block and of many, the
  transaction blocks on offer, and that the verdict of validation on a block is final. The performance
  counters do not matter to any of this.
\<close>

section \<open>Missing references\<close>

definition missing_refs :: "block \<Rightarrow> blockchain \<Rightarrow> h256 set" where
  "missing_refs b bc = (case check_data_availability b bc of MissingReferences r \<Rightarrow> set r | _ \<Rightarrow> {})"

lemma missing_refs_iff:
  "x \<in> missing_refs b bc \<longleftrightarrow> x = parent (header b) \<and> \<not> contains_proposer x bc \<or>
     (case content b of
        Proposer c \<Rightarrow> x \<in> set (transaction_refs c) \<and> \<not> contains_transaction x bc \<or> x \<in> set (proposer_refs c) \<and> \<not> contains_proposer x bc
      | Voter c \<Rightarrow> x = voter_parent c \<and> \<not> contains_voter x bc \<or> x \<in> set (votes c) \<and> \<not> contains_proposer x bc
      | Transaction _ \<Rightarrow> False)"
  by (auto simp: missing_refs_def check_data_availability_def Let_def proposer_missing_references_def voter_missing_references_def
      check_proposer_block_exists_def check_voter_block_exists_def check_transaction_block_exists_def
      filter_empty_conv split: content.splits if_splits)

lemma availability_cases:
  obtains "check_data_availability b bc = Pass" "missing_refs b bc = {}"
  | r where "check_data_availability b bc = MissingReferences r" "r \<noteq> []" "missing_refs b bc = set r"
  by (cases "check_data_availability b bc = Pass")
    (auto simp: missing_refs_def check_data_availability_def Let_def split: if_splits)

text \<open>A graph grown by the block with one hash.\<close>

definition adds :: "h256 \<Rightarrow> blockchain \<Rightarrow> blockchain \<Rightarrow> bool" where
  "adds h bc bc' \<longleftrightarrow> (\<forall>x. x \<noteq> h \<longrightarrow> proposer_node_level_cf bc' x = proposer_node_level_cf bc x \<and>
     voter_node_level_cf bc' x = voter_node_level_cf bc x \<and> parent_neighbor_cf bc' x = parent_neighbor_cf bc x \<and>
     voter_node_voted_level_cf bc' x = voter_node_voted_level_cf bc x \<and> voter_node_chain_cf bc' x = voter_node_chain_cf bc x) \<and>
     num_chains bc' = num_chains bc"

lemma adds_contains:
  assumes "adds h bc bc'" and "x \<noteq> h"
  shows "contains_proposer x bc' = contains_proposer x bc" "contains_voter x bc' = contains_voter x bc"
    "contains_transaction x bc' = contains_transaction x bc" "fresh bc' x = fresh bc x"
  using assms by (auto simp: adds_def contains_proposer_def contains_voter_def contains_transaction_def fresh_def)

lemma missing_refs_cong:
  assumes "contains_proposer x bc' = contains_proposer x bc" "contains_voter x bc' = contains_voter x bc"
    "contains_transaction x bc' = contains_transaction x bc"
  shows "x \<in> missing_refs b bc' \<longleftrightarrow> x \<in> missing_refs b bc"
  unfolding missing_refs_iff by (cases "content b") (simp_all add: assms)

lemma missing_refs_adds: "adds h bc bc' \<Longrightarrow> D \<subseteq> missing_refs b bc \<Longrightarrow> D - {h} \<subseteq> missing_refs b bc'"
proof
  fix x
  assume a: "adds h bc bc'" "D \<subseteq> missing_refs b bc" "x \<in> D - {h}"
  then have x: "x \<in> missing_refs b bc" "x \<noteq> h" by blast+
  show "x \<in> missing_refs b bc'" using x(1) missing_refs_cong [OF adds_contains(1-3) [OF a(1) x(2)]] by simp
qed

lemma insert_block_adds:
  assumes inv: "chain_inv bc" and new: "fresh bc (block_hash keccak ser b)" and valid: "valid_content bc (header b) (content b)"
    and ins: "insert_block keccak ser b bc = Ok bc'"
  shows "adds (block_hash keccak ser b) bc bc'"
proof (cases "content b")
  case (Transaction c)
  then show ?thesis using ins by (auto simp: insert_block_def Let_def insert_transaction_def adds_def num_chains_def)
next
  case (Proposer c)
  then show ?thesis using insert_proposer_inv [OF inv new, of "header b" c] valid ins by (auto simp: insert_block_def Let_def adds_def)
next
  case (Voter c)
  then show ?thesis using insert_voter_inv [OF inv new, of "header b" c] valid ins by (auto simp: insert_block_def Let_def adds_def)
qed

text \<open>A graph that has grown by any blocks.\<close>

definition graph_le :: "blockchain \<Rightarrow> blockchain \<Rightarrow> bool" where
  "graph_le bc bc' \<longleftrightarrow> map_le (proposer_node_level_cf bc) (proposer_node_level_cf bc') \<and>
     map_le (voter_node_level_cf bc) (voter_node_level_cf bc') \<and> map_le (parent_neighbor_cf bc) (parent_neighbor_cf bc') \<and>
     map_le (voter_node_voted_level_cf bc) (voter_node_voted_level_cf bc') \<and>
     map_le (voter_node_chain_cf bc) (voter_node_chain_cf bc') \<and> num_chains bc' = num_chains bc"

lemma graph_le_refl [simp]: "graph_le bc bc" "graph_le bc (bc'\<lparr>perf := p\<rparr>) = graph_le bc bc'" "graph_le (bc\<lparr>perf := p\<rparr>) bc' = graph_le bc bc'"
  by (simp_all add: graph_le_def num_chains_def)

lemma graph_le_trans: "graph_le bc bc' \<Longrightarrow> graph_le bc' bc'' \<Longrightarrow> graph_le bc bc''"
  unfolding graph_le_def using map_le_trans by metis

lemma graph_leD:
  assumes "graph_le bc bc'"
  shows "proposer_node_level_cf bc x = Some l \<Longrightarrow> proposer_node_level_cf bc' x = Some l"
    "voter_node_level_cf bc x = Some l \<Longrightarrow> voter_node_level_cf bc' x = Some l"
    "parent_neighbor_cf bc x = Some p \<Longrightarrow> parent_neighbor_cf bc' x = Some p"
    "voter_node_voted_level_cf bc x = Some l \<Longrightarrow> voter_node_voted_level_cf bc' x = Some l"
    "voter_node_chain_cf bc x = Some i \<Longrightarrow> voter_node_chain_cf bc' x = Some i"
    "num_chains bc' = num_chains bc"
  using assms unfolding graph_le_def map_le_def by (metis domI)+

lemma graph_le_fresh: "graph_le bc bc' \<Longrightarrow> fresh bc' x \<Longrightarrow> fresh bc x"
  unfolding fresh_def using graph_leD(1-3) [of bc bc' x] by (metis not_Some_eq)

lemma map_le_except: "f h = None \<Longrightarrow> (\<And>x. x \<noteq> h \<Longrightarrow> g x = f x) \<Longrightarrow> map_le f g"
  unfolding map_le_def by (metis domIff)

lemma adds_le:
  assumes "adds h bc bc'" and "fresh bc h" and "voter_tree_inv bc"
  shows "graph_le bc bc'"
proof -
  have "voter_node_voted_level_cf bc h = None" "voter_node_chain_cf bc h = None"
    using assms(2) voter_tree_invD(1,2) [OF assms(3)] unfolding fresh_def by (metis domIff)+
  then show ?thesis using assms(1,2) unfolding graph_le_def adds_def fresh_def
    by (intro conjI map_le_except [of _ h]) simp_all
qed

text \<open>The blocks offered to the miner as transaction references and those referred to are in the graph.\<close>

definition transactions_inv :: "blockchain \<Rightarrow> bool" where
  "transactions_inv bc \<longleftrightarrow> fst ` set (unreferred_transactions bc) \<subseteq> dom (parent_neighbor_cf bc) \<and>
     (\<forall>h rs. transaction_ref_neighbor_cf bc h = Some rs \<longrightarrow> set rs \<subseteq> dom (parent_neighbor_cf bc))"

lemma set_fold_delete: "set (fold AList.delete ks al) \<subseteq> set al"
proof (induction ks arbitrary: al)
  case (Cons k ks)
  have "set (AList.delete k al) \<subseteq> set al" by (auto simp: AList.delete_eq)
  with Cons [of "AList.delete k al"] show ?case by auto
qed simp

lemma transactions_invI:
  assumes "transactions_inv bc" and "fst ` set (unreferred_transactions bc') \<subseteq> dom (parent_neighbor_cf bc')"
    and "dom (parent_neighbor_cf bc) \<subseteq> dom (parent_neighbor_cf bc')"
    and "\<And>h rs. transaction_ref_neighbor_cf bc' h = Some rs \<Longrightarrow>
      transaction_ref_neighbor_cf bc h = Some rs \<or> set rs \<subseteq> dom (parent_neighbor_cf bc)"
  shows "transactions_inv bc'"
  unfolding transactions_inv_def
proof (intro conjI allI impI)
  fix h rs
  assume "transaction_ref_neighbor_cf bc' h = Some rs"
  then have "set rs \<subseteq> dom (parent_neighbor_cf bc)" using assms(1,4) unfolding transactions_inv_def by blast
  then show "set rs \<subseteq> dom (parent_neighbor_cf bc')" using assms(3) by blast
qed (rule assms(2))

lemma insert_block_refs:
  assumes inv: "chain_inv bc" and new: "fresh bc (block_hash keccak ser b)"
    and valid: "valid_content bc (header b) (content b)" and refs: "check_data_availability b bc = Pass"
    and ins: "insert_block keccak ser b bc = Ok bc'"
  shows "parent_neighbor_cf bc' = (parent_neighbor_cf bc)(block_hash keccak ser b \<mapsto> parent (header b)) \<and>
    fst ` set (unreferred_transactions bc') \<subseteq> insert (block_hash keccak ser b) (fst ` set (unreferred_transactions bc)) \<and>
    (\<forall>h rs. transaction_ref_neighbor_cf bc' h = Some rs \<longrightarrow>
      transaction_ref_neighbor_cf bc h = Some rs \<or> set rs \<subseteq> dom (parent_neighbor_cf bc))"
proof (cases "content b")
  case (Transaction c)
  have "bc' = insert_transaction (block_hash keccak ser b) (header b) bc" using ins Transaction by (simp add: insert_block_def Let_def)
  then show ?thesis by (simp add: insert_transaction_def dom_update)
next
  case (Voter c)
  then show ?thesis
    using insert_voter_inv [OF inv new, of "header b" c] valid ins by (auto simp: insert_block_def Let_def with_voter_def)
next
  case (Proposer c)
  have eq: "unreferred_transactions bc' = fold AList.delete (transaction_refs c) (unreferred_transactions bc) \<and>
      parent_neighbor_cf bc' = (parent_neighbor_cf bc)(block_hash keccak ser b \<mapsto> parent (header b)) \<and>
      transaction_ref_neighbor_cf bc' = (transaction_ref_neighbor_cf bc)(block_hash keccak ser b \<mapsto> transaction_refs c)"
  proof (cases "proposer_node_level_cf bc (parent (header b))")
    case None
    then show ?thesis using ins Proposer by (simp add: insert_block_def insert_proposer_def Let_def)
  next
    case (Some l)
    then show ?thesis using ins [symmetric] Proposer
      by (cases "proposer_best_level bc < l + 1") (simp_all add: insert_block_def insert_proposer_def Let_def)
  qed
  moreover have "set (transaction_refs c) \<subseteq> dom (parent_neighbor_cf bc)"
    using refs Proposer by (auto simp: availability_Pass contains_transaction_def)
  moreover have "fst ` set (fold AList.delete (transaction_refs c) (unreferred_transactions bc)) \<subseteq> fst ` set (unreferred_transactions bc)"
    by (rule image_mono [OF set_fold_delete])
  ultimately show ?thesis by auto
qed

lemma insert_block_transactions:
  assumes tx: "transactions_inv bc" and "chain_inv bc" and "fresh bc (block_hash keccak ser b)"
    and "valid_content bc (header b) (content b)" and "check_data_availability b bc = Pass" and "insert_block keccak ser b bc = Ok bc'"
  shows "transactions_inv bc'"
proof -
  note pn = insert_block_refs [OF assms(2-6)]
  have old: "fst ` set (unreferred_transactions bc) \<subseteq> dom (parent_neighbor_cf bc)" using tx by (simp add: transactions_inv_def)
  have dom: "dom (parent_neighbor_cf bc') = insert (block_hash keccak ser b) (dom (parent_neighbor_cf bc))" using pn by simp
  have "fst ` set (unreferred_transactions bc') \<subseteq> dom (parent_neighbor_cf bc')" using pn old unfolding dom by blast
  then show ?thesis by (rule transactions_invI [OF tx]) (use pn dom in blast)+
qed

section \<open>Rejected blocks\<close>

text \<open>The verdict on a block whose references are available does not change when the graph grows.\<close>

lemma graph_le_contains:
  assumes "graph_le bc bc'"
  shows "contains_proposer x bc \<Longrightarrow> contains_proposer x bc'" "contains_voter x bc \<Longrightarrow> contains_voter x bc'"
    "contains_transaction x bc \<Longrightarrow> contains_transaction x bc'"
  using graph_leD(1-3) [OF assms, of x] unfolding contains_proposer_def contains_voter_def contains_transaction_def
  by (auto split: option.splits)

lemma graph_le_available: "graph_le bc bc' \<Longrightarrow> check_data_availability b bc = Pass \<Longrightarrow> check_data_availability b bc' = Pass"
  using graph_le_contains [of bc bc'] unfolding availability_Pass by (cases "content b") auto

lemma graph_le_level: "graph_le bc bc' \<Longrightarrow> contains_proposer h bc \<Longrightarrow> proposer_level h bc' = proposer_level h bc"
  using graph_leD(1) [of bc bc' h] by (auto simp: contains_proposer_def proposer_level_def split: option.splits)

lemma refs_within_le:
  "graph_le bc bc' \<Longrightarrow> \<forall>h \<in> set hs. contains_proposer h bc \<Longrightarrow> refs_within l hs bc' = refs_within l hs bc"
  by (induction hs) (simp_all add: graph_le_level cong: if_cong)

lemma levels_match_le:
  "graph_le bc bc' \<Longrightarrow> \<forall>h \<in> set hs. contains_proposer h bc \<Longrightarrow> levels_match l hs bc' = levels_match l hs bc"
  by (induction hs arbitrary: l) (simp_all add: graph_le_level cong: if_cong)

lemma semantic_le:
  assumes le: "graph_le bc bc'" and tree: "voter_tree_inv bc" and av: "check_data_availability b bc = Pass"
  shows "check_content_semantic cr b bc' = check_content_semantic cr b bc"
proof -
  have par: "contains_proposer (parent (header b)) bc" using av by (simp add: availability_Pass)
  show ?thesis
  proof (cases "content b")
    case (Proposer c)
    then have "\<forall>h \<in> set (proposer_refs c). contains_proposer h bc" using av by (simp add: availability_Pass)
    then show ?thesis using Proposer refs_within_le [OF le] graph_le_level [OF le par]
      by (simp add: check_content_semantic_def check_ref_proposer_level_def)
  next
    case (Voter c)
    then have v: "\<forall>h \<in> set (votes c). contains_proposer h bc" "contains_voter (voter_parent c) bc" using av by (simp_all add: availability_Pass)
    then have "voter_parent c \<in> dom (voter_node_level_cf bc)" by (auto simp: contains_voter_def split: option.splits)
    then obtain i s where i: "voter_node_chain_cf bc (voter_parent c) = Some i" "voter_node_voted_level_cf bc (voter_parent c) = Some s"
      using voter_tree_invD(1,2) [OF tree] by blast
    show ?thesis using Voter levels_match_le [OF le v(1)] graph_le_level [OF le par] i graph_leD(4,5) [OF le]
      by (simp add: check_content_semantic_def check_chain_number_def check_levels_voted_def voter_chain_number_def deepest_voted_level_def
          cong: if_cong)
  qed (simp add: check_content_semantic_def)
qed

definition rejected :: "worker_env \<Rightarrow> blockchain \<Rightarrow> block \<Rightarrow> bool" where
  "rejected env bc b \<longleftrightarrow> check_data_availability b bc = Pass \<and>
     \<not> (check_sortition_proof (we_keccak env) (we_ser env) b (we_config env) = Ok Pass \<and>
        check_content_semantic (we_crypto env) b bc = Ok Pass)"

lemma rejected_le: "graph_le bc bc' \<Longrightarrow> voter_tree_inv bc \<Longrightarrow> rejected env bc b \<Longrightarrow> rejected env bc' b"
  using semantic_le [of bc bc' b "we_crypto env"] graph_le_available [of bc bc' b] unfolding rejected_def by simp

section \<open>Performance counters\<close>

text \<open>The counters of the main chains are those that the invariant speaks of.\<close>

definition keeps_lengths :: "(counter \<Rightarrow> counter) \<Rightarrow> bool" where
  "keeps_lengths f \<longleftrightarrow> (\<forall>c. proposer_main_chain_length (f c) = proposer_main_chain_length c \<and>
     voter_main_chain_length_sum (f c) = voter_main_chain_length_sum c)"

lemma keeps_lengths_record [simp]:
  "keeps_lengths (record_process_message k)" "keeps_lengths (record_insert_block_db_time k)"
  "keeps_lengths (record_process_block hs b)" "keeps_lengths (record_receive_block t b)"
  "keeps_lengths (record_mine_block hs b)"
  by (auto simp: keeps_lengths_def record_process_message_def record_insert_block_db_time_def record_process_block_def
      record_receive_block_def record_mine_block_def Let_def split: content.splits)

lemma full_inv_perf:
  assumes "keeps_lengths f" and "full_inv bc"
  shows "full_inv (bc\<lparr>perf := f (perf bc)\<rparr>)"
proof -
  let ?bc = "bc\<lparr>perf := f (perf bc)\<rparr>"
  have "chain_inv ?bc"
    using assms by (simp add: full_inv_def chain_inv_def proposer_inv_def proposer_levels_inv_def proposer_refs_inv_def unreferred_inv_def
        referred_def voter_inv_def voter_tree_inv_def voter_best_inv_def extends_def perf_inv_def num_chains_def keeps_lengths_def)
  moreover have "tip_votes ?bc v = tip_votes bc v" for v by (rule tip_votes_cong) simp_all
  then have "votes_inv ?bc" using assms(2) by (simp add: full_inv_def votes_inv_def num_chains_def)
  moreover have "ledger_inv ?bc" using assms(2) by (simp add: full_inv_def ledger_inv_def ledger_at_def leaders_ok_def)
  ultimately show ?thesis by (simp add: full_inv_def)
qed

lemma perf_graph [simp]:
  "fresh (bc\<lparr>perf := p\<rparr>) h = fresh bc h" "missing_refs b (bc\<lparr>perf := p\<rparr>) = missing_refs b bc"
  "valid_content (bc\<lparr>perf := p\<rparr>) hdr c = valid_content bc hdr c"
proof -
  show "fresh (bc\<lparr>perf := p\<rparr>) h = fresh bc h" by (simp add: fresh_def)
  show "valid_content (bc\<lparr>perf := p\<rparr>) hdr c = valid_content bc hdr c"
    by (cases c) (simp_all add: valid_proposer_def valid_voter_def)
  show "missing_refs b (bc\<lparr>perf := p\<rparr>) = missing_refs b bc"
    by (intro set_eqI missing_refs_cong) (simp_all add: contains_proposer_def contains_voter_def contains_transaction_def)
qed

lemma availability_perf: "check_data_availability b (bc\<lparr>perf := p\<rparr>) = check_data_availability b bc"
  by (simp add: check_data_availability_def proposer_missing_references_def voter_missing_references_def contains_proposer_def
      check_proposer_block_exists_def check_voter_block_exists_def check_transaction_block_exists_def contains_voter_def
      contains_transaction_def cong: content.case_cong)

lemma rejected_perf: "rejected env (bc\<lparr>perf := p\<rparr>) b = rejected env bc b"
proof -
  have "refs_within l hs (bc\<lparr>perf := p\<rparr>) = refs_within l hs bc" for l hs
    by (induction hs) (simp_all add: proposer_level_def cong: if_cong)
  moreover have "levels_match l hs (bc\<lparr>perf := p\<rparr>) = levels_match l hs bc" for l hs
    by (induction hs arbitrary: l) (simp_all add: proposer_level_def cong: if_cong)
  ultimately show ?thesis
    by (cases "content b") (simp_all add: rejected_def availability_perf check_content_semantic_def check_ref_proposer_level_def
        check_chain_number_def check_levels_voted_def proposer_level_def voter_chain_number_def deepest_voted_level_def cong: if_cong)
qed

end
