(* ===== verification/Prism_Worker_Inv.thy ===== *)
theory Prism_Worker_Inv
  imports Prism_Growth
begin

text \<open>
  The invariant of a node between messages, and that the handling of received blocks keeps it: every
  block of the graph is in the database, a buffered block is in the database and not in the graph and
  waits for references that are missing, and the blocks being processed are neither in the graph nor in
  the buffer.
\<close>

section \<open>The invariant\<close>

definition env_ok :: "worker_env \<Rightarrow> bool" where
  "env_ok env \<longleftrightarrow> wf_widths (we_config env) \<and> set_iterator (we_iter env)"

text \<open>A received block that is not in the graph.\<close>

definition pending_ok :: "worker_env \<Rightarrow> node \<Rightarrow> block \<Rightarrow> bool" where
  "pending_ok env n b \<longleftrightarrow> stored (we_codec env) (node_db n) (env_hash env b) = Some b \<and> fresh (node_chain n) (env_hash env b) \<and>
     check_pow_sortition_id (we_keccak env) (we_ser env) b (we_config env) = Ok Pass"

definition graph_ok :: "worker_env \<Rightarrow> blockchain \<Rightarrow> bool" where
  "graph_ok env bc \<longleftrightarrow> full_inv bc \<and> transactions_inv bc \<and> num_chains bc = unat (voter_chains (we_config env))"

text \<open>What the database holds decodes, and all but the genesis blocks are under their own hashes.\<close>

definition genesis_hashes :: "blockchain_config \<Rightarrow> h256 set" where
  "genesis_hashes c = insert (proposer_genesis c) (set (voter_genesis c))"

definition db_sound :: "worker_env \<Rightarrow> block_db \<Rightarrow> bool" where
  "db_sound env db \<longleftrightarrow> (\<forall>h raw. block_cf db h = Some raw \<longrightarrow>
     (\<exists>b. decode (we_codec env) raw = Some b \<and> (env_hash env b = h \<or> h \<in> genesis_hashes (we_config env))))"

definition node_inv :: "worker_env \<Rightarrow> node \<Rightarrow> bool" where
  "node_inv env n \<longleftrightarrow>
     graph_ok env (node_chain n) \<and> pool_inv (node_pool n) \<and> buf_inv (node_buffer n) \<and> db_inv (node_db n) \<and> recent_blocks n = {} \<and>
     db_sound env (node_db n) \<and>
     (\<forall>h. \<not> fresh (node_chain n) h \<longrightarrow> blockdb_contains h (node_db n)) \<and>
     (\<forall>h b D. waiting (node_buffer n) h = Some (b, D) \<longrightarrow>
        env_hash env b = h \<and> pending_ok env n b \<and> D \<subseteq> missing_refs b (node_chain n))"

text \<open>The blocks to be processed.\<close>

definition work_inv :: "worker_env \<Rightarrow> block list \<Rightarrow> node \<Rightarrow> bool" where
  "work_inv env bs n \<longleftrightarrow> distinct (map (env_hash env) bs) \<and>
     (\<forall>b \<in> set bs. pending_ok env n b \<and> waiting (node_buffer n) (env_hash env b) = None)"

text \<open>Every stored block has been dealt with, but for those still to be processed.\<close>

definition settled :: "worker_env \<Rightarrow> block list \<Rightarrow> node \<Rightarrow> bool" where
  "settled env bs n \<longleftrightarrow> (\<forall>h b. stored (we_codec env) (node_db n) h = Some b \<longrightarrow>
     h \<in> genesis_hashes (we_config env) \<or> \<not> fresh (node_chain n) h \<or> waiting (node_buffer n) h \<noteq> None \<or> b \<in> set bs \<or>
     rejected env (node_chain n) b)"

lemma settledE:
  assumes "settled env bs n" and "stored (we_codec env) (node_db n) h = Some b"
  obtains "h \<in> genesis_hashes (we_config env)" | "\<not> fresh (node_chain n) h" | "waiting (node_buffer n) h \<noteq> None" | "b \<in> set bs"
  | "rejected env (node_chain n) b"
  using assms unfolding settled_def by blast

lemma stored_contains: "stored cd db h = Some b \<Longrightarrow> blockdb_contains h db"
  by (simp add: stored_def blockdb_contains_def split: option.splits)

lemma pending_contains: "pending_ok env n b \<Longrightarrow> blockdb_contains (env_hash env b) (node_db n)"
  using stored_contains by (auto simp: pending_ok_def)

lemma stored_hash:
  "db_sound env db \<Longrightarrow> stored (we_codec env) db h = Some b \<Longrightarrow> env_hash env b = h \<or> h \<in> genesis_hashes (we_config env)"
  unfolding db_sound_def stored_def by (cases "block_cf db h") (simp, metis option.sel option.simps(5))

text \<open>The signals to the miner name voter chains that exist.\<close>

definition signals_ok :: "worker_env \<Rightarrow> context_update_signal list \<Rightarrow> bool" where
  "signals_ok env sigs \<longleftrightarrow> (\<forall>k. NewVoterBlock k \<in> set sigs \<longrightarrow> k < voter_chains (we_config env))"

lemma node_invD:
  assumes "node_inv env n"
  shows "full_inv (node_chain n)" "pool_inv (node_pool n)" "buf_inv (node_buffer n)" "db_inv (node_db n)" "recent_blocks n = {}"
    "\<not> fresh (node_chain n) h \<Longrightarrow> blockdb_contains h (node_db n)"
    "waiting (node_buffer n) h = Some (b, D) \<Longrightarrow> env_hash env b = h"
    "waiting (node_buffer n) h = Some (b, D) \<Longrightarrow> pending_ok env n b"
    "waiting (node_buffer n) h = Some (b, D) \<Longrightarrow> D \<subseteq> missing_refs b (node_chain n)"
    "graph_ok env (node_chain n)" "db_sound env (node_db n)"
  using assms unfolding node_inv_def graph_ok_def by blast+

lemma node_invI:
  assumes "graph_ok env (node_chain n)" "pool_inv (node_pool n)" "buf_inv (node_buffer n)" "db_inv (node_db n)" "recent_blocks n = {}"
    and "db_sound env (node_db n)"
    and "\<And>h. \<not> fresh (node_chain n) h \<Longrightarrow> blockdb_contains h (node_db n)"
    and "\<And>h b D. waiting (node_buffer n) h = Some (b, D) \<Longrightarrow>
       env_hash env b = h \<and> pending_ok env n b \<and> D \<subseteq> missing_refs b (node_chain n)"
  shows "node_inv env n"
  using assms unfolding node_inv_def by blast

lemma record_perf_simps [simp]:
  "node_db (record_perf f n) = node_db n" "node_pool (record_perf f n) = node_pool n"
  "node_buffer (record_perf f n) = node_buffer n" "recent_blocks (record_perf f n) = recent_blocks n"
  "requested_blocks (record_perf f n) = requested_blocks n"
  "node_chain (record_perf f n) = (node_chain n)\<lparr>perf := f (perf (node_chain n))\<rparr>"
  by (simp_all add: record_perf_def)

lemma record_perf_inv:
  assumes "keeps_lengths f"
  shows "pending_ok env (record_perf f n) b = pending_ok env n b" "work_inv env bs (record_perf f n) = work_inv env bs n"
    "settled env bs (record_perf f n) = settled env bs n" "node_inv env n \<Longrightarrow> node_inv env (record_perf f n)"
proof -
  show p: "pending_ok env (record_perf f n) b = pending_ok env n b" for b by (simp add: pending_ok_def)
  show "work_inv env bs (record_perf f n) = work_inv env bs n" by (simp add: work_inv_def p)
  show "settled env bs (record_perf f n) = settled env bs n" by (simp add: settled_def rejected_perf)
  show "node_inv env (record_perf f n)" if "node_inv env n"
    using that full_inv_perf [OF assms, of "node_chain n"]
    by (simp add: node_inv_def graph_ok_def transactions_inv_def num_chains_def p)
qed

section \<open>Processing one block\<close>

lemma waiting_nonempty: "buf_inv buf \<Longrightarrow> waiting buf m = Some (b, D) \<Longrightarrow> D \<noteq> {}"
  using buf_invD(3) waiting_Some by blast

lemma work_inv_snoc:
  assumes "work_inv env (bs @ [b]) n"
  shows "work_inv env bs n" "pending_ok env n b" "waiting (node_buffer n) (env_hash env b) = None"
    "b' \<in> set bs \<Longrightarrow> env_hash env b' \<noteq> env_hash env b"
proof -
  have "env_hash env b \<notin> env_hash env ` set bs" using assms by (simp add: work_inv_def)
  then show "b' \<in> set bs \<Longrightarrow> env_hash env b' \<noteq> env_hash env b" by (metis imageI)
qed (use assms in \<open>simp_all add: work_inv_def\<close>)

text \<open>Processing blocks leaves the database and the ledger, and no block leaves the graph.\<close>

definition later :: "node \<Rightarrow> node \<Rightarrow> bool" where
  "later n n' \<longleftrightarrow> node_db n' = node_db n \<and> ledger (node_chain n') = ledger (node_chain n) \<and>
     graph_le (node_chain n) (node_chain n')"

lemma later_refl: "later n n" and later_trans: "later n n' \<Longrightarrow> later n' n'' \<Longrightarrow> later n n''"
  using graph_le_trans by (auto simp: later_def)

lemma later_perf: "later n (record_perf f n)"
  by (simp add: later_def ledger_def stored_ledger_def)

lemma later_buffer: "later n (n'\<lparr>node_buffer := buf\<rparr>) = later n n'"
  by (simp add: later_def)

definition load :: "work \<Rightarrow> node \<Rightarrow> nat" where
  "load w n = card (dom (waiting (node_buffer n))) + length (to_process w)"

lemma process_missing:
  assumes inv: "node_inv env n" and work: "work_inv env (bs @ [b]) n" and r: "check_data_availability b (node_chain n) = MissingReferences r"
  shows "\<exists>n'. process_block env b (w\<lparr>to_process := bs\<rparr>, n) = Ok (w\<lparr>to_process := bs, to_request := to_request w @ r\<rparr>, n') \<and>
    node_inv env n' \<and> work_inv env bs n' \<and> later n n' \<and> (settled env (bs @ [b]) n \<longrightarrow> settled env bs n') \<and>
    load (w\<lparr>to_process := bs, to_request := to_request w @ r\<rparr>) n' = load (w\<lparr>to_process := bs @ [b]\<rparr>) n"
proof -
  let ?h = "env_hash env b"
  note wb = work_inv_snoc [OF work]
  have ne: "r \<noteq> []" and miss: "missing_refs b (node_chain n) = set r"
    using r availability_cases [of b "node_chain n"] by auto
  have "buf_blocks (node_buffer n) ?h = None" using wb(3) dom_waiting [OF node_invD(3) [OF inv]] by (metis domIff)
  then obtain buf where buf: "buffer_insert (we_keccak env) (we_ser env) b r (node_buffer n) = Ok buf" "buf_inv buf"
    "waiting buf = (waiting (node_buffer n))(?h \<mapsto> (b, set r))"
    using buffer_insert_inv [OF node_invD(3) [OF inv] _ ne] by blast
  let ?n = "n\<lparr>node_buffer := buf\<rparr>"
  have p: "pending_ok env ?n b' = pending_ok env n b'" for b' by (simp add: pending_ok_def)
  have "node_inv env ?n"
  proof (rule node_invI)
    fix h b' D
    assume "waiting (node_buffer ?n) h = Some (b', D)"
    then show "env_hash env b' = h \<and> pending_ok env ?n b' \<and> D \<subseteq> missing_refs b' (node_chain ?n)"
      using node_invD(7-9) [OF inv, of h b' D] wb(2) miss by (auto simp: p buf(3) split: if_splits)
  qed (use node_invD [OF inv] buf(2) in simp_all)
  moreover have "work_inv env bs ?n" using wb by (auto simp: work_inv_def p buf(3))
  moreover have "settled env bs ?n" if "settled env (bs @ [b]) n"
    unfolding settled_def
  proof (intro allI impI)
    fix h b'
    assume "stored (we_codec env) (node_db ?n) h = Some b'"
    then have h: "stored (we_codec env) (node_db n) h = Some b'" by simp
    from that h show "h \<in> genesis_hashes (we_config env) \<or> \<not> fresh (node_chain ?n) h \<or> waiting (node_buffer ?n) h \<noteq> None \<or> b' \<in> set bs \<or>
        rejected env (node_chain ?n) b'"
      by (cases rule: settledE) (use stored_hash [OF node_invD(11) [OF inv] h] in \<open>auto simp: buf(3)\<close>)
  qed
  moreover have "card (insert ?h (dom (waiting (node_buffer n)))) = card (dom (waiting (node_buffer n))) + 1"
    using wb(3) by (subst card_insert_disjoint) (auto simp: domIff)
  ultimately show ?thesis using r buf(1) by (simp add: process_block_def load_def buf(3) later_buffer later_refl)
qed

lemma new_validated_block_ok:
  assumes inv: "node_inv env n" and new: "fresh (node_chain n) (env_hash env b)"
    and valid: "valid_content (node_chain n) (header b) (content b)" and refs: "check_data_availability b (node_chain n) = Pass"
  shows "\<exists>n'. new_validated_block env b n = Ok n' \<and> graph_ok env (node_chain n') \<and> pool_inv (node_pool n') \<and>
    adds (env_hash env b) (node_chain n) (node_chain n') \<and> \<not> fresh (node_chain n') (env_hash env b) \<and> ledger (node_chain n') = ledger (node_chain n) \<and>
    node_db n' = node_db n \<and> node_buffer n' = node_buffer n \<and> recent_blocks n' = recent_blocks n \<and>
    requested_blocks n' = requested_blocks n"
proof -
  let ?bc = "(node_chain n)\<lparr>perf := record_process_block (we_header_size env) b (perf (node_chain n))\<rparr>"
  have full: "full_inv ?bc" using full_inv_perf node_invD(1) [OF inv] by simp
  obtain bc' where bc': "insert_block (we_keccak env) (we_ser env) b ?bc = Ok bc'" "full_inv bc'" "ledger bc' = ledger ?bc"
    using insert_block_full [OF full, of "we_keccak env" "we_ser env" b] new valid by auto
  have "adds (env_hash env b) ?bc bc'"
    using insert_block_adds [OF _ _ _ bc'(1)] full new valid by (simp add: full_inv_def)
  then have add: "adds (env_hash env b) (node_chain n) bc'" by (simp add: adds_def num_chains_def)
  have "transactions_inv bc'"
    using insert_block_transactions [OF _ _ _ _ _ bc'(1)] node_invD(10) [OF inv] full new valid refs
    by (simp add: graph_ok_def transactions_inv_def full_inv_def availability_perf)
  have fr: "\<not> fresh bc' (env_hash env b)"
    using insert_block_refs [OF _ _ _ _ bc'(1)] full new valid refs by (simp add: full_inv_def availability_perf fresh_def)
  from \<open>transactions_inv bc'\<close> have ok: "graph_ok env bc'" using bc'(2) add node_invD(10) [OF inv] by (simp add: graph_ok_def adds_def)
  have led: "ledger bc' = ledger (node_chain n)" using bc'(3) by (simp add: ledger_def stored_ledger_def)
  have "\<exists>p. (case content b of Transaction c \<Rightarrow> rfold (\<lambda>tx. remove_by_hash (tx_hash tx)) (transactions c) (node_pool n)
      | _ \<Rightarrow> Ok (node_pool n)) = Ok p \<and> pool_inv p"
  proof (cases "content b")
    case (Transaction c)
    have "rfold (\<lambda>tx. remove_by_hash (tx_hash tx)) txs q = rfold remove_by_hash (map tx_hash txs) q" for txs q
      by (induction txs arbitrary: q) (simp_all cong: rbind_cong)
    then show ?thesis using Transaction tx_pool.remove_all_abs [OF node_invD(2) [OF inv], of "map tx_hash (transactions c)"] by auto
  qed (use node_invD(2) [OF inv] in simp_all)
  then obtain p where "(case content b of Transaction c \<Rightarrow> rfold (\<lambda>tx. remove_by_hash (tx_hash tx)) (transactions c) (node_pool n)
      | _ \<Rightarrow> Ok (node_pool n)) = Ok p" "pool_inv p" by blast
  then show ?thesis using bc'(1) ok add led fr by (cases "content b") (simp_all add: new_validated_block_def Let_def)
qed

lemma sortition_proof_total:
  assumes "env_ok env" and "check_pow_sortition_id (we_keccak env) (we_ser env) b (we_config env) = Ok Pass"
  shows "is_ok (check_sortition_proof (we_keccak env) (we_ser env) b (we_config env))"
proof -
  obtain i where i: "sortition_hash (we_config env) (env_hash env b) (difficulty (header b)) = Ok (Some i)"
    using assms(2) by (auto simp: check_pow_sortition_id_def res_simps split: option.splits if_splits)
  obtain ch where ch: "content_hash (we_keccak env) (content b) = Ok ch" using content_hash_total by blast
  have "usize_safe (unat (voter_chains (we_config env) + FIRST_VOTER_INDEX))"
    using unat_lt2p [of "voter_chains (we_config env) + FIRST_VOTER_INDEX"] by (simp add: usize_safe_def)
  then obtain r where "verify (we_keccak env) (content_merkle_root (header b)) ch (sortition_proof b) (unat i)
      (unat (voter_chains (we_config env) + FIRST_VOTER_INDEX)) = Ok r"
    using verify_total by (metis is_ok_iff)
  then show ?thesis using i ch by (auto simp: check_sortition_proof_def Let_def is_ok_iff)
qed

lemma process_inserted:
  assumes env: "env_ok env" and inv: "node_inv env n" and work: "work_inv env (bs @ [b]) n"
    and valid: "valid_content (node_chain n) (header b) (content b)" and refs: "check_data_availability b (node_chain n) = Pass"
  shows "\<exists>n1 bs' buf. new_validated_block env b n = Ok n1 \<and>
    satisfy (we_iter env) (env_hash env b) (node_buffer n1) = Ok (bs', buf) \<and>
    node_inv env (n1\<lparr>node_buffer := buf\<rparr>) \<and> work_inv env (bs @ bs') (n1\<lparr>node_buffer := buf\<rparr>) \<and>
    card (dom (waiting buf)) + length bs' = card (dom (waiting (node_buffer n))) \<and> later n n1 \<and>
    (settled env (bs @ [b]) n \<longrightarrow> settled env (bs @ bs') (n1\<lparr>node_buffer := buf\<rparr>))"
proof -
  let ?h = "env_hash env b" and ?buf = "node_buffer n"
  note wb = work_inv_snoc [OF work]
  have fr: "fresh (node_chain n) ?h" using wb(2) by (simp add: pending_ok_def)
  obtain n1 where n1: "new_validated_block env b n = Ok n1" "graph_ok env (node_chain n1)" "pool_inv (node_pool n1)"
    "adds ?h (node_chain n) (node_chain n1)" "node_db n1 = node_db n" "node_buffer n1 = ?buf" "recent_blocks n1 = recent_blocks n"
    "ledger (node_chain n1) = ledger (node_chain n)" "\<not> fresh (node_chain n1) ?h"
    using new_validated_block_ok [OF inv fr valid refs] by blast
  obtain ns buf where buf: "satisfy (we_iter env) ?h ?buf = Ok (map (\<lambda>m. fst (the (waiting ?buf m))) ns, buf)" "buf_inv buf"
    "distinct ns" "set ns = {m. \<exists>b'. waiting ?buf m = Some (b', {?h})}"
    "\<forall>m. waiting buf m = (case waiting ?buf m of None \<Rightarrow> None | Some (b', D) \<Rightarrow> if D \<subseteq> {?h} then None else Some (b', D - {?h}))"
    using satisfy_inv [OF _ node_invD(3) [OF inv]] env unfolding env_ok_def by blast
  let ?bs = "map (\<lambda>m. fst (the (waiting ?buf m))) ns" and ?n = "n1\<lparr>node_buffer := buf\<rparr>"
  have pend: "pending_ok env ?n b'" if "pending_ok env n b'" "env_hash env b' \<noteq> ?h" for b'
    using that adds_contains(4) [OF n1(4)] by (simp add: pending_ok_def n1(5))
  have left: "\<exists>D0. waiting ?buf m = Some (b', D0) \<and> D = D0 - {?h} \<and> m \<noteq> ?h" if "waiting buf m = Some (b', D)" for m b' D
    using that buf(5) wb(3) by (auto split: option.splits if_splits)
  have "node_inv env ?n"
  proof (rule node_invI)
    fix m b' D
    assume "waiting (node_buffer ?n) m = Some (b', D)"
    then obtain D0 where D0: "waiting ?buf m = Some (b', D0)" "D = D0 - {?h}" "m \<noteq> ?h" using left [of m b' D] by auto
    show "env_hash env b' = m \<and> pending_ok env ?n b' \<and> D \<subseteq> missing_refs b' (node_chain ?n)"
      using node_invD(7-9) [OF inv D0(1)] D0(2,3) pend [of b'] missing_refs_adds [OF n1(4)] by simp
  next
    fix x
    assume "\<not> fresh (node_chain ?n) x"
    then show "blockdb_contains x (node_db ?n)"
      using wb(2) adds_contains(4) [OF n1(4), of x] node_invD(6) [OF inv, of x] by (cases "x = ?h") (simp_all add: n1(5) pending_contains)
  qed (use n1 buf(2) node_invD(4,5,11) [OF inv] in simp_all)
  moreover have "work_inv env (bs @ ?bs) ?n"
  proof -
    have res: "m \<noteq> ?h" "pending_ok env n (fst (the (waiting ?buf m)))" "env_hash env (fst (the (waiting ?buf m))) = m" "waiting buf m = None"
      if m: "m \<in> set ns" for m
    proof -
      obtain b' where b': "waiting ?buf m = Some (b', {?h})" using m buf(4) by auto
      show "m \<noteq> ?h" using b' wb(3) by auto
      show "pending_ok env n (fst (the (waiting ?buf m)))" "env_hash env (fst (the (waiting ?buf m))) = m"
        using node_invD(7,8) [OF inv b'] b' by simp_all
      show "waiting buf m = None" using spec [OF buf(5), of m] b' by simp
    qed
    have bs: "waiting ?buf (env_hash env b') = None" "pending_ok env n b'" if "b' \<in> set bs" for b'
      using wb(1) that by (simp_all add: work_inv_def)
    have hashes: "map (env_hash env) ?bs = ns" using res(3) by (simp add: map_idI)
    have "distinct (map (env_hash env) (bs @ ?bs))"
      using wb(1) buf(3,4) bs(1) unfolding map_append hashes by (auto simp: work_inv_def)
    moreover have "pending_ok env ?n b' \<and> waiting buf (env_hash env b') = None" if b': "b' \<in> set (bs @ ?bs)" for b'
    proof (cases "b' \<in> set bs")
      case True
      then show ?thesis using bs [OF True] pend [of b'] wb(4) spec [OF buf(5), of "env_hash env b'"] by simp
    next
      case False
      then obtain m where "m \<in> set ns" "b' = fst (the (waiting ?buf m))" using b' by auto
      then show ?thesis using res [of m] pend [of b'] by simp
    qed
    ultimately show ?thesis by (simp add: work_inv_def)
  qed
  moreover have "card (dom (waiting buf)) + length ?bs = card (dom (waiting ?buf))"
  proof -
    have "waiting buf m \<noteq> None \<longleftrightarrow> waiting ?buf m \<noteq> None \<and> m \<notin> set ns" for m
      using spec [OF buf(5), of m] buf(4) waiting_nonempty [OF node_invD(3) [OF inv], of m]
      by (auto simp: subset_singleton_iff split: option.splits if_splits)
    then have "dom (waiting buf) = dom (waiting ?buf) - set ns" unfolding dom_def by blast
    moreover have "set ns \<subseteq> dom (waiting ?buf)" using buf(4) by auto
    ultimately have "card (dom (waiting buf)) = card (dom (waiting ?buf)) - length ns" "length ns \<le> card (dom (waiting ?buf))"
      using buf(3) by (simp_all add: card_Diff_subset distinct_card [symmetric] card_mono)
    then show ?thesis by simp
  qed
  moreover have tree: "voter_tree_inv (node_chain n)"
    using node_invD(1) [OF inv] by (simp add: full_inv_def chain_inv_def voter_inv_def)
  then have le: "graph_le (node_chain n) (node_chain n1)" using adds_le [OF n1(4) fr] by simp
  then have "later n n1" using n1(5,8) by (simp add: later_def)
  moreover have "settled env (bs @ ?bs) ?n" if "settled env (bs @ [b]) n"
    unfolding settled_def
  proof (intro allI impI)
    fix h b'
    assume "stored (we_codec env) (node_db ?n) h = Some b'"
    then have h: "stored (we_codec env) (node_db n) h = Some b'" by (simp add: n1(5))
    from that h show "h \<in> genesis_hashes (we_config env) \<or> \<not> fresh (node_chain ?n) h \<or> waiting (node_buffer ?n) h \<noteq> None \<or>
        b' \<in> set (bs @ ?bs) \<or> rejected env (node_chain ?n) b'"
    proof (cases rule: settledE)
      case 3
      then obtain b0 D where D: "waiting ?buf h = Some (b0, D)" by auto
      then have "b0 = b'" using node_invD(7,8) [OF inv D] h by (simp add: pending_ok_def)
      show ?thesis
      proof (cases "D \<subseteq> {?h}")
        case True
        then have "D = {?h}" using waiting_nonempty [OF node_invD(3) [OF inv] D] by (simp add: subset_singleton_iff)
        then have "h \<in> set ns" using D buf(4) by auto
        then have "fst (the (waiting ?buf h)) \<in> set ?bs" by simp
        then show ?thesis using D \<open>b0 = b'\<close> by simp
      next
        case False
        then show ?thesis using spec [OF buf(5), of h] D by simp
      qed
    next
      case 4
      then show ?thesis using stored_hash [OF node_invD(11) [OF inv] h] n1(9) by auto
    next
      case 5
      then show ?thesis using rejected_le [OF le tree] by simp
    qed (use graph_le_fresh [OF le, of h] in auto)
  qed
  ultimately show ?thesis using n1(1) buf(1) n1(6) by auto
qed

lemma accepted_signal:
  assumes inv: "node_inv env n" and sem: "check_content_semantic (we_crypto env) b (node_chain n) = Ok Pass"
    and sigs: "signals_ok env sigs"
  shows "signals_ok env (sigs @ [update_signal b])"
proof (cases "content b")
  case (Voter c)
  have "voter_node_chain_cf (node_chain n) (voter_parent c) = Some (unat (chain_number c))"
    using sem Voter by (auto simp: check_content_semantic_def check_chain_number_def voter_chain_number_def res_simps split: if_splits)
  then have "unat (chain_number c) < num_chains (node_chain n)"
    using voter_tree_invD(8) node_invD(1) [OF inv] by (simp add: full_inv_def chain_inv_def voter_inv_def)
  then show ?thesis using sigs Voter node_invD(10) [OF inv]
    by (auto simp: signals_ok_def update_signal_def graph_ok_def word_less_nat_alt)
qed (use sigs in \<open>simp_all add: signals_ok_def update_signal_def\<close>)

lemma process_block_step:
  assumes env: "env_ok env" and inv: "node_inv env n" and work: "work_inv env (bs @ [b]) n"
  shows "\<exists>w' n'. process_block env b (w\<lparr>to_process := bs\<rparr>, n) = Ok (w', n') \<and> node_inv env n' \<and>
    work_inv env (to_process w') n' \<and> later n n' \<and> (settled env (bs @ [b]) n \<longrightarrow> settled env (to_process w') n') \<and>
    (signals_ok env (signals w) \<longrightarrow> signals_ok env (signals w')) \<and>
    (load w' n' < load (w\<lparr>to_process := bs @ [b]\<rparr>) n \<or>
     load w' n' = load (w\<lparr>to_process := bs @ [b]\<rparr>) n \<and> length (to_process w') < Suc (length bs))"
proof (cases rule: availability_cases [of b "node_chain n"])
  case (2 r)
  from process_missing [OF inv work 2(1), of w] show ?thesis by auto
next
  case 1
  note wb = work_inv_snoc [OF work]
  have pow: "check_pow_sortition_id (we_keccak env) (we_ser env) b (we_config env) = Ok Pass" using wb(2) by (simp add: pending_ok_def)
  obtain r1 where r1: "check_sortition_proof (we_keccak env) (we_ser env) b (we_config env) = Ok r1"
    using sortition_proof_total [OF env pow] by (auto simp: is_ok_iff)
  obtain r2 where r2: "check_content_semantic (we_crypto env) b (node_chain n) = Ok r2"
    using semantic_total [OF _ 1(1)] node_invD(1) [OF inv] by (metis full_inv_def is_ok_iff)
  show ?thesis
  proof (cases "r1 = Pass \<and> r2 = Pass")
    case False
    then have "rejected env (node_chain n) b" using 1(1) r1 r2 by (simp add: rejected_def)
    then have "settled env bs n" if "settled env (bs @ [b]) n" using that by (auto simp: settled_def)
    then show ?thesis using 1(1) r1 r2 inv wb(1) False by (auto simp: process_block_def load_def later_refl)
  next
    case True
    then have valid: "valid_content (node_chain n) (header b) (content b)" using semantic_valid [OF 1(1)] r2 by blast
    from process_inserted [OF env inv work valid 1(1)] obtain n1 bs' buf where
      ins: "new_validated_block env b n = Ok n1" "satisfy (we_iter env) (env_hash env b) (node_buffer n1) = Ok (bs', buf)"
      "node_inv env (n1\<lparr>node_buffer := buf\<rparr>)" "work_inv env (bs @ bs') (n1\<lparr>node_buffer := buf\<rparr>)"
      "card (dom (waiting buf)) + length bs' = card (dom (waiting (node_buffer n)))" "later n n1"
      "settled env (bs @ [b]) n \<longrightarrow> settled env (bs @ bs') (n1\<lparr>node_buffer := buf\<rparr>)" by blast
    then show ?thesis using 1(1) r1 r2 True accepted_signal [OF inv, of b "signals w"]
      by (simp add: process_block_def load_def later_buffer)
  qed
qed

section \<open>The loop returns\<close>

lemma process_loop_returns:
  assumes env: "env_ok env" and "node_inv env n" and "work_inv env (to_process w) n"
  shows "\<exists>w' n'. process_loop env w n = Some (Ok (w', n')) \<and> node_inv env n' \<and> later n n' \<and>
    (settled env (to_process w) n \<longrightarrow> settled env [] n') \<and> (signals_ok env (signals w) \<longrightarrow> signals_ok env (signals w'))"
  using assms(2,3)
proof (induction "(w, n)" arbitrary: w n rule: wf_induct_rule
    [OF wf_measures [of "[\<lambda>(w, n). load w n, \<lambda>(w, n). length (to_process w)]"]])
  case (1 w n)
  show ?case
  proof (cases "to_process w = []")
    case True
    then show ?thesis using "1.prems" by (subst process_loop.simps) (simp add: later_refl)
  next
    case False
    let ?bs = "butlast (to_process w)" and ?b = "last (to_process w)"
    have w: "to_process w = ?bs @ [?b]" using False by simp
    then have eq: "w\<lparr>to_process := ?bs @ [?b]\<rparr> = w" by simp
    have "work_inv env (?bs @ [?b]) n" using "1.prems"(2) w by simp
    from process_block_step [OF env "1.prems"(1) this, of w] obtain w' n' where
      step: "process_block env ?b (w\<lparr>to_process := ?bs\<rparr>, n) = Ok (w', n')" "node_inv env n'" "work_inv env (to_process w') n'" "later n n'"
      and ok: "settled env (?bs @ [?b]) n \<longrightarrow> settled env (to_process w') n'" "signals_ok env (signals w) \<longrightarrow> signals_ok env (signals w')"
      and less: "load w' n' < load w n \<or> load w' n' = load w n \<and> length (to_process w') < Suc (length ?bs)"
      unfolding eq by blast
    have "length (to_process w) = Suc (length ?bs)" using False by simp
    then have "((w', n'), w, n) \<in> measures [\<lambda>(w, n). load w n, \<lambda>(w, n). length (to_process w)]" using less by auto
    from "1.hyps" [OF this step(2,3)] obtain w2 n2 where rest: "process_loop env w' n' = Some (Ok (w2, n2))" "node_inv env n2" "later n' n2"
      "settled env (to_process w') n' \<longrightarrow> settled env [] n2" "signals_ok env (signals w') \<longrightarrow> signals_ok env (signals w2)" by blast
    have "process_loop env w n = Some (Ok (w2, n2))" using False step(1) rest(1) by (subst process_loop.simps) simp
    then show ?thesis using rest(2,4,5) ok [folded w] later_trans [OF step(4) rest(3)] by blast
  qed
qed

section \<open>Messages\<close>

text \<open>What handling a message does to the node: the database grows, the ledger stays, and no block
  leaves the graph.\<close>

definition grows :: "node \<Rightarrow> node \<Rightarrow> bool" where
  "grows n n' \<longleftrightarrow> map_le (block_cf (node_db n)) (block_cf (node_db n')) \<and>
     ledger (node_chain n') = ledger (node_chain n) \<and> graph_le (node_chain n) (node_chain n')"

lemma grows_trans: "grows n n' \<Longrightarrow> grows n' n'' \<Longrightarrow> grows n n''" and later_grows: "later n n' \<Longrightarrow> grows n n'"
  using graph_le_trans map_le_trans by (auto simp: grows_def later_def)

lemma grows_contains: "grows n n' \<Longrightarrow> blockdb_contains h (node_db n) \<Longrightarrow> blockdb_contains h (node_db n')"
  unfolding grows_def map_le_def blockdb_contains_def by (cases "block_cf (node_db n) h") (auto dest: bspec [of _ _ h])

lemmas grows_refl = later_grows [OF later_refl] and grows_perf = later_grows [OF later_perf]

lemma node_inv_stored:
  assumes inv: "node_inv env n" and work: "work_inv env bs n" and new: "\<not> blockdb_contains (env_hash env b) (node_db n)"
    and dec: "decode (we_codec env) raw = Some b"
    and pow: "check_pow_sortition_id (we_keccak env) (we_ser env) b (we_config env) = Ok Pass"
  shows "node_inv env (n\<lparr>node_db := snd (insert_encoded (env_hash env b) raw (node_db n))\<rparr>)" (is "node_inv env ?n")
    and "work_inv env (bs @ [b]) (n\<lparr>node_db := snd (insert_encoded (env_hash env b) raw (node_db n))\<rparr>)"
    and "settled env bs n \<Longrightarrow> settled env (bs @ [b]) (n\<lparr>node_db := snd (insert_encoded (env_hash env b) raw (node_db n))\<rparr>)"
proof -
  let ?h = "env_hash env b"
  obtain k db where ins: "insert_encoded ?h raw (node_db n) = (k, db)" by fastforce
  note db = insert_encoded_inv [OF node_invD(4) [OF inv] new ins]
  have mono: "blockdb_contains x db \<longleftrightarrow> blockdb_contains x (node_db n) \<or> x = ?h" for x
    using contains_arrivals [OF db(1)] contains_arrivals [OF node_invD(4) [OF inv]] db(2) by auto
  have keep: "stored (we_codec env) db x = (if x = ?h then Some b else stored (we_codec env) (node_db n) x)" for x
    using dec by (simp add: stored_def db(4))
  have pend: "pending_ok env ?n b'" if p: "pending_ok env n b'" for b'
  proof -
    have "env_hash env b' \<noteq> ?h" using pending_contains [OF p] new by auto
    then show ?thesis using p by (simp add: pending_ok_def ins keep)
  qed
  have fr: "fresh (node_chain n) ?h" using node_invD(6) [OF inv] new by blast
  have idle: "waiting (node_buffer n) ?h = None"
  proof (rule ccontr)
    assume "waiting (node_buffer n) ?h \<noteq> None"
    then obtain b' D where "waiting (node_buffer n) ?h = Some (b', D)" by auto
    from node_invD(7) [OF inv this] pending_contains [OF node_invD(8) [OF inv this]] new show False by simp
  qed
  show "node_inv env ?n"
  proof (rule node_invI)
    fix x b' D
    assume "waiting (node_buffer ?n) x = Some (b', D)"
    then show "env_hash env b' = x \<and> pending_ok env ?n b' \<and> D \<subseteq> missing_refs b' (node_chain ?n)"
      using node_invD(7-9) [OF inv, of x b' D] pend by simp
  next
    show "db_sound env (node_db ?n)"
      using node_invD(11) [OF inv] dec db(4) unfolding db_sound_def ins by (auto simp: ins split: if_splits)
  qed (use node_invD [OF inv] ins db(1) mono in simp_all)
  have "settled env (bs @ [b]) ?n" if s: "settled env bs n"
    unfolding settled_def
  proof (intro allI impI)
    fix h b'
    assume h: "stored (we_codec env) (node_db ?n) h = Some b'"
    show "h \<in> genesis_hashes (we_config env) \<or> \<not> fresh (node_chain ?n) h \<or> waiting (node_buffer ?n) h \<noteq> None \<or>
        b' \<in> set (bs @ [b]) \<or> rejected env (node_chain ?n) b'"
    proof (cases "h = ?h")
      case True
      then show ?thesis using h by (simp add: ins keep)
    next
      case False
      then have "stored (we_codec env) (node_db n) h = Some b'" using h by (simp add: ins keep)
      with s show ?thesis by (cases rule: settledE) auto
    qed
  qed
  then show "settled env bs n \<Longrightarrow> settled env (bs @ [b]) ?n" .
  have "?h \<notin> env_hash env ` set bs" using work new pending_contains by (fastforce simp: work_inv_def)
  moreover have "pending_ok env ?n b" using fr pow by (simp add: pending_ok_def ins keep)
  ultimately show "work_inv env (bs @ [b]) ?n" using work pend idle by (auto simp: work_inv_def)
qed

lemma request_inv:
  "node_inv env (n\<lparr>requested_blocks := R\<rparr>) = node_inv env n" "work_inv env bs (n\<lparr>requested_blocks := R\<rparr>) = work_inv env bs n"
  "pending_ok env (n\<lparr>requested_blocks := R\<rparr>) b = pending_ok env n b"
  "settled env bs (n\<lparr>requested_blocks := R\<rparr>) = settled env bs n"
  by (simp_all add: node_inv_def work_inv_def pending_ok_def settled_def)

lemma pow_total:
  assumes "wf_widths cfg"
  shows "\<exists>r. check_pow_sortition_id keccak ser b cfg = Ok r"
  using sortition_hash_class [OF assms, of "block_hash keccak ser b" "difficulty (header b)"]
  by (cases "sortition_class cfg (block_hash keccak ser b) (difficulty (header b))")
    (simp_all add: check_pow_sortition_id_def Let_def)

lemma receive_block_step:
  assumes env: "env_ok env" and inv: "node_inv env n" and work: "work_inv env bs n" and dec: "decode (we_codec env) raw = Some b"
  shows "\<exists>bs' n'. receive_block env raw (bs, n) = Ok (bs', n') \<and> node_inv env n' \<and> work_inv env bs' n' \<and>
    grows n n' \<and> (settled env bs n \<longrightarrow> settled env bs' n') \<and>
    (check_pow_sortition_id (we_keccak env) (we_ser env) b (we_config env) = Ok Pass \<longrightarrow> blockdb_contains (env_hash env b) (node_db n')) \<and>
    (check_pow_sortition_id (we_keccak env) (we_ser env) b (we_config env) = Ok Pass \<longrightarrow> \<not> blockdb_contains (env_hash env b) (node_db n) \<longrightarrow>
       bs' = bs @ [b] \<and> block_cf (node_db n') (env_hash env b) = Some raw)"
proof -
  let ?h = "env_hash env b" and ?n1 = "n\<lparr>requested_blocks := requested_blocks n - {env_hash env b}\<rparr>"
  have inv1: "node_inv env ?n1" "work_inv env bs ?n1" using inv work by (simp_all add: request_inv)
  have recent: "recent_blocks ?n1 = {}" using node_invD(5) [OF inv] by simp
  obtain r where r: "check_pow_sortition_id (we_keccak env) (we_ser env) b (we_config env) = Ok r"
    using pow_total [of "we_config env" "we_keccak env" "we_ser env" b] env by (auto simp: env_ok_def)
  show ?thesis
  proof (cases "r = Pass \<and> \<not> blockdb_contains ?h (node_db n)")
    case False
    have "n\<lparr>requested_blocks := requested_blocks n - {?h}, recent_blocks := {}\<rparr> = ?n1" using recent by simp
    then have "receive_block env raw (bs, n) = Ok (bs, ?n1)"
      using dec r False recent by (auto simp: receive_block_def unwrap_decode_def Let_def)
    moreover have "grows n ?n1" by (simp add: grows_def)
    ultimately show ?thesis using inv1 r False by (auto simp: request_inv)
  next
    case True
    let ?n3 = "?n1\<lparr>node_db := snd (insert_encoded ?h raw (node_db ?n1))\<rparr>"
    let ?n4 = "record_perf (record_insert_block_db_time (we_db_time env ?h)) ?n3"
    have "\<not> blockdb_contains ?h (node_db ?n1)" "check_pow_sortition_id (we_keccak env) (we_ser env) b (we_config env) = Ok Pass"
      using True r by simp_all
    note stored = node_inv_stored [OF inv1 this(1) dec this(2)]
    have n4: "node_inv env ?n4" "work_inv env (bs @ [b]) ?n4" using stored by (simp_all add: record_perf_inv)
    have "receive_block env raw (bs, n) = Ok (bs @ [b], ?n4)"
      using dec r True recent by (simp add: receive_block_def unwrap_decode_def Let_def record_perf_def)
    moreover have db: "block_cf (node_db ?n4) = (block_cf (node_db n))(?h \<mapsto> raw)"
      by (simp add: insert_encoded_def Let_def blockdb_put_def)
    moreover from this have "blockdb_contains ?h (node_db ?n4)" by (simp add: blockdb_contains_def)
    moreover have "map_le (block_cf (node_db n)) (block_cf (node_db ?n4))"
      using True unfolding db by (intro map_le_except [of _ ?h]) (auto simp: blockdb_contains_def split: option.splits)
    then have "grows n ?n4" by (simp add: grows_def ledger_def stored_ledger_def)
    moreover have "settled env (bs @ [b]) ?n4" if "settled env bs n" using stored(3) that by (simp add: record_perf_inv request_inv)
    ultimately show ?thesis using n4 by simp
  qed
qed

lemma receive_blocks_loop:
  assumes env: "env_ok env" and "node_inv env n" and "work_inv env bs n"
    and "\<And>raw. raw \<in> set raws \<Longrightarrow> decode (we_codec env) raw \<noteq> None"
  shows "\<exists>bs' n'. rfold (receive_block env) raws (bs, n) = Ok (bs', n') \<and> node_inv env n' \<and> work_inv env bs' n' \<and>
    grows n n' \<and> (settled env bs n \<longrightarrow> settled env bs' n') \<and>
    (\<forall>raw b. raw \<in> set raws \<longrightarrow> decode (we_codec env) raw = Some b \<longrightarrow>
       check_pow_sortition_id (we_keccak env) (we_ser env) b (we_config env) = Ok Pass \<longrightarrow> blockdb_contains (env_hash env b) (node_db n'))"
  using assms(2-4)
proof (induction raws arbitrary: bs n)
  case (Cons raw raws)
  obtain b where b: "decode (we_codec env) raw = Some b" using Cons.prems(3) [of raw] by auto
  obtain bs1 n1 where n1: "receive_block env raw (bs, n) = Ok (bs1, n1)" "node_inv env n1" "work_inv env bs1 n1"
    "grows n n1" "settled env bs n \<longrightarrow> settled env bs1 n1"
    "check_pow_sortition_id (we_keccak env) (we_ser env) b (we_config env) = Ok Pass \<longrightarrow> blockdb_contains (env_hash env b) (node_db n1)"
    using receive_block_step [OF env Cons.prems(1,2) b] by blast
  have "\<And>raw. raw \<in> set raws \<Longrightarrow> decode (we_codec env) raw \<noteq> None" using Cons.prems(3) by simp
  from Cons.IH [OF n1(2,3) this] obtain bs2 n2 where
    n2: "rfold (receive_block env) raws (bs1, n1) = Ok (bs2, n2)" "node_inv env n2" "work_inv env bs2 n2"
    "grows n1 n2" "settled env bs1 n1 \<longrightarrow> settled env bs2 n2"
    "\<forall>raw b. raw \<in> set raws \<longrightarrow> decode (we_codec env) raw = Some b \<longrightarrow>
       check_pow_sortition_id (we_keccak env) (we_ser env) b (we_config env) = Ok Pass \<longrightarrow> blockdb_contains (env_hash env b) (node_db n2)"
    by blast
  have "\<forall>h. blockdb_contains h (node_db n1) \<longrightarrow> blockdb_contains h (node_db n2)" using grows_contains [OF n2(4)] by blast
  with n1 n2 b show ?case
    by (intro exI [of _ bs2] exI [of _ n2]) (auto intro: grows_trans)
qed (auto simp: grows_refl)

lemma record_blocks_inv:
  assumes "node_inv env n" and "work_inv env bs n"
  shows "node_inv env (fold (\<lambda>b. record_perf (record_receive_block (t b) b)) xs n) \<and>
    work_inv env bs (fold (\<lambda>b. record_perf (record_receive_block (t b) b)) xs n) \<and>
    later n (fold (\<lambda>b. record_perf (record_receive_block (t b) b)) xs n) \<and>
    settled env bs (fold (\<lambda>b. record_perf (record_receive_block (t b) b)) xs n) = settled env bs n"
  using assms
proof (induction xs arbitrary: n)
  case (Cons x xs)
  let ?n = "record_perf (record_receive_block (t x) x) n"
  have "node_inv env ?n" "work_inv env bs ?n" using Cons.prems by (simp_all add: record_perf_inv)
  note IH = Cons.IH [OF this]
  then have "later n (fold (\<lambda>b. record_perf (record_receive_block (t b) b)) xs ?n)" using later_trans [OF later_perf] by blast
  with IH show ?case by (simp add: record_perf_inv)
qed (simp add: later_refl)

lemma work_inv_Nil: "work_inv env [] n"
  by (simp add: work_inv_def)

text \<open>The encoded blocks of a message decode.\<close>

definition decodes :: "worker_env \<Rightarrow> message \<Rightarrow> bool" where
  "decodes env msg \<longleftrightarrow> (case msg of Blocks raws \<Rightarrow> \<forall>raw \<in> set raws. decode (we_codec env) raw \<noteq> None | _ \<Rightarrow> True)"

definition sent_signals :: "effect list \<Rightarrow> context_update_signal list" where
  "sent_signals es = List.map_filter (\<lambda>e. case e of Signal s \<Rightarrow> Some s | _ \<Rightarrow> None) es"

lemma sent_signals_simps [simp]:
  "sent_signals [] = []" "sent_signals (Broadcast m # es) = sent_signals es" "sent_signals (Write m # es) = sent_signals es"
  "sent_signals (Signal s # es) = s # sent_signals es" "sent_signals (map Signal sigs @ es) = sigs @ sent_signals es"
proof -
  show simps: "sent_signals [] = []" "sent_signals (Broadcast m # es) = sent_signals es" "sent_signals (Write m # es) = sent_signals es"
    "sent_signals (Signal s # es) = s # sent_signals es" for m s es by (simp_all add: sent_signals_def map_filter_simps)
  show "sent_signals (map Signal sigs @ es) = sigs @ sent_signals es" by (induction sigs) (simp_all add: simps)
qed

lemma handle_blocks_inv:
  assumes env: "env_ok env" and inv: "node_inv env n" and dec: "\<And>raw. raw \<in> set raws \<Longrightarrow> decode (we_codec env) raw \<noteq> None"
  shows "\<exists>es n'. handle_blocks env raws n = Some (Ok (es, n')) \<and> node_inv env n' \<and> grows n n' \<and>
    (settled env [] n \<longrightarrow> settled env [] n') \<and> signals_ok env (sent_signals es) \<and>
    (\<forall>raw b. raw \<in> set raws \<longrightarrow> decode (we_codec env) raw = Some b \<longrightarrow>
       check_pow_sortition_id (we_keccak env) (we_ser env) b (we_config env) = Ok Pass \<longrightarrow> blockdb_contains (env_hash env b) (node_db n'))"
proof -
  obtain bs n1 where n1: "rfold (receive_block env) raws ([], n) = Ok (bs, n1)" "node_inv env n1" "work_inv env bs n1" "grows n n1"
    and s1: "settled env [] n \<longrightarrow> settled env bs n1"
    and stored: "\<forall>raw b. raw \<in> set raws \<longrightarrow> decode (we_codec env) raw = Some b \<longrightarrow>
       check_pow_sortition_id (we_keccak env) (we_ser env) b (we_config env) = Ok Pass \<longrightarrow> blockdb_contains (env_hash env b) (node_db n1)"
    using receive_blocks_loop [OF env inv work_inv_Nil dec] by blast
  let ?n2 = "fold (\<lambda>b. record_perf (record_receive_block (we_clock env b) b)) bs n1"
  have n2: "node_inv env ?n2" "work_inv env bs ?n2" "later n1 ?n2" "settled env bs ?n2 = settled env bs n1" using record_blocks_inv [OF n1(2,3)] by blast+
  obtain w n3 where n3: "process_loop env \<lparr>to_process = bs, to_request = [], signals = []\<rparr> ?n2 = Some (Ok (w, n3))" "node_inv env n3" "later ?n2 n3"
    "settled env bs ?n2 \<longrightarrow> settled env [] n3" "signals_ok env (signals w)"
    using process_loop_returns [OF env n2(1), of "\<lparr>to_process = bs, to_request = [], signals = []\<rparr>"] n2(2) by (auto simp: signals_ok_def)
  have g: "grows n ?n2" "grows n n3" using grows_trans [OF n1(4)] later_grows later_trans n2(3) n3(3) by blast+
  have "node_db ?n2 = node_db n1" "node_db n3 = node_db n1" using n2(3) n3(3) by (simp_all add: later_def)
  moreover have "signals_ok env []" by (simp add: signals_ok_def)
  ultimately show ?thesis
    using n1(1) n2(1,4) n3(1,2,4,5) g stored s1 by (cases "bs = []") (simp_all add: handle_blocks_def Let_def)
qed

lemma pool_inv_node: "node_inv env n \<Longrightarrow> pool_inv p \<Longrightarrow> node_inv env (n\<lparr>node_pool := p\<rparr>)"
proof -
  have "pending_ok env (n\<lparr>node_pool := p\<rparr>) b = pending_ok env n b" for b by (simp add: pending_ok_def)
  then show "node_inv env n \<Longrightarrow> pool_inv p \<Longrightarrow> node_inv env (n\<lparr>node_pool := p\<rparr>)" by (simp add: node_inv_def)
qed

lemma pool_settled: "settled env bs (n\<lparr>node_pool := p\<rparr>) = settled env bs n"
  by (simp add: settled_def)

lemma handle_message_inv:
  assumes env: "env_ok env" and inv: "node_inv env n" and dec: "decodes env msg"
  shows "\<exists>es n'. handle_message env msg n = Some (Ok (es, n')) \<and> node_inv env n' \<and> grows n n' \<and>
    (settled env [] n \<longrightarrow> settled env [] n') \<and> signals_ok env (sent_signals es)"
proof (cases msg)
  case (Blocks raws)
  then show ?thesis using handle_blocks_inv [OF env inv, of raws] dec by (auto simp: handle_message_def decodes_def)
next
  case (Transactions txs)
  have "pool_inv (fold new_transaction txs (node_pool n))"
    using tx_pool.offers_invar [OF node_invD(2) [OF inv], of txs] by (simp add: new_transaction_offer [abs_def])
  then show ?thesis using Transactions pool_inv_node [OF inv]
    by (simp add: handle_message_def grows_def pool_settled signals_ok_def)
next
  case (NewBlockHashes hs)
  then show ?thesis using inv
    by (simp add: handle_message_def Let_def request_inv grows_def signals_ok_def)
qed (use inv in \<open>simp_all add: handle_message_def Let_def grows_refl signals_ok_def\<close>)

lemma worker_step_inv:
  assumes env: "env_ok env" and inv: "node_inv env n" and msg: "we_message env raw = Some msg" and dec: "decodes env msg"
  shows "\<exists>es n'. worker_step env raw n = Some (Ok (es, n')) \<and> node_inv env n' \<and> grows n n' \<and>
    (settled env [] n \<longrightarrow> settled env [] n') \<and> signals_ok env (sent_signals es)"
proof -
  let ?n = "record_perf (record_process_message (length raw)) n"
  have "node_inv env ?n" using inv by (simp add: record_perf_inv)
  from handle_message_inv [OF env this dec] obtain es n' where h: "handle_message env msg ?n = Some (Ok (es, n'))"
    "node_inv env n'" "grows ?n n'" "settled env [] ?n \<longrightarrow> settled env [] n'" "signals_ok env (sent_signals es)" by blast
  have "worker_step env raw n = Some (Ok (es, n'))" using msg h(1) by (simp add: worker_step_def)
  moreover have "settled env [] n \<longrightarrow> settled env [] n'" using h(4) by (simp add: record_perf_inv)
  ultimately show ?thesis using h(2,5) grows_trans [OF grows_perf h(3)] by blast
qed

end
