(* ===== verification/Prism_Miner_Inv.thy ===== *)
theory Prism_Miner_Inv
  imports Prism_Miner Prism_Worker_Inv
begin

text \<open>
  The invariant of the miner: its contents have the places that sortition expects, each may be inserted
  into the block graph under the parent in the header, and the Merkle tree is the tree of the contents.
  A round restores it after the graph has changed, and a mined block passes validation.
\<close>

section \<open>Facts on the block graph\<close>

lemma voted_level_le:
  assumes inv: "chain_inv bc" and v: "voter_node_voted_level_cf bc v = Some e"
  shows "e \<le> proposer_best_level bc"
proof -
  have tree: "voter_tree_inv bc" and lev: "proposer_levels_inv bc"
    using inv by (simp_all add: chain_inv_def voter_inv_def proposer_inv_def)
  obtain l where "voter_node_level_cf bc v = Some l" using v voter_tree_invD(2) [OF tree] by (metis domD domI)
  then show ?thesis using v
  proof (induction l arbitrary: v e)
    case 0
    then show ?case using voter_tree_invD(4,6) [OF tree] by fastforce
  next
    case (Suc l)
    obtain p where p: "voter_node_level_cf bc p = Some l" "extends bc v p" using voter_tree_invD(7) [OF tree Suc.prems(1)] by blast
    then obtain s vs where s: "voter_node_voted_level_cf bc p = Some s" "s \<le> e"
      "map (proposer_node_level_cf bc) vs = map Some [s + 1..<e + 1]" using Suc.prems(2) by (auto simp: extends_def)
    show ?case
    proof (cases "s = e")
      case True
      then show ?thesis using Suc.IH [OF p(1) s(1)] by simp
    next
      case False
      then have "Some e \<in> set (map Some [s + 1..<e + 1])" using s(2) by simp
      then obtain x where "proposer_node_level_cf bc x = Some e" unfolding s(3) [symmetric] by auto
      then show ?thesis using proposer_levels_invD(2) [OF lev] by blast
    qed
  qed
qed

lemma graph_le_valid:
  assumes le: "graph_le bc bc'"
  shows "valid_content bc hdr c \<Longrightarrow> valid_content bc' hdr c" "contains_transaction x bc \<Longrightarrow> contains_transaction x bc'"
proof -
  note D = graph_leD [OF le]
  show "contains_transaction x bc \<Longrightarrow> contains_transaction x bc'"
    by (cases "parent_neighbor_cf bc x") (simp_all add: contains_transaction_def D(3))
  assume valid: "valid_content bc hdr c"
  show "valid_content bc' hdr c"
  proof (cases c)
    case (Proposer p)
    then have "valid_proposer bc hdr p" using valid by simp
    then have "valid_proposer bc' hdr p" using D(1) unfolding valid_proposer_def by meson
    then show ?thesis using Proposer by simp
  next
    case (Voter v)
    then obtain l s e where v: "voter_node_level_cf bc (voter_parent v) = Some l" "voter_node_voted_level_cf bc (voter_parent v) = Some s"
      "proposer_node_level_cf bc (parent hdr) = Some e" "s \<le> e" "map (proposer_node_level_cf bc) (votes v) = map Some [s + 1..<e + 1]"
      using valid by (auto simp: valid_voter_def)
    have "map (proposer_node_level_cf bc') (votes v) = map Some [s + 1..<e + 1]"
    proof (rule trans [OF _ v(5)], rule map_cong [OF refl])
      fix x
      assume "x \<in> set (votes v)"
      then have "proposer_node_level_cf bc x \<in> set (map Some [s + 1..<e + 1])" unfolding v(5) [symmetric] by simp
      then obtain l where "proposer_node_level_cf bc x = Some l" by auto
      with D(1) show "proposer_node_level_cf bc' x = proposer_node_level_cf bc x" by simp
    qed
    then show ?thesis using Voter D(2) [OF v(1)] D(4) [OF v(2)] D(1) [OF v(3)] v(4) by (simp add: valid_voter_def del: upt_Suc)
  qed simp
qed

section \<open>The tree of the contents\<close>

definition leaf_hash :: "(bytes \<Rightarrow> h256) \<Rightarrow> content \<Rightarrow> h256" where
  "leaf_hash keccak c = (case content_hash keccak c of Ok h \<Rightarrow> h | Panic _ \<Rightarrow> 0)"

lemma content_hash_leaf: "content_hash keccak c = Ok (leaf_hash keccak c)"
  using content_hash_total [of keccak c] by (auto simp: leaf_hash_def)

lemma content_tree_new: "content_tree keccak cs = merkle_new keccak (\<lambda>h. h) (map (leaf_hash keccak) cs)"
proof -
  have "rmap (content_hash keccak) cs = Ok (map (leaf_hash keccak) cs)"
    by (induction cs) (simp_all add: content_hash_leaf)
  then show ?thesis by (simp add: content_tree_def)
qed

lemma content_tree_total: "cs \<noteq> [] \<Longrightarrow> \<exists>t. content_tree keccak cs = Ok t"
  by (simp add: content_tree_new merkle_new_tree)

lemma update_contents:
  assumes "merkle_new keccak (\<lambda>h. h) hs = Ok t" and "\<forall>m \<in> set ms. unat m < length hs" and "length cs = length hs"
  shows "rfold (\<lambda>chain_id tree. rbind (rnth cs (unat chain_id)) (\<lambda>c. update_content keccak (unat chain_id) c tree)) ms t =
    merkle_new keccak (\<lambda>h. h) (fold (\<lambda>m hs. hs[unat m := leaf_hash keccak (cs ! unat m)]) ms hs)"
  using assms
proof (induction ms arbitrary: hs t)
  case (Cons m ms)
  let ?hs = "hs[unat m := leaf_hash keccak (cs ! unat m)]"
  have m: "unat m < length hs" using Cons.prems(2) by simp
  then have "?hs \<noteq> []" by auto
  then obtain t' where t': "merkle_new keccak (\<lambda>h. h) ?hs = Ok t'" by (simp add: merkle_new_tree)
  have "update_content keccak (unat m) (cs ! unat m) t = Ok t'"
    using merkle_update_tree [OF Cons.prems(1) m] t' by (simp add: update_content_def content_hash_leaf)
  then show ?case using Cons.IH [OF t'] Cons.prems(2,3) m by (simp add: rnth_def)
qed simp

lemma length_fold_list_update: "length (fold (\<lambda>m hs. hs[g m := f m]) ms hs) = length hs"
  by (induction ms arbitrary: hs) simp_all

lemma fold_list_update:
  assumes "i < length hs" and "\<forall>m \<in> set ms. unat m < length hs"
  shows "fold (\<lambda>m hs. hs[unat m := f (unat m)]) ms hs ! i = (if i \<in> unat ` set ms then f i else hs ! i)"
  using assms by (induction ms arbitrary: hs) (auto simp: nth_list_update)

lemma update_tree_correct:
  assumes "content_tree keccak cs0 = Ok t" and len: "length cs = length cs0" and ne: "cs \<noteq> []"
    and marks: "\<And>i. i < length cs \<Longrightarrow> cs ! i \<noteq> cs0 ! i \<Longrightarrow> i \<in> unat ` marks" "\<And>m. m \<in> marks \<Longrightarrow> unat m < length cs"
  shows "update_tree keccak new_proposer (cs, marks) t = content_tree keccak cs"
proof -
  let ?hs = "map (leaf_hash keccak) cs0" and ?ms = "sorted_list_of_set marks"
  let ?upd = "fold (\<lambda>m hs. hs[unat m := leaf_hash keccak (cs ! unat m)]) ?ms ?hs"
  have bound: "\<forall>m \<in> set ?ms. unat m < length ?hs" using marks(2) len by simp
  have "?upd = map (leaf_hash keccak) cs"
  proof (rule nth_equalityI)
    show "length ?upd = length (map (leaf_hash keccak) cs)"
      using len by (simp add: length_fold_list_update)
    fix i
    assume "i < length ?upd"
    then have i: "i < length cs0" by (simp add: length_fold_list_update)
    then have "?upd ! i = (if i \<in> unat ` set ?ms then leaf_hash keccak (cs ! i) else ?hs ! i)"
      using fold_list_update [of i ?hs ?ms "\<lambda>i. leaf_hash keccak (cs ! i)"] bound by simp
    then show "?upd ! i = map (leaf_hash keccak) cs ! i" using i len marks(1) [of i]
      by (cases "cs ! i = cs0 ! i") (auto split: if_splits)
  qed
  moreover have "length cs = length ?hs" using len by simp
  ultimately show ?thesis
    using update_contents [OF _ bound] assms(1) by (simp add: update_tree_def content_tree_new)
qed

section \<open>The contents being mined\<close>

text \<open>What holds of the content in a slot: its kind, its chain and its transaction references. In a set of
  slots the content is moreover valid under the header.\<close>

definition slot_ok :: "blockchain \<Rightarrow> nat \<Rightarrow> content \<Rightarrow> bool" where
  "slot_ok bc i c \<longleftrightarrow>
     (case c of
        Proposer p \<Rightarrow> i = 0 \<and> (\<forall>h \<in> set (transaction_refs p). contains_transaction h bc)
      | Transaction _ \<Rightarrow> i = 1
      | Voter v \<Rightarrow> 2 \<le> i \<and> chain_number v = word_of_nat (i - 2) \<and> voter_node_chain_cf bc (voter_parent v) = Some (i - 2))"

definition good :: "blockchain \<Rightarrow> header \<Rightarrow> nat set \<Rightarrow> content list \<Rightarrow> contents \<Rightarrow> bool" where
  "good bc hdr S cs0 acc \<longleftrightarrow>
     length (fst acc) = num_chains bc + 2 \<and>
     (\<forall>i < length (fst acc). slot_ok bc i (fst acc ! i) \<and> (i \<in> S \<longrightarrow> valid_content bc hdr (fst acc ! i))) \<and>
     (\<forall>i < length (fst acc). fst acc ! i \<noteq> cs0 ! i \<longrightarrow> i \<in> unat ` snd acc) \<and>
     (\<forall>m \<in> snd acc. unat m < length (fst acc))"

lemma goodD:
  assumes "good bc hdr S cs0 (cs, marks)"
  shows "length cs = num_chains bc + 2" "i < num_chains bc + 2 \<Longrightarrow> slot_ok bc i (cs ! i)"
    "i < num_chains bc + 2 \<Longrightarrow> i \<in> S \<Longrightarrow> valid_content bc hdr (cs ! i)"
    "i < num_chains bc + 2 \<Longrightarrow> cs ! i \<noteq> cs0 ! i \<Longrightarrow> i \<in> unat ` marks" "m \<in> marks \<Longrightarrow> unat m < num_chains bc + 2"
  using assms unfolding good_def fst_conv snd_conv by (blast, metis, metis, metis, metis)

lemma good_set:
  assumes "good bc hdr S cs0 (cs, marks)" and "i < num_chains bc + 2" and "num_chains bc + 2 \<le> 2 ^ 16"
    and "slot_ok bc i c" and "i \<in> S' \<Longrightarrow> valid_content bc hdr c" and "S' - {i} \<subseteq> S"
  shows "good bc hdr S' cs0 (cs[i := c], insert (word_of_nat i) marks)"
proof -
  note g = goodD [OF assms(1)]
  have w: "unat (word_of_nat i :: u16) = i" using assms(2,3) by (simp add: unat_of_nat)
  have "slot_ok bc j (cs[i := c] ! j) \<and> (j \<in> S' \<longrightarrow> valid_content bc hdr (cs[i := c] ! j)) \<and>
      (cs[i := c] ! j \<noteq> cs0 ! j \<longrightarrow> j \<in> unat ` insert (word_of_nat i) marks)" if "j < num_chains bc + 2" for j
    using that g(1) g(2-4) [of j] assms(4-6) w by (cases "j = i") auto
  then show ?thesis using g(1,5) assms(2) w by (auto simp: good_def)
qed

lemma good_mono:
  assumes "good bc hdr S cs0 acc" and "\<And>i. i < num_chains bc + 2 \<Longrightarrow> i \<in> S' \<Longrightarrow> i \<in> S" and "parent hdr' = parent hdr"
  shows "good bc hdr' S' cs0 acc"
proof -
  have "valid_content bc hdr' c = valid_content bc hdr c" for c
    by (cases c) (simp_all add: valid_proposer_def valid_voter_def assms(3))
  then show ?thesis using assms(1,2) by (auto simp: good_def)
qed

lemma good_0: "good bc hdr S cs0 (cs, marks) \<Longrightarrow> \<exists>p. rnth cs 0 = Ok (Proposer p) \<and> cs ! 0 = Proposer p"
  using goodD(1) [of bc hdr S cs0 cs marks] goodD(2) [of bc hdr S cs0 cs marks 0]
  by (cases "cs ! 0") (auto simp: rnth_def slot_ok_def)

lemma good_1: "good bc hdr S cs0 (cs, marks) \<Longrightarrow> \<exists>t. rnth cs 1 = Ok (Transaction t)"
  using goodD(1) [of bc hdr S cs0 cs marks] goodD(2) [of bc hdr S cs0 cs marks 1]
  by (cases "cs ! 1") (auto simp: rnth_def slot_ok_def)

lemma good_voter:
  assumes "good bc hdr S cs0 (cs, marks)" and "k < num_chains bc"
  obtains v where "rnth cs (k + 2) = Ok (Voter v)" "cs ! (k + 2) = Voter v" "chain_number v = word_of_nat k"
    "voter_node_chain_cf bc (voter_parent v) = Some k"
  using goodD(1) [OF assms(1)] goodD(2) [OF assms(1), of "k + 2"] assms(2) that
  by (cases "cs ! (k + 2)") (auto simp: rnth_def slot_ok_def)

section \<open>The updates keep the contents\<close>

lemma voter_slot: "k + 2 < 2 ^ 16 \<Longrightarrow> unat (FIRST_VOTER_INDEX + word_of_nat k) = k + 2"
proof -
  assume k: "k + 2 < 2 ^ 16"
  have "FIRST_VOTER_INDEX + word_of_nat k = (word_of_nat (k + 2) :: u16)" by (simp add: FIRST_VOTER_INDEX_def)
  then show ?thesis using k by (simp only: unat_of_nat) simp
qed

lemma update_voter_parent_good:
  assumes g: "good bc hdr S cs0 acc" and inv: "voter_best_inv bc" and k: "unat k < num_chains bc"
    and small: "num_chains bc + 2 \<le> 2 ^ 16" and S: "S \<subseteq> {0, 1}"
  shows "\<exists>acc'. update_voter_parent bc k acc = Ok acc' \<and> good bc hdr S cs0 acc'"
proof -
  obtain cs marks where acc: "acc = (cs, marks)" by fastforce
  obtain v where v: "rnth cs (unat k + 2) = Ok (Voter v)" "chain_number v = word_of_nat (unat k)"
    by (rule good_voter [OF g [unfolded acc] k]) blast
  have slot: "unat (FIRST_VOTER_INDEX + k) = unat k + 2" using voter_slot [of "unat k"] k small by simp
  let ?vp = "fst (voter_best bc ! unat k)"
  have best: "best_voter (unat k) bc = Ok ?vp" using voter_best_invD(2) [OF inv] k by (simp add: best_voter_def rnth_def)
  have "slot_ok bc (unat k + 2) (Voter (v\<lparr>voter_parent := ?vp\<rparr>))"
    using v(2) voter_best_invD(4) [OF inv k] by (simp add: slot_ok_def)
  from good_set [OF g [unfolded acc] _ small this, of S] have
    "good bc hdr S cs0 (cs[unat k + 2 := Voter (v\<lparr>voter_parent := ?vp\<rparr>)], insert (word_of_nat (unat k + 2)) marks)"
    using k S by auto
  then show ?thesis using g by (simp add: update_voter_parent_def acc Let_def slot best v(1) del: of_nat_add add_2_eq_Suc')
qed

lemma update_transactions_good:
  assumes g: "good bc hdr S cs0 acc" and pool: "pool_inv p" and small: "num_chains bc + 2 \<le> 2 ^ 16"
  shows "\<exists>acc'. update_transactions env p acc = Ok acc' \<and> good bc hdr S cs0 acc'"
proof -
  obtain cs marks where acc: "acc = (cs, marks)" by fastforce
  obtain t where t: "rnth cs 1 = Ok (Transaction t)" using good_1 g acc by blast
  obtain txs where "get_transactions (unat (tx_txs (we_config env))) p = Ok txs"
    using get_transactions_take [OF pool] by blast
  moreover have "good bc hdr S cs0 (cs[1 := Transaction (t\<lparr>transactions := txs\<rparr>)], insert (word_of_nat 1) marks)"
    using good_set [OF g [unfolded acc] _ small, of 1] by (auto simp: slot_ok_def)
  ultimately show ?thesis using t by (simp add: update_transactions_def acc TRANSACTION_INDEX_def)
qed

text \<open>The order in which the miner's hash maps are iterated.\<close>

definition map_iterator :: "((h256 \<times> nat) list \<Rightarrow> (h256 \<times> nat) list) \<Rightarrow> bool" where
  "map_iterator iter \<longleftrightarrow> (\<forall>xs. set (iter xs) = set xs)"

lemma unreferred_available:
  assumes "graph_ok env bc" and "map_iterator iter"
  shows "h \<in> set (take q (unreferred_transactions_list iter bc)) \<Longrightarrow> contains_transaction h bc"
    "h \<in> set (unreferred_proposers_list iter bc) \<Longrightarrow> \<exists>l. proposer_node_level_cf bc h = Some l \<and> l \<le> proposer_best_level bc"
proof -
  assume "h \<in> set (take q (unreferred_transactions_list iter bc))"
  then have "h \<in> fst ` set (unreferred_transactions bc)"
    using assms(2) by (auto simp: unreferred_transactions_list_def map_iterator_def dest!: in_set_takeD)
  then show "contains_transaction h bc"
    using assms(1) by (auto simp: graph_ok_def transactions_inv_def contains_transaction_def)
next
  have inv: "unreferred_inv bc" "proposer_levels_inv bc"
    using assms(1) by (simp_all add: graph_ok_def full_inv_def chain_inv_def proposer_inv_def)
  assume "h \<in> set (unreferred_proposers_list iter bc)"
  then have "h \<in> fst ` set (unreferred_proposers bc)"
    using assms(2) by (auto simp: unreferred_proposers_list_def map_iterator_def)
  then obtain l where "proposer_node_level_cf bc h = Some l" using inv(1) by (auto simp: unreferred_inv_def)
  then show "\<exists>l. proposer_node_level_cf bc h = Some l \<and> l \<le> proposer_best_level bc"
    using proposer_levels_invD(2) [OF inv(2)] by blast
qed

lemma append_transaction_refs_good:
  assumes g: "good bc hdr S cs0 acc" and ok: "graph_ok env bc" and iter: "map_iterator iter" and small: "num_chains bc + 2 \<le> 2 ^ 16"
  shows "\<exists>acc'. append_transaction_refs env iter bc acc = Ok acc' \<and> good bc hdr S cs0 acc'"
proof -
  obtain cs marks where acc: "acc = (cs, marks)" by fastforce
  obtain p where p: "rnth cs 0 = Ok (Proposer p)" "cs ! 0 = Proposer p" using good_0 g acc by blast
  let ?p = "p\<lparr>transaction_refs := take (unat (proposer_tx_refs (we_config env))) (unreferred_transactions_list iter bc)\<rparr>"
  have "slot_ok bc 0 (Proposer ?p)" using unreferred_available(1) [OF ok iter] by (simp add: slot_ok_def)
  moreover have "valid_content bc hdr (Proposer ?p)" if "0 \<in> S"
    using goodD(3) [OF g [unfolded acc], of 0] that p(2) by (simp add: valid_proposer_def)
  ultimately have "good bc hdr S cs0 (cs[0 := Proposer ?p], insert (word_of_nat 0) marks)"
    using good_set [OF g [unfolded acc] _ small, of 0] by auto
  then show ?thesis using p(1) g by (simp add: append_transaction_refs_def acc PROPOSER_INDEX_def Let_def)
qed

lemma refresh_refs_good:
  assumes g: "good bc hdr0 S0 cs0 acc" and ok: "graph_ok env bc" and iter: "map_iterator iter" and small: "num_chains bc + 2 \<le> 2 ^ 16"
    and best: "proposer_node_level_cf bc (parent hdr) = Some (proposer_best_level bc)"
  shows "\<exists>acc'. refresh_refs env iter bc (parent hdr) acc = Ok acc' \<and> good bc hdr {0, 1} cs0 acc'"
proof -
  obtain cs marks where acc: "acc = (cs, marks)" by fastforce
  obtain p where p: "rnth cs 0 = Ok (Proposer p)" using good_0 g acc by blast
  obtain t where t: "rnth cs 1 = Ok (Transaction t)" using good_1 g acc by blast
  let ?p = "\<lparr>transaction_refs = take (unat (proposer_tx_refs (we_config env))) (unreferred_transactions_list iter bc),
    proposer_refs = filter (\<lambda>x. x \<noteq> parent hdr) (unreferred_proposers_list iter bc)\<rparr>"
  have g1: "good bc hdr {1} cs0 (cs, marks)" using g acc t by (auto simp: good_def rnth_def split: if_splits)
  have "slot_ok bc 0 (Proposer ?p)" using unreferred_available(1) [OF ok iter] by (simp add: slot_ok_def)
  moreover have "valid_content bc hdr (Proposer ?p)"
    using unreferred_available(2) [OF ok iter] best by (simp add: valid_proposer_def)
  ultimately have "good bc hdr {0, 1} cs0 (cs[0 := Proposer ?p], insert (word_of_nat 0) marks)"
    using good_set [OF g1 _ small, of 0] by auto
  then show ?thesis using p by (simp add: refresh_refs_def acc PROPOSER_INDEX_def Let_def)
qed

lemma follow_best_eq:
  assumes "best_proposer bc = Ok best" and "new_proposer \<Longrightarrow> p = best"
  shows "follow_best 2 env iter bc new_proposer p acc =
    (if new_proposer \<or> p \<noteq> best then rbind (refresh_refs env iter bc best acc) (\<lambda>acc'. Ok (True, best, acc'))
     else Ok (False, best, acc))"
  using assms by (auto simp: numeral_2_eq_2 cong: rbind_cong)

lemma update_vote_good:
  assumes g: "good bc hdr S cs0 acc" and ok: "graph_ok env bc" and small: "num_chains bc + 2 \<le> 2 ^ 16"
    and best: "proposer_node_level_cf bc (parent hdr) = Some (proposer_best_level bc)" and k: "k < num_chains bc"
  shows "\<exists>acc'. update_vote bc (parent hdr) always k acc = Ok acc' \<and> good bc hdr (insert (k + 2) S) cs0 acc'"
proof -
  obtain cs marks where acc: "acc = (cs, marks)" by fastforce
  have inv: "chain_inv bc" "voter_tree_inv bc" using ok by (simp_all add: graph_ok_def full_inv_def chain_inv_def voter_inv_def)
  obtain v where v: "rnth cs (k + 2) = Ok (Voter v)" "cs ! (k + 2) = Voter v" "chain_number v = word_of_nat k"
    "voter_node_chain_cf bc (voter_parent v) = Some k"
    by (rule good_voter [OF g [unfolded acc] k])
  obtain s where s: "voter_node_voted_level_cf bc (voter_parent v) = Some s" using v(4) voter_tree_invD(1,2) [OF inv(2)] by (metis domD domI)
  obtain vs where vs: "unvoted_proposer (voter_parent v) (parent hdr) bc = Ok vs"
    "valid_voter bc hdr \<lparr>chain_number = word_of_nat k, voter_parent = voter_parent v, votes = vs\<rparr>"
    using unvoted_valid [OF inv(1) s best voted_level_le [OF inv(1) s]] by blast
  then have valid: "valid_voter bc hdr (v\<lparr>votes := vs\<rparr>)" by (simp add: valid_voter_def)
  have slot: "unat (FIRST_VOTER_INDEX + word_of_nat k) = k + 2" using voter_slot [of k] k small by simp
  have "good bc hdr (insert (k + 2) S) cs0 (cs[k + 2 := Voter (v\<lparr>votes := vs\<rparr>)], insert (word_of_nat (k + 2)) marks)"
  proof (rule good_set [OF g [unfolded acc] _ small])
    show "slot_ok bc (k + 2) (Voter (v\<lparr>votes := vs\<rparr>))" using v(3,4) by (simp add: slot_ok_def)
  qed (use valid k in auto)
  moreover have "good bc hdr (insert (k + 2) S) cs0 (cs, marks)" if "vs = votes v"
    using g v(2) valid that by (auto simp: good_def acc)
  ultimately show ?thesis
    by (cases "always \<or> vs \<noteq> votes v") (auto simp: update_vote_def acc Let_def slot v(1) vs(1) simp del: of_nat_add add_2_eq_Suc')
qed

lemma update_votes_good:
  assumes g: "good bc hdr S cs0 acc" and ok: "graph_ok env bc" and small: "num_chains bc + 2 \<le> 2 ^ 16"
    and best: "proposer_node_level_cf bc (parent hdr) = Some (proposer_best_level bc)"
    and S: "{0, 1} \<subseteq> S" "new_proposer \<or> new_voter \<or> S = UNIV"
  shows "\<exists>acc'. update_votes env bc (parent hdr) new_proposer new_voter acc = Ok acc' \<and> good bc hdr UNIV cs0 acc'"
proof -
  have loop: "\<exists>acc'. rfold (update_vote bc (parent hdr) new_proposer) [0..<k] acc = Ok acc' \<and> good bc hdr (S \<union> {2..<k + 2}) cs0 acc'"
    if "k \<le> num_chains bc" for k
    using that
  proof (induction k)
    case 0
    then show ?case using g by simp
  next
    case (Suc k)
    then obtain acc1 where acc1: "rfold (update_vote bc (parent hdr) new_proposer) [0..<k] acc = Ok acc1" "good bc hdr (S \<union> {2..<k + 2}) cs0 acc1" by auto
    obtain acc2 where acc2: "update_vote bc (parent hdr) new_proposer k acc1 = Ok acc2" "good bc hdr (insert (k + 2) (S \<union> {2..<k + 2})) cs0 acc2"
      using update_vote_good [OF acc1(2) ok small best Suc_le_lessD [OF Suc.prems]] by blast
    have "insert (k + 2) (S \<union> {2..<k + 2}) = S \<union> {2..<Suc k + 2}" by auto
    then show ?case using acc1(1) acc2 by (simp add: rfold_append)
  qed
  show ?thesis
  proof (cases "new_proposer \<or> new_voter")
    case True
    obtain acc' where acc': "rfold (update_vote bc (parent hdr) new_proposer) [0..<num_chains bc] acc = Ok acc'"
      "good bc hdr (S \<union> {2..<num_chains bc + 2}) cs0 acc'" using loop by blast
    have "i \<in> S \<union> {2..<num_chains bc + 2}" if "i < num_chains bc + 2" for i using S(1) that by (cases "i < 2") (auto simp: less_2_cases_iff)
    then have "good bc hdr UNIV cs0 acc'" using good_mono [OF acc'(2)] by blast
    then show ?thesis using True acc'(1) ok by (auto simp: update_votes_def graph_ok_def)
  next
    case False
    then show ?thesis using S(2) g by (simp add: update_votes_def)
  qed
qed

section \<open>The miner between rounds\<close>

definition miner_inv :: "worker_env \<Rightarrow> blockchain \<Rightarrow> miner \<Rightarrow> bool" where
  "miner_inv env bc m \<longleftrightarrow> good bc (m_header m) UNIV (m_contents m) (m_contents m, {}) \<and>
     content_tree (we_keccak env) (m_contents m) = Ok (m_tree m)"

lemma voter_parents_good:
  assumes g: "good bc hdr UNIV cs0 acc" and inv: "voter_best_inv bc" and small: "num_chains bc + 2 \<le> 2 ^ 16"
    and ks: "\<forall>k \<in> set ks. unat k < num_chains bc"
  shows "\<exists>acc'. rfold (update_voter_parent bc) ks acc = Ok acc' \<and> good bc hdr (if ks = [] then UNIV else {0, 1}) cs0 acc'"
proof -
  have "\<exists>acc'. rfold (update_voter_parent bc) ks acc = Ok acc' \<and> good bc hdr {0, 1} cs0 acc'"
  proof (rule rfold_total)
    show "good bc hdr {0, 1} cs0 acc" using g by (rule good_mono) simp_all
    show "\<exists>acc'. update_voter_parent bc k acc = Ok acc' \<and> good bc hdr {0, 1} cs0 acc'"
      if "k \<in> set ks" "good bc hdr {0, 1} cs0 acc" for k acc
      using update_voter_parent_good [OF that(2) inv _ small order_refl] that(1) ks by blast
  qed
  then show ?thesis using g by (cases ks) auto
qed

lemma follow_best_good:
  assumes g: "good bc hdr S cs0 acc" and ok: "graph_ok env bc" and iter: "map_iterator iter" and small: "num_chains bc + 2 \<le> 2 ^ 16"
    and S: "{0, 1} \<subseteq> S" and best: "best_proposer bc = Ok best" "proposer_node_level_cf bc best = Some (proposer_best_level bc)"
  shows "\<exists>np acc' S'. follow_best 2 env iter bc new_proposer (if new_proposer then best else parent hdr) acc = Ok (np, best, acc') \<and>
    good bc (hdr\<lparr>parent := best\<rparr>) S' cs0 acc' \<and> {0, 1} \<subseteq> S' \<and> (np \<or> S' = S)"
proof (cases "new_proposer \<or> parent hdr \<noteq> best")
  case True
  obtain acc' where "refresh_refs env iter bc best acc = Ok acc'" "good bc (hdr\<lparr>parent := best\<rparr>) {0, 1} cs0 acc'"
    using refresh_refs_good [OF g ok iter small, of "hdr\<lparr>parent := best\<rparr>"] best(2) by auto
  moreover from this have "follow_best 2 env iter bc new_proposer (if new_proposer then best else parent hdr) acc = Ok (True, best, acc')"
    using True follow_best_eq [OF best(1), of new_proposer "if new_proposer then best else parent hdr"] by (cases new_proposer) simp_all
  ultimately show ?thesis by blast
next
  case False
  then have "good bc (hdr\<lparr>parent := best\<rparr>) S cs0 acc" using good_mono [OF g, of S "hdr\<lparr>parent := best\<rparr>"] by simp
  moreover have "follow_best 2 env iter bc new_proposer (if new_proposer then best else parent hdr) acc = Ok (False, best, acc)"
    using False follow_best_eq [OF best(1)] by simp
  ultimately show ?thesis using S by blast
qed

lemma difficulty_total: "db_sound env db \<Longrightarrow> \<exists>d. get_difficulty (we_codec env) h db = Ok d"
  by (cases "block_cf db h") (fastforce simp: get_difficulty_def blockdb_get_def unwrap_decode_def db_sound_def)+

lemma update_context_inv:
  assumes env: "env_ok env" and inv: "node_inv env n" and m: "miner_inv env (node_chain n) m" and iter: "map_iterator iter"
    and u: "\<forall>k \<in> new_voter_block u. unat k < num_chains (node_chain n)"
  shows "\<exists>m'. update_context env iter u n m = Ok m' \<and> miner_inv env (node_chain n) m' \<and> m_state m' = m_state m \<and>
    content_merkle_root (m_header m') = merkle_root (m_tree m') \<and> best_proposer (node_chain n) = Ok (parent (m_header m'))"
proof -
  let ?bc = "node_chain n" and ?hdr = "m_header m" and ?cs = "m_contents m" and ?ks = "sorted_list_of_set (new_voter_block u)"
  let ?S = "if ?ks = [] then UNIV else {0, 1}"
  have ok: "graph_ok env ?bc" using node_invD(10) [OF inv] .
  then have chain: "chain_inv ?bc" "voter_best_inv ?bc" and small: "num_chains ?bc + 2 \<le> 2 ^ 16"
    using env by (simp_all add: graph_ok_def full_inv_def chain_inv_def voter_inv_def env_ok_def wf_widths_def)
  obtain best where best: "best_proposer ?bc = Ok best" "proposer_node_level_cf ?bc best = Some (proposer_best_level ?bc)"
    using best_proposer_level [OF chain(1)] by blast
  have g: "good ?bc ?hdr UNIV ?cs (?cs, {})" and tree: "content_tree (we_keccak env) ?cs = Ok (m_tree m)"
    using m by (simp_all add: miner_inv_def)
  obtain acc1 where acc1: "rfold (update_voter_parent ?bc) ?ks (?cs, {}) = Ok acc1" "good ?bc ?hdr ?S ?cs acc1"
    using voter_parents_good [OF g chain(2) small, of ?ks] u by auto
  obtain acc2 where acc2: "(if new_transaction_block u then update_transactions env (node_pool n) acc1 else Ok acc1) = Ok acc2"
    "good ?bc ?hdr ?S ?cs acc2" using update_transactions_good [OF acc1(2) node_invD(2) [OF inv] small] acc1(2) by metis
  obtain acc3 where acc3: "(if new_transaction_block u \<and> \<not> new_proposer_block u then append_transaction_refs env iter ?bc acc2 else Ok acc2) = Ok acc3"
    "good ?bc ?hdr ?S ?cs acc3" using append_transaction_refs_good [OF acc2(2) ok iter small] acc2(2) by metis
  let ?p = "if new_proposer_block u then best else parent ?hdr" and ?hdr1 = "?hdr\<lparr>parent := best\<rparr>"
  have S: "{0, 1} \<subseteq> ?S" by simp
  have p: "(if new_proposer_block u then best_proposer ?bc else Ok (parent ?hdr)) = Ok ?p" using best(1) by simp
  obtain np acc4 S4 where acc4: "follow_best 2 env iter ?bc (new_proposer_block u) ?p acc3 = Ok (np, best, acc4)"
    "good ?bc ?hdr1 S4 ?cs acc4" "{0, 1} \<subseteq> S4" "np \<or> S4 = ?S"
    using follow_best_good [OF acc3(2) ok iter small S best, of "new_proposer_block u"] by blast
  obtain acc5 where acc5: "update_votes env ?bc best np (new_voter_block u \<noteq> {}) acc4 = Ok acc5" "good ?bc ?hdr1 UNIV ?cs acc5"
    using update_votes_good [OF acc4(2) ok small _ acc4(3), of np "new_voter_block u \<noteq> {}"] best(2) acc4(4) by auto
  obtain d where d: "get_difficulty (we_codec env) best (node_db n) = Ok d" using difficulty_total node_invD(11) [OF inv] by blast
  obtain cs marks where cs: "acc5 = (cs, marks)" by fastforce
  note g5 = goodD [OF acc5(2) [unfolded cs]]
  have "cs \<noteq> []" using g5(1) by auto
  moreover have "length cs = length ?cs" using g5(1) goodD(1) [OF g] by simp
  ultimately have upd: "update_tree (we_keccak env) np (cs, marks) (m_tree m) = content_tree (we_keccak env) cs"
    using update_tree_correct [OF tree] g5(1,4,5) by simp
  obtain t where t: "content_tree (we_keccak env) cs = Ok t" using content_tree_total \<open>cs \<noteq> []\<close> by blast
  let ?m = "m\<lparr>m_contents := cs, m_tree := t, m_header := ?hdr\<lparr>parent := best, difficulty := d, content_merkle_root := merkle_root t\<rparr>\<rparr>"
  have "update_context env iter u n m = Ok ?m"
    using acc1(1) acc2(1) acc3(1) acc4(1) acc5(1) d t unfolding update_context_def Let_def p cs by (simp add: upd)
  moreover have "good ?bc (m_header ?m) UNIV cs (cs, {})"
    using good_mono [OF acc5(2), of UNIV "m_header ?m"] unfolding cs by (simp add: good_def)
  ultimately show ?thesis using t best(1) by (simp add: miner_inv_def)
qed

section \<open>A mined block\<close>

lemma slot_available:
  assumes slot: "slot_ok bc i (content b)" and valid: "valid_content bc (header b) (content b)"
    and par: "contains_proposer (parent (header b)) bc"
  shows "check_data_availability b bc = Pass"
proof (cases "content b")
  case (Proposer p)
  then show ?thesis using assms by (auto simp: availability_Pass slot_ok_def valid_proposer_def contains_proposer_def)
next
  case (Voter v)
  obtain s e where "map (proposer_node_level_cf bc) (votes v) = map Some [s + 1..<e + 1]"
    using valid Voter by (auto simp: valid_voter_def)
  then have "proposer_node_level_cf bc x \<in> set (map Some [s + 1..<e + 1])" if "x \<in> set (votes v)" for x
    using that by (metis image_eqI list.set_map)
  then have "contains_proposer x bc" if "x \<in> set (votes v)" for x using that by (fastforce simp: contains_proposer_def)
  then show ?thesis using Voter valid par by (auto simp: availability_Pass valid_voter_def contains_voter_def)
qed (use par in \<open>simp add: availability_Pass\<close>)

definition signatures_ok :: "crypto \<Rightarrow> content \<Rightarrow> bool" where
  "signatures_ok cr c \<longleftrightarrow> (case c of Transaction t \<Rightarrow> check_signature_batch cr (transactions t) | _ \<Rightarrow> True)"

lemma slot_semantic:
  assumes slot: "slot_ok bc i (content b)" and valid: "valid_content bc (header b) (content b)" and i: "i < 2 ^ 16"
    and sig: "signatures_ok cr (content b)"
  shows "check_content_semantic cr b bc = Ok Pass"
proof (cases "content b")
  case (Transaction t)
  then show ?thesis using sig by (simp add: check_content_semantic_def signatures_ok_def)
next
  case (Proposer p)
  then obtain l where l: "proposer_node_level_cf bc (parent (header b)) = Some l"
    "\<forall>r \<in> set (proposer_refs p). \<exists>lr. proposer_node_level_cf bc r = Some lr \<and> lr \<le> l"
    using valid by (auto simp: valid_proposer_def)
  then have "refs_within l (proposer_refs p) bc = Ok True" by (simp add: refs_within_iff)
  then show ?thesis using Proposer l(1)
    by (simp add: check_content_semantic_def check_ref_proposer_level_def proposer_level_def)
next
  case (Voter v)
  then obtain s e where l: "voter_node_voted_level_cf bc (voter_parent v) = Some s"
    "proposer_node_level_cf bc (parent (header b)) = Some e" "s \<le> e"
    "map (proposer_node_level_cf bc) (votes v) = map Some [s + 1..<e + 1]"
    using valid by (auto simp: valid_voter_def)
  have "length (votes v) = e - s" using arg_cong [OF l(4), of length] by (simp del: upt_Suc)
  moreover from this l(3) have "s + 1 + length (votes v) = e + 1" by simp
  then have "levels_match s (votes v) bc = Ok True" unfolding levels_match_iff using l(4) by (simp only:)
  moreover have "voter_node_chain_cf bc (voter_parent v) = Some (unat (chain_number v))"
  proof -
    have "unat (word_of_nat (i - 2) :: u16) = i - 2" using i by (simp only: unat_of_nat) simp
    moreover have "slot_ok bc i (Voter v)" using slot Voter by simp
    ultimately show ?thesis by (simp add: slot_ok_def del: of_nat_diff)
  qed
  ultimately show ?thesis using Voter l(1-3)
    by (simp add: check_content_semantic_def check_chain_number_def check_levels_voted_def voter_chain_number_def
        deepest_voted_level_def proposer_level_def)
qed

lemma slot_sortition:
  assumes "slot_ok bc i (content b)" and "sortition_hash cfg (block_hash keccak ser b) (difficulty (header b)) = Ok (Some (word_of_nat i))"
  shows "check_pow_sortition_id keccak ser b cfg = Ok Pass"
proof (cases "content b")
  case (Voter v)
  then have "2 \<le> i" "chain_number v + FIRST_VOTER_INDEX = word_of_nat (i - 2) + word_of_nat 2"
    using assms(1) by (simp_all add: slot_ok_def FIRST_VOTER_INDEX_def)
  then have "chain_number v + FIRST_VOTER_INDEX = word_of_nat i" by (metis le_add_diff_inverse2 of_nat_add)
  then show ?thesis using Voter assms(2) by (simp add: check_pow_sortition_id_def)
qed (use assms in \<open>simp_all add: check_pow_sortition_id_def slot_ok_def index_defs\<close>)

lemma mined_proof:
  assumes tree: "content_tree keccak cs = Ok t" and i: "i < length cs" and len: "length cs = unat (voter_chains cfg) + 2"
    and small: "unat (voter_chains cfg) + 2 < 2 ^ 16"
  obtains pf where "merkle_proof t i = Ok pf"
    "verify keccak (merkle_root t) (leaf_hash keccak (cs ! i)) pf i (unat (voter_chains cfg + FIRST_VOTER_INDEX)) = Ok True"
proof -
  let ?hs = "map (leaf_hash keccak) cs"
  have new: "merkle_new keccak (\<lambda>h. h) ?hs = Ok t" using tree by (simp add: content_tree_new)
  have "?hs \<noteq> []" using i by auto
  then have "nodes t = tree_nodes (hash_pair keccak) ?hs" using new by (simp add: merkle_new_tree) force
  then have root: "merkle_root t = hd (tree_nodes (hash_pair keccak) ?hs)"
    using tree_nodes_neq_Nil [OF \<open>?hs \<noteq> []\<close>, of "hash_pair keccak"]
    by (cases "tree_nodes (hash_pair keccak) ?hs") (simp_all add: merkle_root_def)
  have leaves: "unat (voter_chains cfg + FIRST_VOTER_INDEX) = length ?hs"
    using voter_slot [of "unat (voter_chains cfg)"] small len by (simp add: add.commute)
  have "usize_safe (length ?hs)" using small len by (simp add: usize_safe_def)
  then have "verify keccak (merkle_root t) (?hs ! i) (merkle_path (hash_pair keccak) ?hs i) i (length ?hs) = Ok True"
    unfolding root using i by (intro verify_path) simp_all
  moreover have "merkle_proof t i = Ok (merkle_path (hash_pair keccak) ?hs i)"
    using merkle_proof_path [OF new, of i] i by simp
  ultimately show thesis using that i unfolding leaves by simp
qed

definition accepted :: "worker_env \<Rightarrow> blockchain \<Rightarrow> block \<Rightarrow> bool" where
  "accepted env bc b \<longleftrightarrow>
     check_pow_sortition_id (we_keccak env) (we_ser env) b (we_config env) = Ok Pass \<and>
     check_sortition_proof (we_keccak env) (we_ser env) b (we_config env) = Ok Pass \<and>
     check_data_availability b bc = Pass \<and>
     (signatures_ok (we_crypto env) (content b) \<longrightarrow> check_content_semantic (we_crypto env) b bc = Ok Pass)"

lemma produce_block_accepted:
  assumes env: "env_ok env" and small: "unat (voter_chains (we_config env)) + 2 < 2 ^ 16" and ok: "graph_ok env bc"
    and m: "miner_inv env bc m" and root: "content_merkle_root (m_header m) = merkle_root (m_tree m)"
    and par: "contains_proposer (parent (m_header m)) bc"
    and hash: "h = header_hash (we_keccak env) (we_ser env) (m_header m)" "h < difficulty (m_header m)"
  shows "\<exists>b. produce_block env m h = Ok b \<and> env_hash env b = h \<and> accepted env bc b \<and> valid_content bc (header b) (content b)"
proof -
  let ?cs = "m_contents m" and ?hdr = "m_header m" and ?c = "we_config env"
  have wf: "wf_widths ?c" using env by (simp add: env_ok_def)
  have g: "good bc ?hdr UNIV ?cs (?cs, {})" and tree: "content_tree (we_keccak env) ?cs = Ok (m_tree m)"
    using m by (simp_all add: miner_inv_def)
  have "unat h < unat (difficulty ?hdr)" using hash(2) by (simp add: word_less_nat_alt)
  then have "sortition_class ?c h (difficulty ?hdr) \<noteq> None" by (simp add: sortition_class_def)
  then obtain i where i: "sortition_class ?c h (difficulty ?hdr) = Some i" by blast
  then have less: "i < unat (voter_chains ?c) + 2" using sortition_class_less [OF wf] by blast
  then have len: "i < length ?cs" "i < num_chains bc + 2" "length ?cs = unat (voter_chains ?c) + 2"
    using goodD(1) [OF g] ok by (simp_all add: graph_ok_def)
  have small_i: "i < 2 ^ 16" "unat (word_of_nat i :: u16) = i" using less small by (simp_all add: unat_of_nat)
  have sort: "sortition_hash ?c h (difficulty ?hdr) = Ok (Some (word_of_nat i))" using sortition_hash_class [OF wf] i by simp
  obtain pf where pf: "merkle_proof (m_tree m) i = Ok pf"
    "verify (we_keccak env) (merkle_root (m_tree m)) (leaf_hash (we_keccak env) (?cs ! i)) pf i (unat (voter_chains ?c + FIRST_VOTER_INDEX)) = Ok True"
    using mined_proof [OF tree len(1,3) small] by blast
  let ?b = "block_from_header ?hdr (?cs ! i) pf"
  have b: "header ?b = ?hdr" "content ?b = ?cs ! i" "sortition_proof ?b = pf" "env_hash env ?b = h"
    using hash(1) by (simp_all add: block_from_header_def block_hash_def)
  have slot: "slot_ok bc i (content ?b)" and valid: "valid_content bc (header ?b) (content ?b)"
    using goodD(2,3) [OF g len(2)] b by simp_all
  have "produce_block env m h = Ok ?b" using sort small_i pf(1) len(1) by (simp add: produce_block_def rnth_def)
  moreover have "check_pow_sortition_id (we_keccak env) (we_ser env) ?b ?c = Ok Pass"
    using slot_sortition [OF slot] sort b by simp
  moreover have "check_sortition_proof (we_keccak env) (we_ser env) ?b ?c = Ok Pass"
    using sort b pf(2) small_i(2) root by (simp add: check_sortition_proof_def content_hash_leaf Let_def)
  moreover have "check_data_availability ?b bc = Pass" using slot_available [OF slot valid] par b by simp
  ultimately show ?thesis using slot_semantic [OF slot valid small_i(1)] valid b(4) unfolding accepted_def by blast
qed

section \<open>Publishing\<close>

text \<open>A hash that the node has neither stored nor heard of as a missing reference.\<close>

definition new_hash :: "node \<Rightarrow> h256 \<Rightarrow> bool" where
  "new_hash n h \<longleftrightarrow> \<not> blockdb_contains h (node_db n) \<and> (\<forall>x b D. waiting (node_buffer n) x = Some (b, D) \<longrightarrow> h \<notin> D)"

lemma publish_block_inv:
  assumes inv: "node_inv env n" and new: "new_hash n (env_hash env b)"
    and acc: "accepted env (node_chain n) b"
    and valid: "valid_content (node_chain n) (header b) (content b)" and codec: "decode (we_codec env) (encode (we_codec env) b) = Some b"
  shows "\<exists>n'. publish_block env (env_hash env b) b n = Ok ([Broadcast (NewBlockHashes [env_hash env b]), Signal (update_signal b)], n') \<and>
    node_inv env n' \<and> grows n n' \<and> \<not> fresh (node_chain n') (env_hash env b) \<and> (settled env [] n \<longrightarrow> settled env [] n') \<and>
    stored (we_codec env) (node_db n') (env_hash env b) = Some b"
proof -
  let ?h = "env_hash env b" and ?n1 = "record_perf (record_mine_block (we_header_size env) b) n"
  let ?n2 = "?n1\<lparr>node_db := snd (insert_encoded ?h (encode (we_codec env) b) (node_db ?n1))\<rparr>"
  have pow: "check_pow_sortition_id (we_keccak env) (we_ser env) b (we_config env) = Ok Pass"
    and refs: "check_data_availability b (node_chain ?n2) = Pass" using acc by (simp_all add: accepted_def availability_perf)
  have inv1: "node_inv env ?n1" using inv by (simp add: record_perf_inv)
  have "\<not> blockdb_contains ?h (node_db ?n1)" using new by (simp add: new_hash_def)
  note st = node_inv_stored [OF inv1 _ this codec pow, of "[]"]
  have inv2: "node_inv env ?n2" and work: "pending_ok env ?n2 b" "waiting (node_buffer ?n2) ?h = None"
    and s2: "settled env [] ?n1 \<Longrightarrow> settled env [b] ?n2"
    using st by (simp_all add: work_inv_def)
  have fr: "fresh (node_chain ?n2) ?h" using work(1) by (simp add: pending_ok_def)
  have "valid_content (node_chain ?n2) (header b) (content b)" using valid by simp
  then obtain n3 where n3: "new_validated_block env b ?n2 = Ok n3" "graph_ok env (node_chain n3)" "pool_inv (node_pool n3)"
    "adds ?h (node_chain ?n2) (node_chain n3)" "ledger (node_chain n3) = ledger (node_chain ?n2)" "node_db n3 = node_db ?n2"
    "node_buffer n3 = node_buffer ?n2" "recent_blocks n3 = recent_blocks ?n2" "\<not> fresh (node_chain n3) ?h"
    using new_validated_block_ok [OF inv2 fr _ refs] by blast
  have dbh: "blockdb_contains ?h (node_db n3)" using pending_contains [OF work(1)] by (simp add: n3(6))
  have db3: "block_cf (node_db n3) = (block_cf (node_db n))(?h \<mapsto> encode (we_codec env) b)"
    unfolding n3(6) by (simp add: insert_encoded_def Let_def blockdb_put_def)
  then have st3: "stored (we_codec env) (node_db n3) ?h = Some b" using codec by (simp add: stored_def)
  have "block_cf (node_db n) ?h = None" using new by (simp add: new_hash_def blockdb_contains_def split: option.splits)
  with db3 have mono: "map_le (block_cf (node_db n)) (block_cf (node_db n3))" by (intro map_le_except [of _ ?h]) simp_all
  have "node_inv env n3"
  proof (rule node_invI)
    fix x b' D
    assume "waiting (node_buffer n3) x = Some (b', D)"
    then have x: "waiting (node_buffer ?n2) x = Some (b', D)" unfolding n3(7) .
    have "?h \<notin> D" using new x by (simp add: new_hash_def)
    moreover have "x \<noteq> ?h" using x work(2) by auto
    ultimately show "env_hash env b' = x \<and> pending_ok env n3 b' \<and> D \<subseteq> missing_refs b' (node_chain n3)"
      using node_invD(7-9) [OF inv2 x] missing_refs_adds [OF n3(4), of D b'] adds_contains(4) [OF n3(4), of x]
      by (simp add: pending_ok_def n3(6))
  next
    fix x
    assume "\<not> fresh (node_chain n3) x"
    then show "blockdb_contains x (node_db n3)"
      using dbh adds_contains(4) [OF n3(4), of x] node_invD(6) [OF inv2, of x] by (cases "x = ?h") (simp_all add: n3(6))
  qed (use n3 node_invD [OF inv2] in simp_all)
  moreover have tree: "voter_tree_inv (node_chain ?n2)"
    using node_invD(1) [OF inv2] by (simp add: full_inv_def chain_inv_def voter_inv_def)
  then have le: "graph_le (node_chain ?n2) (node_chain n3)" using adds_le [OF n3(4) fr] by blast
  have "settled env [] n3" if "settled env [] n"
    unfolding settled_def
  proof (intro allI impI)
    fix h b'
    assume "stored (we_codec env) (node_db n3) h = Some b'"
    then have h: "stored (we_codec env) (node_db ?n2) h = Some b'" by (simp add: n3(6))
    have "settled env [b] ?n2" using that s2 by (simp add: record_perf_inv)
    from this h show "h \<in> genesis_hashes (we_config env) \<or> \<not> fresh (node_chain n3) h \<or> waiting (node_buffer n3) h \<noteq> None \<or>
        b' \<in> set [] \<or> rejected env (node_chain n3) b'"
    proof (cases rule: settledE)
      case 4
      then show ?thesis using stored_hash [OF node_invD(11) [OF inv2] h] n3(9) by auto
    qed (use n3(7) graph_le_fresh [OF le, of h] rejected_le [OF le tree, of env b'] in auto)
  qed
  moreover have "graph_le (node_chain n) (node_chain n3)" using le by simp
  then have "grows n n3" using mono n3(5) by (simp add: grows_def ledger_def stored_ledger_def)
  ultimately show ?thesis using n3(1,9) st3 by (simp add: publish_block_def Let_def blockdb_insert_encoded)
qed

lemma miner_inv_grows:
  assumes "miner_inv env bc m" and "graph_le bc bc'"
  shows "miner_inv env bc' m"
proof -
  have "slot_ok bc' i c" if "slot_ok bc i c" for i c
    using that graph_le_valid(2) [OF assms(2)] graph_leD(5) [OF assms(2)] by (cases c) (auto simp: slot_ok_def)
  then show ?thesis
    using assms(1) graph_le_valid(1) [OF assms(2)] graph_leD(6) [OF assms(2)] by (simp add: miner_inv_def good_def)
qed

section \<open>A round\<close>

definition codec_ok :: "codec \<Rightarrow> bool" where
  "codec_ok cd \<longleftrightarrow> (\<forall>b. decode cd (encode cd b) = Some b)"

text \<open>What a round sends: nothing, or the hash of a block that validation accepts and that the node has
  stored and inserted, and the signal for it.\<close>

definition announces :: "worker_env \<Rightarrow> node \<Rightarrow> node \<Rightarrow> effect list \<Rightarrow> bool" where
  "announces env n n' es \<longleftrightarrow> es = [] \<or>
     (\<exists>b. accepted env (node_chain n) b \<and> es = [Broadcast (NewBlockHashes [env_hash env b]), Signal (update_signal b)] \<and>
       stored (we_codec env) (node_db n') (env_hash env b) = Some b \<and> \<not> fresh (node_chain n') (env_hash env b))"

lemma announces_signals:
  assumes inv: "node_inv env n" and es: "announces env n n' es"
  shows "signals_ok env (sent_signals es)"
proof (cases "es = []")
  case False
  then obtain b where b: "accepted env (node_chain n) b" "es = [Broadcast (NewBlockHashes [env_hash env b]), Signal (update_signal b)]"
    using es unfolding announces_def by blast
  have "signals_ok env ([] @ [update_signal b])"
  proof (cases "signatures_ok (we_crypto env) (content b)")
    case True
    then show ?thesis using accepted_signal [OF inv, of b "[]"] b(1) by (simp add: accepted_def signals_ok_def)
  next
    case False
    then show ?thesis by (auto simp: signatures_ok_def signals_ok_def update_signal_def split: content.splits)
  qed
  then show ?thesis using b(2) by simp
qed (simp add: signals_ok_def)

lemma mine_inv:
  assumes env: "env_ok env" and small: "unat (voter_chains (we_config env)) + 2 < 2 ^ 16" and codec: "codec_ok (we_codec env)"
    and inv: "node_inv env n" and m: "miner_inv env (node_chain n) m"
    and root: "content_merkle_root (m_header m) = merkle_root (m_tree m)" and par: "contains_proposer (parent (m_header m)) (node_chain n)"
    and new: "new_hash n (header_hash (we_keccak env) (we_ser env) (m_header m))"
  shows "\<exists>es m' n'. mine env (m, n) = Ok (es, m', n') \<and> node_inv env n' \<and> miner_inv env (node_chain n') m' \<and> grows n n' \<and>
    (settled env [] n \<longrightarrow> settled env [] n') \<and> announces env n n' es"
proof (cases "header_hash (we_keccak env) (we_ser env) (m_header m) < difficulty (m_header m)")
  case False
  then show ?thesis using inv m by (simp add: mine_def Let_def announces_def grows_refl)
next
  case True
  let ?h = "header_hash (we_keccak env) (we_ser env) (m_header m)"
  obtain b where b: "produce_block env m ?h = Ok b" "env_hash env b = ?h" "accepted env (node_chain n) b"
    "valid_content (node_chain n) (header b) (content b)"
    using produce_block_accepted [OF env small node_invD(10) [OF inv] m root par refl True] by blast
  have new: "new_hash n (env_hash env b)" using new b(2) by simp
  have "decode (we_codec env) (encode (we_codec env) b) = Some b" using codec by (simp add: codec_ok_def)
  then obtain n' where n': "publish_block env (env_hash env b) b n = Ok ([Broadcast (NewBlockHashes [env_hash env b]), Signal (update_signal b)], n')"
    "node_inv env n'" "grows n n'" "settled env [] n \<longrightarrow> settled env [] n'"
    "stored (we_codec env) (node_db n') (env_hash env b) = Some b" "\<not> fresh (node_chain n') (env_hash env b)" using publish_block_inv [OF inv new b(3,4)] by blast
  have "miner_inv env (node_chain n') m" using miner_inv_grows [OF m] n'(3) by (simp add: grows_def)
  then have "miner_inv env (node_chain n') (if m_state m = Step then m\<lparr>m_state := Paused\<rparr> else m)" by (simp add: miner_inv_def)
  moreover have "announces env n n' [Broadcast (NewBlockHashes [env_hash env b]), Signal (update_signal b)]"
    using b(3) n'(5,6) unfolding announces_def by blast
  moreover have "mine env (m, n) = Ok ([Broadcast (NewBlockHashes [env_hash env b]), Signal (update_signal b)],
      (if m_state m = Step then m\<lparr>m_state := Paused\<rparr> else m), n')"
    using True b(1) n'(1) unfolding mine_def Let_def b(2) by simp
  ultimately show ?thesis using n'(2-4) by blast
qed

lemma collect_signals_voter:
  "new_voter_block (collect_signals sigs) = {k. NewVoterBlock k \<in> set sigs}"
proof -
  have "new_voter_block (fold (\<lambda>sig u. case sig of NewProposerBlock \<Rightarrow> u\<lparr>new_proposer_block := True\<rparr>
           | NewVoterBlock chain \<Rightarrow> u\<lparr>new_voter_block := insert chain (new_voter_block u)\<rparr>
           | NewTransactionBlock \<Rightarrow> u\<lparr>new_transaction_block := True\<rparr>) sigs u) =
      new_voter_block u \<union> {k. NewVoterBlock k \<in> set sigs}" for u :: updates
    by (induction sigs arbitrary: u) (auto split: context_update_signal.splits)
  then show ?thesis by (simp add: collect_signals_def)
qed

text \<open>The header that a round tries.\<close>

definition tried_header ::
  "worker_env \<Rightarrow> ((h256 \<times> nat) list \<Rightarrow> (h256 \<times> nat) list) \<Rightarrow> control_signal option \<Rightarrow> context_update_signal list \<Rightarrow>
   u32 \<Rightarrow> nat \<Rightarrow> bool \<Rightarrow> miner \<Rightarrow> node \<Rightarrow> header res" where
  "tried_header env iter signal sigs rnd now lazy m n =
     rbind (update_context env iter (collect_signals sigs) n (fst (miner_poll signal m))) (\<lambda>m2. Ok (m_header (try_header rnd now lazy m2)))"

lemma miner_poll_inv: "miner_inv env bc m \<Longrightarrow> miner_inv env bc (fst (miner_poll signal m))"
  by (auto simp: miner_poll_def handle_control_signal_def miner_inv_def Let_def split: operating_state.splits option.splits control_signal.splits)

lemma miner_round_inv:
  assumes env: "env_ok env" and small: "unat (voter_chains (we_config env)) + 2 < 2 ^ 16" and codec: "codec_ok (we_codec env)"
    and inv: "node_inv env n" and m: "miner_inv env (node_chain n) m" and iter: "map_iterator iter" and sigs: "signals_ok env sigs"
    and new: "\<And>hdr. tried_header env iter signal sigs rnd now lazy m n = Ok hdr \<Longrightarrow> new_hash n (header_hash (we_keccak env) (we_ser env) hdr)"
  shows "\<exists>es m' n'. miner_round env iter signal sigs rnd now lazy (m, n) = Ok (es, m', n') \<and> node_inv env n' \<and>
    miner_inv env (node_chain n') m' \<and> grows n n' \<and> (settled env [] n \<longrightarrow> settled env [] n') \<and> announces env n n' es"
proof -
  obtain m1 go where poll: "miner_poll signal m = (m1, go)" by fastforce
  have m1: "miner_inv env (node_chain n) m1" using miner_poll_inv [OF m, of signal] poll by simp
  show ?thesis
  proof (cases go)
    case False
    then show ?thesis using m1 inv by (simp add: miner_round_def poll announces_def grows_refl)
  next
    case True
    have "\<forall>k \<in> new_voter_block (collect_signals sigs). unat k < num_chains (node_chain n)"
      using sigs node_invD(10) [OF inv] by (simp add: collect_signals_voter signals_ok_def graph_ok_def word_less_nat_alt)
    then obtain m2 where m2: "update_context env iter (collect_signals sigs) n m1 = Ok m2" "miner_inv env (node_chain n) m2"
      "content_merkle_root (m_header m2) = merkle_root (m_tree m2)" "best_proposer (node_chain n) = Ok (parent (m_header m2))"
      using update_context_inv [OF env inv m1 iter] by blast
    let ?m = "try_header rnd now lazy m2"
    have t: "m_contents ?m = m_contents m2" "m_tree ?m = m_tree m2" "parent (m_header ?m) = parent (m_header m2)"
      "content_merkle_root (m_header ?m) = content_merkle_root (m_header m2)" by (simp_all add: try_header_def)
    have m3: "miner_inv env (node_chain n) ?m"
      using m2(2) good_mono [of "node_chain n" "m_header m2" UNIV "m_contents m2" "(m_contents m2, {})" UNIV "m_header ?m"] t
      by (simp add: miner_inv_def)
    have "chain_inv (node_chain n)" using node_invD(1) [OF inv] by (simp add: full_inv_def)
    then have par: "contains_proposer (parent (m_header ?m)) (node_chain n)"
      using best_proposer_level m2(4) t(3) by (fastforce simp: contains_proposer_def)
    have "tried_header env iter signal sigs rnd now lazy m n = Ok (m_header ?m)" using m2(1) by (simp add: tried_header_def poll)
    from mine_inv [OF env small codec inv m3 _ par new [OF this]] show ?thesis
      using m2(1,3) t True by (simp add: miner_round_def poll)
  qed
qed

section \<open>The start of the miner\<close>

lemma miner_new_inv:
  assumes ok: "graph_ok env bc" and config: "config bc = we_config env" and small: "unat (voter_chains (we_config env)) + 2 \<le> 2 ^ 16"
  shows "\<exists>m. miner_new env now = Ok m \<and> miner_inv env bc m \<and> m_state m = Paused"
proof -
  let ?c = "we_config env" and ?k = "unat (voter_chains (we_config env))"
  let ?v = "\<lambda>i. Voter \<lparr>chain_number = word_of_nat i, voter_parent = voter_genesis ?c ! i, votes = []\<rparr>"
  let ?cs = "Proposer \<lparr>transaction_refs = [], proposer_refs = []\<rparr> # Transaction \<lparr>transactions = []\<rparr> # map ?v [0..<?k]"
  let ?hdr = "\<lparr>parent = proposer_genesis ?c, timestamp = now, nonce = 0, content_merkle_root = 0, extra_content = replicate 32 0,
    difficulty = DEFAULT_DIFFICULTY\<rparr>"
  have inv: "proposer_levels_inv bc" "voter_tree_inv bc" "voter_best_inv bc" and num: "num_chains bc = ?k"
    using ok by (simp_all add: graph_ok_def full_inv_def chain_inv_def proposer_inv_def voter_inv_def)
  have len: "length (voter_genesis ?c) = ?k" using voter_best_invD(1) [OF inv(3)] num config by simp
  have par: "proposer_node_level_cf bc (proposer_genesis ?c) = Some 0" using proposer_levels_invD(1) [OF inv(1)] config by simp
  have "rmap (\<lambda>i. rbind (rnth (voter_genesis ?c) i) (\<lambda>g. Ok (Voter \<lparr>chain_number = word_of_nat i, voter_parent = g, votes = []\<rparr>)))
      [0..<?k] = Ok (map ?v [0..<?k])"
    by (rule rmap_Ok_pure) (simp add: rnth_def len)
  moreover obtain t where t: "content_tree (we_keccak env) ?cs = Ok t" using content_tree_total [of ?cs] by blast
  ultimately have new: "miner_new env now = Ok \<lparr>m_header = ?hdr, m_contents = ?cs, m_tree = t, m_state = Paused\<rparr>"
    by (simp add: miner_new_def Let_def)
  have "slot_ok bc i (?cs ! i) \<and> valid_content bc ?hdr (?cs ! i)" if i: "i < ?k + 2" for i
  proof (cases "i < 2")
    case True
    then show ?thesis using par by (auto simp: less_2_cases_iff slot_ok_def valid_proposer_def)
  next
    case False
    then have j: "?cs ! i = ?v (i - 2)" "i - 2 < ?k" "2 \<le> i" using i by (auto simp: numeral_2_eq_2 nth_Cons' less_diff_conv2)
    then have mem: "voter_genesis ?c ! (i - 2) \<in> set (voter_genesis (config bc))" using len config by simp
    have "voter_node_chain_cf bc (voter_genesis ?c ! (i - 2)) = Some (i - 2)" using voter_tree_invD(5) [OF inv(2), of "i - 2"] j(2) num config by simp
    moreover have "voter_node_level_cf bc (voter_genesis ?c ! (i - 2)) = Some 0" "voter_node_voted_level_cf bc (voter_genesis ?c ! (i - 2)) = Some 0"
      using voter_tree_invD(4,6) [OF inv(2)] mem by blast+
    ultimately show ?thesis using par j(3) unfolding j(1) by (simp add: slot_ok_def valid_voter_def)
  qed
  then have "good bc ?hdr UNIV ?cs (?cs, {})" by (simp add: good_def num)
  then show ?thesis using new t by (simp add: miner_inv_def)
qed

end
