(* ===== verification/Prism_Manager.thy ===== *)
theory Prism_Manager
  imports Prism_Worker_Inv
begin

text \<open>
  The ledger manager (\<open>ledger_manager/mod.rs\<close>): one thread updates the ledger and sends the transactions
  of the confirmed blocks, the other applies them to the state database. The channel between them is the
  list of what is sent. The state database is a parameter: applying a transaction and committing, each
  with \<open>None\<close> for an error.
\<close>

section \<open>Sending confirmed transactions\<close>

definition confirm_block :: "worker_env \<Rightarrow> h256 \<Rightarrow> transaction list list \<times> node \<Rightarrow> (transaction list list \<times> node) res" where
  "confirm_block env hash acc =
     (case acc of (sent, n) \<Rightarrow>
      rbind (blockdb_get (we_codec env) hash (node_db n)) (\<lambda>found.
      rbind (unwrap found) (\<lambda>b.
        if extra_content (header b) = LAZY_ANNOTATION then Ok (sent, n)
        else
          let n1 = record_perf (record_confirm_transaction_block (we_clock env b) b) n
          in (case content b of
                Transaction c \<Rightarrow> Ok (sent @ [transactions c], n1)
              | _ \<Rightarrow> Panic UnreachableCode))))"

text \<open>The result is what is sent. Removed transaction blocks are only logged.\<close>

definition update_transaction_sequence :: "worker_env \<Rightarrow> statistics \<Rightarrow> node \<Rightarrow> (transaction list list \<times> node) res" where
  "update_transaction_sequence env st n =
     rbind (update_ledger st (node_chain n)) (\<lambda>(chain, added, removed).
       let n1 = record_perf (record_deconfirm_transaction_blocks (length removed)) (n\<lparr>node_chain := chain\<rparr>)
       in rfold (confirm_block env) added ([], n1))"

section \<open>Executing them\<close>

record 's state_db =
  sd_apply :: "transaction \<Rightarrow> 's \<Rightarrow> 's option"
  sd_commit :: "'s \<Rightarrow> 's option"

definition unwrap_state :: "'s option \<Rightarrow> 's res" where
  "unwrap_state r = (case r of Some s \<Rightarrow> Ok s | None \<Rightarrow> Panic UnwrapErr)"

definition execute_diff :: "'s state_db \<Rightarrow> transaction list \<Rightarrow> 's \<times> node \<Rightarrow> ('s \<times> node) res" where
  "execute_diff sd added_tx acc =
     rbind (rfold (\<lambda>tx (s, n). rbind (unwrap_state (sd_apply sd tx s)) (\<lambda>s1.
               Ok (s1, record_perf (record_confirm_transaction tx) n))) added_tx acc) (\<lambda>(s, n).
     rbind (unwrap_state (sd_commit sd s)) (\<lambda>s1. Ok (s1, n)))"

text \<open>One turn of both threads.\<close>

definition manager_turn :: "worker_env \<Rightarrow> statistics \<Rightarrow> 's state_db \<Rightarrow> 's \<times> node \<Rightarrow> ('s \<times> node) res" where
  "manager_turn env st sd acc =
     (case acc of (s, n) \<Rightarrow>
      rbind (update_transaction_sequence env st n) (\<lambda>(sent, n1). rfold (execute_diff sd) sent (s, n1)))"

section \<open>What is sent\<close>

text \<open>The transactions of a confirmed hash: none for a lazy block, and \<open>None\<close> when the hash does not name a
  transaction block.\<close>

definition payload :: "worker_env \<Rightarrow> block_db \<Rightarrow> h256 \<Rightarrow> transaction list list option" where
  "payload env db h =
     (case stored (we_codec env) db h of
        None \<Rightarrow> None
      | Some b \<Rightarrow> if extra_content (header b) = LAZY_ANNOTATION then Some []
                  else (case content b of Transaction c \<Rightarrow> Some [transactions c] | _ \<Rightarrow> None))"

lemma keeps_lengths_confirm [simp]:
  "keeps_lengths (record_confirm_transaction_block t b)" "keeps_lengths (record_deconfirm_transaction_blocks k)"
  "keeps_lengths (record_confirm_transaction tx)"
  by (simp_all add: keeps_lengths_def record_confirm_transaction_block_def record_deconfirm_transaction_blocks_def
      record_confirm_transaction_def Let_def)

definition counted :: "node \<Rightarrow> node \<Rightarrow> bool" where
  "counted n n' \<longleftrightarrow> (\<exists>p. n' = n\<lparr>node_chain := (node_chain n)\<lparr>perf := p\<rparr>\<rparr>)"

lemma counted_refl: "counted n n" and counted_trans: "counted n n' \<Longrightarrow> counted n' n'' \<Longrightarrow> counted n n''"
  and counted_perf: "counted n (record_perf f n)"
proof -
  have "n = n\<lparr>node_chain := (node_chain n)\<lparr>perf := perf (node_chain n)\<rparr>\<rparr>" by simp
  then show "counted n n" unfolding counted_def by blast
qed (auto simp: counted_def record_perf_def)

lemma confirm_block_Some:
  assumes sound: "db_sound env (node_db n)" and p: "payload env (node_db n) h = Some txs" and inv: "node_inv env n"
  shows "\<exists>n'. confirm_block env h (sent, n) = Ok (sent @ txs, n') \<and> counted n n' \<and> node_inv env n'"
proof -
  obtain b where b: "stored (we_codec env) (node_db n) h = Some b" using p by (auto simp: payload_def split: option.splits)
  then have get: "blockdb_get (we_codec env) h (node_db n) = Ok (Some b)"
    by (auto simp: stored_def blockdb_get_def unwrap_decode_def split: option.splits)
  show ?thesis
  proof (cases "extra_content (header b) = LAZY_ANNOTATION")
    case True
    then show ?thesis using p b get inv by (simp add: confirm_block_def payload_def counted_refl)
  next
    case False
    then obtain c where c: "content b = Transaction c" "txs = [transactions c]"
      using p b by (auto simp: payload_def split: content.splits)
    then show ?thesis using False get inv by (simp add: confirm_block_def counted_perf record_perf_inv)
  qed
qed

lemma confirm_block_None:
  assumes "db_sound env (node_db n)" and "blockdb_contains h (node_db n)" and "payload env (node_db n) h = None"
  shows "confirm_block env h (sent, n) = Panic UnreachableCode"
proof -
  obtain raw where raw: "block_cf (node_db n) h = Some raw" using assms(2) by (auto simp: blockdb_contains_def split: option.splits)
  then obtain b where "decode (we_codec env) raw = Some b" using assms(1) unfolding db_sound_def by blast
  then show ?thesis using assms(3) raw
    by (auto simp: confirm_block_def payload_def stored_def blockdb_get_def unwrap_decode_def split: if_splits content.splits)
qed

lemma confirm_blocks:
  assumes "node_inv env n" and "\<forall>h \<in> set hs. blockdb_contains h (node_db n)"
  shows "if \<exists>h \<in> set hs. payload env (node_db n) h = None
    then rfold (confirm_block env) hs (sent, n) = Panic UnreachableCode
    else \<exists>n'. rfold (confirm_block env) hs (sent, n) = Ok (sent @ concat (map (\<lambda>h. the (payload env (node_db n) h)) hs), n') \<and>
      counted n n' \<and> node_inv env n'"
  using assms
proof (induction hs arbitrary: sent n)
  case Nil
  then show ?case by (simp add: counted_refl)
next
  case (Cons h hs)
  have sound: "db_sound env (node_db n)" using node_invD(11) [OF Cons.prems(1)] .
  show ?case
  proof (cases "payload env (node_db n) h")
    case None
    then show ?thesis using confirm_block_None [OF sound _ None] Cons.prems(2) by simp
  next
    case (Some txs)
    obtain n' where n': "confirm_block env h (sent, n) = Ok (sent @ txs, n')" "counted n n'" "node_inv env n'"
      using confirm_block_Some [OF sound Some Cons.prems(1)] by blast
    have "node_db n' = node_db n" using n'(2) by (auto simp: counted_def)
    then show ?thesis using Cons.IH [OF n'(3), of "sent @ txs"] Cons.prems(2) n'(1,2) Some counted_trans [OF n'(2)]
      by (simp split: if_splits) blast
  qed
qed

section \<open>A turn of the manager\<close>

lemma same_graph_le: "same_graph bc bc' \<Longrightarrow> graph_le bc bc'"
  by (simp add: graph_le_def same_graph_simps)

lemma same_graph_node:
  assumes inv: "node_inv env n" and same: "same_graph (node_chain n) bc'" and full: "full_inv bc'"
  shows "node_inv env (n\<lparr>node_chain := bc'\<rparr>)"
proof -
  note s = same_graph_simps [OF same]
  let ?n = "n\<lparr>node_chain := bc'\<rparr>"
  have fr: "fresh bc' h = fresh (node_chain n) h" for h by (simp add: fresh_def s)
  have miss: "missing_refs b bc' = missing_refs b (node_chain n)" for b
    by (intro set_eqI missing_refs_cong) (simp_all add: contains_proposer_def contains_voter_def contains_transaction_def s)
  have pend: "pending_ok env ?n b = pending_ok env n b" for b by (simp add: pending_ok_def fr)
  have "graph_ok env bc'" using node_invD(10) [OF inv] full by (simp add: graph_ok_def transactions_inv_def s)
  then show ?thesis using inv by (simp add: node_inv_def fr miss pend)
qed

lemma same_graph_settled:
  assumes inv: "node_inv env n" and same: "same_graph (node_chain n) bc'" and s: "settled env bs n"
  shows "settled env bs (n\<lparr>node_chain := bc'\<rparr>)"
proof -
  have "voter_tree_inv (node_chain n)" using node_invD(1) [OF inv] by (simp add: full_inv_def chain_inv_def voter_inv_def)
  then have "rejected env bc' b" if "rejected env (node_chain n) b" for b
    using rejected_le [OF same_graph_le [OF same]] that by blast
  then show ?thesis using s by (auto simp: settled_def fresh_def same_graph_simps [OF same])
qed

lemma ledger_transactions_stored:
  assumes "node_inv env n" and "h \<in> set (ledger_transactions (node_chain n) bs)"
  shows "blockdb_contains h (node_db n)"
proof -
  obtain b where "h \<in> set (case transaction_ref_neighbor_cf (node_chain n) b of Some ts \<Rightarrow> ts | None \<Rightarrow> [])"
    using assms(2) unfolding ledger_transactions_def by auto
  then obtain ts where "transaction_ref_neighbor_cf (node_chain n) b = Some ts" "h \<in> set ts"
    by (cases "transaction_ref_neighbor_cf (node_chain n) b") auto
  then have "h \<in> dom (parent_neighbor_cf (node_chain n))"
    using node_invD(10) [OF assms(1)] unfolding graph_ok_def transactions_inv_def by blast
  then show ?thesis using node_invD(6) [OF assms(1), of h] by (auto simp: fresh_def)
qed

lemma counted_settled: "counted n n' \<Longrightarrow> settled env bs n' = settled env bs n"
  unfolding counted_def by (elim exE) (simp add: settled_def rejected_perf)

lemma counted_ledger: "counted n n' \<Longrightarrow> ledger (node_chain n') = ledger (node_chain n)" "counted n n' \<Longrightarrow> node_db n' = node_db n"
  "counted n n' \<Longrightarrow> graph_le (node_chain n) (node_chain n')"
  by (auto simp: counted_def ledger_def stored_ledger_def)

lemma update_sequence_step:
  assumes inv: "node_inv env n"
  shows "(\<exists>pre suf suf' bc' removed. update_ledger st (node_chain n) = Ok (bc', ledger_transactions (node_chain n) suf', removed) \<and>
      ledger (node_chain n) = pre @ suf \<and> ledger bc' = pre @ suf' \<and>
      (if \<exists>h \<in> set (ledger_transactions (node_chain n) suf'). payload env (node_db n) h = None
       then update_transaction_sequence env st n = Panic UnreachableCode
       else \<exists>n'. update_transaction_sequence env st n =
            Ok (concat (map (\<lambda>h. the (payload env (node_db n) h)) (ledger_transactions (node_chain n) suf')), n') \<and>
          node_inv env n' \<and> node_db n' = node_db n \<and> graph_le (node_chain n) (node_chain n') \<and> ledger (node_chain n') = pre @ suf' \<and>
          (settled env [] n \<longrightarrow> settled env [] n'))) \<or>
    update_transaction_sequence env st n = Panic UnwrapErr \<and> (\<exists>rate. \<not> poisson_new st rate)"
  using update_ledger_step [OF node_invD(1) [OF inv], of st]
proof (elim disjE exE conjE)
  fix bc' added removed
  assume u: "update_ledger st (node_chain n) = Ok (bc', added, removed)" and s: "ledger_step (node_chain n) bc' added removed"
  obtain pre suf suf' where l: "ledger (node_chain n) = pre @ suf" "ledger bc' = pre @ suf'" "added = ledger_transactions (node_chain n) suf'"
    and same: "same_graph (node_chain n) bc'" and full: "full_inv bc'" using s unfolding ledger_step_def by blast
  let ?n = "n\<lparr>node_chain := bc'\<rparr>" and ?f = "record_deconfirm_transaction_blocks (length removed)"
  have inv1: "node_inv env (record_perf ?f ?n)"
    using same_graph_node [OF inv same full] by (simp add: record_perf_inv)
  have "\<forall>h \<in> set added. blockdb_contains h (node_db (record_perf ?f ?n))"
    using ledger_transactions_stored [OF inv] l(3) by simp
  note c = confirm_blocks [OF inv1 this, of "[]"]
  have e: "update_transaction_sequence env st n = rfold (confirm_block env) added ([], record_perf ?f ?n)"
    by (simp add: update_transaction_sequence_def u Let_def)
  show ?thesis
  proof (cases "\<exists>h \<in> set added. payload env (node_db n) h = None")
    case True
    then have "update_transaction_sequence env st n = Panic UnreachableCode" using c e by simp
    then show ?thesis using True u l by auto
  next
    case False
    then have "\<not> (\<exists>h \<in> set added. payload env (node_db (record_perf ?f ?n)) h = None)" by simp
    from c [unfolded if_not_P [OF this]] obtain n' where n': "update_transaction_sequence env st n = Ok (concat (map (\<lambda>h. the (payload env (node_db n) h)) added), n')"
      "counted (record_perf ?f ?n) n'" "node_inv env n'" using e by auto
    have n2: "ledger (node_chain n') = pre @ suf'" "node_db n' = node_db n"
      using counted_ledger(1,2) [OF n'(2)] l(2) by (simp_all add: ledger_def stored_ledger_def)
    have n3: "graph_le (node_chain n) (node_chain n')"
      using graph_le_trans [OF same_graph_le [OF same]] counted_ledger(3) [OF n'(2)] by simp
    have "\<exists>n'. update_transaction_sequence env st n = Ok (concat (map (\<lambda>h. the (payload env (node_db n) h)) added), n') \<and>
        node_inv env n' \<and> node_db n' = node_db n \<and> graph_le (node_chain n) (node_chain n') \<and> ledger (node_chain n') = pre @ suf' \<and>
        (settled env [] n \<longrightarrow> settled env [] n')"
      using n'(1,3) n2 n3 same_graph_settled [OF inv same] counted_settled [OF n'(2)] by (auto simp: record_perf_inv)
    from if_not_P [OF False, THEN iffD2, OF this] u l show ?thesis unfolding l(3) by (intro disjI1 exI conjI)
  qed
qed (auto simp: update_transaction_sequence_def)

section \<open>Execution\<close>

lemma execute_diffs:
  assumes app: "\<And>tx s. sd_apply sd tx s = Some (f tx s)" and com: "\<And>s. sd_commit sd s = Some s" and "node_inv env n"
  shows "\<exists>n'. rfold (execute_diff sd) sent (s, n) = Ok (fold f (concat sent) s, n') \<and> counted n n' \<and> node_inv env n'"
  using assms(3)
proof (induction sent arbitrary: s n)
  case Nil
  then show ?case by (simp add: counted_refl)
next
  case (Cons txs sent)
  have "\<exists>n'. rfold (\<lambda>tx (s, n). rbind (unwrap_state (sd_apply sd tx s)) (\<lambda>s1. Ok (s1, record_perf (record_confirm_transaction tx) n))) txs (s, n) =
      Ok (fold f txs s, n') \<and> counted n n' \<and> node_inv env n'" if "node_inv env n" for s n
    using that
  proof (induction txs arbitrary: s n)
    case Nil
    then show ?case by (simp add: counted_refl)
  next
    case (Cons tx txs)
    let ?n = "record_perf (record_confirm_transaction tx) n"
    have "node_inv env ?n" using Cons.prems by (simp add: record_perf_inv)
    from Cons.IH [OF this, of "f tx s"] show ?case
      using counted_trans [OF counted_perf] by (auto simp: app unwrap_state_def)
  qed
  then obtain n1 where n1: "execute_diff sd txs (s, n) = Ok (fold f txs s, n1)" "counted n n1" "node_inv env n1"
    using Cons.prems by (fastforce simp: execute_diff_def com unwrap_state_def)
  show ?case using Cons.IH [OF n1(3), of "fold f txs s"] n1(1) counted_trans [OF n1(2)] by auto
qed

end
