(* ===== verification/Prism_Codec.thy ===== *)
theory Prism_Codec
  imports Prism_Worker
begin

text \<open>
  A concrete serialisation of blocks and messages, at which the laws that the development asks of the
  serialisation library hold. It stands in for that library in examples; every value is a self-delimiting
  sequence of bytes.
\<close>

section \<open>Coders\<close>

record 'a coder =
  enc :: "'a \<Rightarrow> bytes"
  dec :: "bytes \<Rightarrow> ('a \<times> bytes) option"

definition prefix_code :: "'a coder \<Rightarrow> bool" where
  "prefix_code c \<longleftrightarrow> (\<forall>x r. dec c (enc c x @ r) = Some (x, r))"

definition iso_coder :: "('b \<Rightarrow> 'a) \<Rightarrow> ('a \<Rightarrow> 'b) \<Rightarrow> 'a coder \<Rightarrow> 'b coder" where
  "iso_coder f g c = \<lparr>enc = (\<lambda>x. enc c (f x)), dec = (\<lambda>bs. map_option (\<lambda>(y, r). (g y, r)) (dec c bs))\<rparr>"

lemma iso_prefix: "prefix_code c \<Longrightarrow> (\<And>x. g (f x) = x) \<Longrightarrow> prefix_code (iso_coder f g c)"
  by (simp add: prefix_code_def iso_coder_def)

definition pair_coder :: "'a coder \<Rightarrow> 'b coder \<Rightarrow> ('a \<times> 'b) coder" where
  "pair_coder a b = \<lparr>enc = (\<lambda>(x, y). enc a x @ enc b y),
     dec = (\<lambda>bs. case dec a bs of None \<Rightarrow> None | Some (x, r) \<Rightarrow> map_option (\<lambda>(y, r1). ((x, y), r1)) (dec b r))\<rparr>"

lemma pair_prefix: "prefix_code a \<Longrightarrow> prefix_code b \<Longrightarrow> prefix_code (pair_coder a b)"
  by (auto simp: prefix_code_def pair_coder_def)

text \<open>Numbers in binary, the lowest digit first and ended by a two.\<close>

fun enc_nat :: "nat \<Rightarrow> bytes" where
  "enc_nat n = (if n = 0 then [2] else word_of_nat (n mod 2) # enc_nat (n div 2))"

fun dec_nat :: "bytes \<Rightarrow> (nat \<times> bytes) option" where
  "dec_nat [] = None"
| "dec_nat (b # bs) = (if b = 2 then Some (0, bs) else map_option (\<lambda>(n, r). (unat b + 2 * n, r)) (dec_nat bs))"

declare enc_nat.simps [simp del]

lemma dec_enc_nat: "dec_nat (enc_nat n @ r) = Some (n, r)"
proof (induction n rule: enc_nat.induct)
  case (1 n)
  show ?case
  proof (cases "n = 0")
    case True
    then show ?thesis by (subst enc_nat.simps) simp
  next
    case False
    have "(word_of_nat (n mod 2) :: 8 word) \<noteq> 2 \<and> unat (word_of_nat (n mod 2) :: 8 word) = n mod 2"
      by (cases "n mod 2 = 0") (simp_all add: mod2_eq_if)
    then show ?thesis using False 1 by (subst enc_nat.simps) simp
  qed
qed

definition nat_coder :: "nat coder" where
  "nat_coder = \<lparr>enc = enc_nat, dec = dec_nat\<rparr>"

lemma nat_prefix: "prefix_code nat_coder"
  by (simp add: prefix_code_def nat_coder_def dec_enc_nat)

definition word_coder :: "'a::len word coder" where
  "word_coder = iso_coder unat word_of_nat nat_coder"

lemma word_prefix: "prefix_code word_coder"
  unfolding word_coder_def by (rule iso_prefix [OF nat_prefix]) simp

fun dec_many :: "(bytes \<Rightarrow> ('a \<times> bytes) option) \<Rightarrow> nat \<Rightarrow> bytes \<Rightarrow> ('a list \<times> bytes) option" where
  "dec_many d 0 bs = Some ([], bs)"
| "dec_many d (Suc n) bs =
     (case d bs of None \<Rightarrow> None | Some (x, r) \<Rightarrow> map_option (\<lambda>(xs, r1). (x # xs, r1)) (dec_many d n r))"

definition list_coder :: "'a coder \<Rightarrow> 'a list coder" where
  "list_coder c = \<lparr>enc = (\<lambda>xs. enc_nat (length xs) @ concat (map (enc c) xs)),
     dec = (\<lambda>bs. case dec_nat bs of None \<Rightarrow> None | Some (n, r) \<Rightarrow> dec_many (dec c) n r)\<rparr>"

lemma list_prefix:
  assumes "prefix_code c"
  shows "prefix_code (list_coder c)"
proof -
  have "dec_many (dec c) (length xs) (concat (map (enc c) xs) @ r) = Some (xs, r)" for xs r
    using assms by (induction xs) (simp_all add: prefix_code_def)
  then show ?thesis by (simp add: prefix_code_def list_coder_def dec_enc_nat)
qed

section \<open>Blocks\<close>

definition option_coder :: "'a coder \<Rightarrow> 'a option coder" where
  "option_coder c = iso_coder (\<lambda>x. case x of None \<Rightarrow> [] | Some y \<Rightarrow> [y])
     (\<lambda>xs. case xs of [] \<Rightarrow> None | y # _ \<Rightarrow> Some y) (list_coder c)"

definition bytes_coder :: "bytes coder" where
  "bytes_coder = list_coder word_coder"

definition transaction_coder :: "transaction coder" where
  "transaction_coder = iso_coder
     (\<lambda>t. let u = stx_transaction t; w = utx_unsigned u in
        ((rtx_nonce w, rtx_gas_price w, rtx_gas w, (case rtx_action w of Create \<Rightarrow> None | Call a \<Rightarrow> Some a), rtx_value w, rtx_data w),
         (utx_v u, utx_r u, utx_s u, utx_hash u), stx_sender t, stx_public t))
     (\<lambda>((n, gp, g, act, v, d), (sv, r, s, h), sender, pub).
        \<lparr>stx_transaction = \<lparr>utx_unsigned = \<lparr>rtx_nonce = n, rtx_gas_price = gp, rtx_gas = g,
             rtx_action = (case act of None \<Rightarrow> Create | Some a \<Rightarrow> Call a), rtx_value = v, rtx_data = d\<rparr>,
             utx_v = sv, utx_r = r, utx_s = s, utx_hash = h\<rparr>, stx_sender = sender, stx_public = pub\<rparr>)
     (pair_coder (pair_coder word_coder (pair_coder word_coder (pair_coder word_coder
          (pair_coder (option_coder word_coder) (pair_coder word_coder bytes_coder)))))
        (pair_coder (pair_coder word_coder (pair_coder word_coder (pair_coder word_coder word_coder)))
          (pair_coder word_coder (option_coder word_coder))))"

lemmas coder_intros = pair_prefix list_prefix word_prefix nat_prefix

lemma option_prefix: "prefix_code c \<Longrightarrow> prefix_code (option_coder c)"
  unfolding option_coder_def by (intro iso_prefix coder_intros) (auto split: option.splits)

lemma bytes_prefix: "prefix_code bytes_coder"
  unfolding bytes_coder_def by (intro coder_intros)

lemma transaction_prefix: "prefix_code transaction_coder"
  unfolding transaction_coder_def
  by (intro iso_prefix coder_intros option_prefix bytes_prefix) (auto simp: Let_def split: action.splits)

definition header_coder :: "header coder" where
  "header_coder = iso_coder
     (\<lambda>h. (parent h, timestamp h, nonce h, content_merkle_root h, extra_content h, difficulty h))
     (\<lambda>(p, t, n, m, e, d). \<lparr>parent = p, timestamp = t, nonce = n, content_merkle_root = m, extra_content = e, difficulty = d\<rparr>)
     (pair_coder word_coder (pair_coder nat_coder (pair_coder word_coder (pair_coder word_coder (pair_coder bytes_coder word_coder)))))"

lemma header_prefix: "prefix_code header_coder"
  unfolding header_coder_def by (intro iso_prefix coder_intros bytes_prefix) auto

text \<open>A content is its tag with the fields of all three kinds, those of the other kinds empty.\<close>

definition content_coder :: "content coder" where
  "content_coder = iso_coder
     (\<lambda>c. case c of
        Transaction t \<Rightarrow> (0, transactions t, [], [], 0, 0)
      | Proposer p \<Rightarrow> (1, [], transaction_refs p, proposer_refs p, 0, 0)
      | Voter v \<Rightarrow> (2, [], votes v, [], chain_number v, voter_parent v))
     (\<lambda>(k, ts, rs, ps, n, p).
        if k = 0 then Transaction \<lparr>transactions = ts\<rparr>
        else if k = 1 then Proposer \<lparr>transaction_refs = rs, proposer_refs = ps\<rparr>
        else Voter \<lparr>chain_number = n, voter_parent = p, votes = rs\<rparr>)
     (pair_coder nat_coder (pair_coder (list_coder transaction_coder) (pair_coder (list_coder word_coder)
        (pair_coder (list_coder word_coder) (pair_coder word_coder word_coder)))))"

lemma content_prefix: "prefix_code content_coder"
  unfolding content_coder_def by (intro iso_prefix coder_intros transaction_prefix) (auto split: content.splits)

definition block_coder :: "block coder" where
  "block_coder = iso_coder (\<lambda>b. (header b, content b, sortition_proof b))
     (\<lambda>(h, c, p). \<lparr>header = h, content = c, sortition_proof = p\<rparr>)
     (pair_coder header_coder (pair_coder content_coder (list_coder word_coder)))"

lemma block_prefix: "prefix_code block_coder"
  unfolding block_coder_def by (intro iso_prefix coder_intros header_prefix content_prefix) auto

definition concrete_codec :: codec where
  "concrete_codec = \<lparr>encode = enc block_coder, decode = (\<lambda>bs. map_option fst (dec block_coder bs))\<rparr>"

lemma concrete_roundtrip: "decode concrete_codec (encode concrete_codec b) = Some b"
  using block_prefix [unfolded prefix_code_def, rule_format, of b "[]"] by (simp add: concrete_codec_def)

end
