(* ===== verification/Prism_Ledger_Safety.thy ===== *)
theory Prism_Ledger_Safety
  imports Prism_Ledger_Insert
begin

text \<open>
  The properties of the ledger: it is well-formed in every reachable state, an update reports exactly
  what it changed, blocks come after everything they refer to, and nodes that agree on the leaders
  agree on the ledger.
\<close>

section \<open>Example states\<close>

definition example_statistics :: statistics where
  "example_statistics = \<lparr>poisson_new = (\<lambda>_. True), poisson_cdf = (\<lambda>_ _. f_one),
     poisson_pmf = (\<lambda>_ _. f_zero), f32_powi = (\<lambda>_ _. f_one)\<rparr>"

lemma example_start_full: "full_inv example_start"
  using init_full_inv [OF example_genesis] by (simp add: example_start_def example_config_def)

lemma example_start_reachable: "reachable keccak ser st example_config example_start"
  by (rule reachable.start [OF example_start_new])

lemma example_start_tip: "proposer_ledger_tip example_start = 0"
  using example_start_simps(11) by (simp add: example_start_def example_config_def)

lemma example_start_caught_up: "caught_up example_start"
proof -
  have "voter_ledger_tips example_start = map fst (voter_best example_start)"
    using example_start_simps(22,23) by (simp add: example_start_def example_config_def comp_def)
  then show ?thesis using example_start_full by (simp add: caught_up_def full_inv_def)
qed

definition example_next :: blockchain where
  "example_next = with_proposer 100 (header example_proposer) \<lparr>transaction_refs = [], proposer_refs = []\<rparr> 0 example_start"

lemma example_step: "step (\<lambda>_. 100) (\<lambda>_. []) st example_start example_next"
proof (rule step.insertion)
  show "fresh example_start (block_hash (\<lambda>_. 100) (\<lambda>_. []) example_proposer)"
    by (rule example_fresh) (simp add: block_hash_def header_hash_def)
  show "valid_content example_start (header example_proposer) (content example_proposer)"
    by (simp add: example_proposer_def block_new_def block_from_header_def header_new_def
        valid_proposer_def example_start_level)
  have "insert_proposer 100 (header example_proposer) \<lparr>transaction_refs = [], proposer_refs = []\<rparr> example_start = Ok example_next"
    unfolding example_next_def
    by (rule insert_proposer_Ok) (simp add: example_proposer_def block_new_def block_from_header_def
        header_new_def example_start_level)
  then show "insert_block (\<lambda>_. 100) (\<lambda>_. []) example_proposer example_start = Ok example_next"
    by (simp add: insert_block_def Let_def block_hash_def header_hash_def example_proposer_def block_new_def block_from_header_def)
qed

lemma example_next_reachable: "reachable (\<lambda>_. 100) (\<lambda>_. []) st example_config example_next"
  by (rule reachable.continue [OF example_start_reachable example_step])

section \<open>Reachable states\<close>

text \<open>C8: every state that a node reaches from a fresh block graph by inserting new validated blocks and
  updating its ledger, in any order, is well-formed: the two trees, the recorded votes and the ledger
  have their invariants. No insertion or update on such a state panics, but for a rate that the
  Poisson distribution rejects.\<close>

theorem reachable_wf:
  assumes "reachable keccak ser st c bc" and "wf_genesis c" and "0 < unat (voter_chains c)"
  shows "full_inv bc \<and>
    (\<forall>b. fresh bc (block_hash keccak ser b) \<longrightarrow> valid_content bc (header b) (content b) \<longrightarrow>
       is_ok (insert_block keccak ser b bc)) \<and>
    (is_ok (update_ledger st bc) \<or> update_ledger st bc = Panic UnwrapErr \<and> (\<exists>rate. \<not> poisson_new st rate))"
proof -
  have "full_inv bc" by (rule reachable_full_inv [OF assms])
  then show ?thesis
    using insert_block_full [of bc keccak ser] update_ledger_step [of bc st] by (auto simp: is_ok_iff)
qed

theorem reachable_wf_witness:
  "full_inv example_next \<and> is_ok (update_ledger example_statistics example_next)"
  using reachable_wf [OF example_next_reachable [of example_statistics] example_genesis]
  by (simp add: example_statistics_def)

section \<open>Updates of the ledger\<close>

text \<open>C9: one update of the ledger on a well-formed state. It returns (or the Poisson distribution
  rejects its rate), keeps the invariants and the block graph, has followed every voter chain to its
  best block, and the ledger before and after is a common prefix followed by blocks whose transaction
  blocks are the removed and the added ones.\<close>

theorem update_ledger_correct:
  assumes "full_inv bc"
  shows "(\<exists>bc' added removed pre suf suf'. update_ledger st bc = Ok (bc', added, removed) \<and>
      full_inv bc' \<and> same_graph bc bc' \<and> voter_ledger_tips bc' = map fst (voter_best bc) \<and>
      ledger bc = pre @ suf \<and> ledger bc' = pre @ suf' \<and>
      removed = ledger_transactions bc suf \<and> added = ledger_transactions bc suf') \<or>
    update_ledger st bc = Panic UnwrapErr \<and> (\<exists>rate. \<not> poisson_new st rate)"
  using update_ledger_step [OF assms, of st]
proof (elim disjE exE conjE)
  fix bc' added removed
  assume u: "update_ledger st bc = Ok (bc', added, removed)" and s: "ledger_step bc bc' added removed"
  have "voter_ledger_tips bc' = map fst (voter_best bc)"
    using s same_graph_simps(14) [of bc bc'] by (simp add: ledger_step_def caught_up_def)
  then show ?thesis using u s unfolding ledger_step_def by blast
qed blast

theorem update_ledger_correct_witness:
  "\<exists>bc' added removed pre suf suf'. update_ledger example_statistics example_start = Ok (bc', added, removed) \<and>
    full_inv bc' \<and> same_graph example_start bc' \<and> voter_ledger_tips bc' = map fst (voter_best example_start) \<and>
    ledger example_start = pre @ suf \<and> ledger bc' = pre @ suf' \<and>
    removed = ledger_transactions example_start suf \<and> added = ledger_transactions example_start suf'"
  using update_ledger_correct [OF example_start_full, of example_statistics] by (simp add: example_statistics_def)

section \<open>The order of the ledger\<close>

lemma refs_after_take:
  "refs_after refs {} (rev xs) \<Longrightarrow> i < length xs \<Longrightarrow> refs (xs ! i) = Some rs \<Longrightarrow> set rs \<subseteq> set (take i xs)"
proof (induction xs rule: rev_induct)
  case (snoc x xs)
  then show ?case by (cases "i < length xs") (auto simp: nth_append)
qed simp

text \<open>C10: in every reachable state the ledger has no block twice, lists every block after all blocks
  it refers to, together with the unconfirmed blocks makes up all proposer blocks, and holds the
  leader of every level up to its tip.\<close>

theorem ledger_order:
  assumes "reachable keccak ser st c bc" and "wf_genesis c" and "0 < unat (voter_chains c)"
  shows "distinct (ledger bc) \<and>
    (\<forall>i < length (ledger bc). \<exists>rs. proposer_ref_neighbor_cf bc (ledger bc ! i) = Some rs \<and>
       set rs \<subseteq> set (take i (ledger bc))) \<and>
    set (ledger bc) \<inter> unconfirmed_proposers bc = {} \<and>
    set (ledger bc) \<union> unconfirmed_proposers bc = {h. contains_proposer h bc} \<and>
    (\<exists>hs. proposer_leaders bc = Ok hs \<and> length hs = proposer_ledger_tip bc + 1 \<and> set hs \<subseteq> set (ledger bc))"
proof -
  let ?n = "proposer_ledger_tip bc + 1"
  have inv: "proposer_inv bc" "ledger_inv bc"
    using reachable_full_inv [OF assms] by (simp_all add: full_inv_def chain_inv_def)
  have at: "ledger_at bc ?n" using inv(2) by (simp add: ledger_inv_def)
  note ok = ledger_atD(1) [OF at]
  note led = ledger_ledger_blocks [OF inv(2)]
  have dom: "set (ledger bc) \<subseteq> dom (proposer_node_level_cf bc)" unfolding led by (rule ledger_blocks_dom [OF inv(1) ok])
  have refs: "\<exists>rs. proposer_ref_neighbor_cf bc (ledger bc ! i) = Some rs \<and> set rs \<subseteq> set (take i (ledger bc))"
    if "i < length (ledger bc)" for i
  proof -
    have "ledger bc ! i \<in> dom (proposer_node_level_cf bc)" using that dom nth_mem by blast
    then obtain rs where rs: "proposer_ref_neighbor_cf bc (ledger bc ! i) = Some rs"
      using proposer_dag.refs_dom [OF inv(1)] by blast
    with refs_after_take [OF ledger_upto_sorted [OF inv(1) ok, of ?n, folded led] that] show ?thesis by blast
  qed
  have mem: "h \<in> set (ledger bc)" if lh: "l < ?n" "proposer_leader_sequence_cf bc l = Some h" for l h
  proof -
    obtain bs where bs: "proposer_ledger_order_cf bc l = Some (bs @ [h])"
      using ledger_atD(4) [OF at lh] leader_last [OF inv(1) ok lh(2)] by auto
    have "l \<in> set [0..<?n]" using lh(1) by (simp del: upt_Suc)
    then show ?thesis using bs unfolding ledger_def stored_ledger_def set_concat set_map by force
  qed
  have "rmap (\<lambda>l. case proposer_leader_sequence_cf bc l of Some h \<Rightarrow> Ok h | None \<Rightarrow> Panic UnreachableCode) [0..<?n] =
      Ok (map (\<lambda>l. the (proposer_leader_sequence_cf bc l)) [0..<?n])"
    using ledger_atD(2) [OF at] by (intro rmap_Ok_pure) fastforce
  then have "proposer_leaders bc = Ok (map (\<lambda>l. the (proposer_leader_sequence_cf bc l)) [0..<?n])"
    by (simp only: proposer_leaders_def)
  moreover have "set (map (\<lambda>l. the (proposer_leader_sequence_cf bc l)) [0..<?n]) \<subseteq> set (ledger bc)"
  proof
    fix h
    assume "h \<in> set (map (\<lambda>l. the (proposer_leader_sequence_cf bc l)) [0..<?n])"
    then obtain l where l: "l < ?n" "h = the (proposer_leader_sequence_cf bc l)" by (auto simp del: upt_Suc)
    with ledger_atD(2) [OF at l(1)] show "h \<in> set (ledger bc)" using mem [OF l(1)] by auto
  qed
  moreover have "distinct (ledger bc)" unfolding led by (rule distinct_ledger_upto)
  moreover have "unconfirmed_proposers bc = dom (proposer_node_level_cf bc) - set (ledger bc)"
    unfolding led by (rule ledger_atD(3) [OF at])
  moreover have "{h. contains_proposer h bc} = dom (proposer_node_level_cf bc)" by (auto simp: contains_proposer_def)
  moreover have "length (map (\<lambda>l. the (proposer_leader_sequence_cf bc l)) [0..<?n]) = ?n" by simp
  ultimately show ?thesis using refs dom by blast
qed

theorem ledger_order_witness:
  "distinct (ledger example_next) \<and>
    set (ledger example_next) \<inter> unconfirmed_proposers example_next = {} \<and>
    set (ledger example_next) \<union> unconfirmed_proposers example_next = {h. contains_proposer h example_next} \<and>
    (\<exists>hs. proposer_leaders example_next = Ok hs \<and> length hs = proposer_ledger_tip example_next + 1 \<and>
       set hs \<subseteq> set (ledger example_next))"
  using ledger_order [OF example_next_reachable example_genesis] by blast

section \<open>Agreement\<close>

lemma ledger_upto_agree:
  assumes inv: "proposer_inv bc" "proposer_inv bc'" and ok: "leaders_ok bc" "leaders_ok bc'"
    and refs: "\<And>h rs rs'. proposer_ref_neighbor_cf bc h = Some rs \<Longrightarrow> proposer_ref_neighbor_cf bc' h = Some rs' \<Longrightarrow> rs' = rs"
    and leaders: "\<And>l. l < n \<Longrightarrow> proposer_leader_sequence_cf bc' l = proposer_leader_sequence_cf bc l"
  shows "ledger_blocks bc' n = ledger_blocks bc n"
  using leaders
proof (induction n)
  case (Suc n)
  let ?r = "proposer_ref_neighbor_cf bc" and ?r' = "proposer_ref_neighbor_cf bc'"
  let ?A = "dom (proposer_node_level_cf bc) \<inter> dom (proposer_node_level_cf bc')"
  have both: "?r' x = ?r x" if x: "x \<in> ?A" for x
  proof -
    obtain rs rs' where "?r x = Some rs" "?r' x = Some rs'"
      using x proposer_dag.refs_dom [OF inv(1)] proposer_dag.refs_dom [OF inv(2)] by blast
    then show ?thesis using refs by simp
  qed
  have closed: "set rs \<subseteq> ?A" if "x \<in> ?A" "?r x = Some rs" for x rs
    using that both [OF that(1)] proposer_dag.refs_less [OF inv(1) that(2)] proposer_dag.refs_less [OF inv(2), of x rs] by auto
  have "expand ?r' c (Suc n) h = expand ?r c (Suc n) h" if "proposer_leader_sequence_cf bc n = Some h" for h c
    by (rule expand_cong [OF closed both])
       (use leaders_okD [OF ok(1) that] leaders_okD [OF ok(2), of n h] Suc.prems [of n] that in auto)
  moreover have "ledger_blocks bc' n = ledger_blocks bc n" using Suc by simp
  ultimately show ?case
    using Suc.prems [of n] by (simp add: level_blocks_def del: expand.simps split: option.split)
qed simp



section \<open>The traversal returns\<close>



section \<open>Votes\<close>

text \<open>C20: the difference of two tips of one voter chain. It is computed without a panic, and the votes
  that the tips cast through their ancestors are the added votes and the removed votes, each followed
  by the votes of the common ancestors. The removed votes have no repetition and none is among the
  common votes, and no vote of the difference is on the genesis level.\<close>

theorem vote_diff_correct:
  assumes "chain_inv bc" and "voter_chain_number to bc = Ok i" and "voter_chain_number from bc = Ok i"
  shows "\<exists>added removed common. vote_diff from to bc = Ok (added, removed) \<and>
    tip_votes bc to = added @ common \<and> tip_votes bc from = removed @ common \<and>
    distinct removed \<and> set removed \<inter> set common = {} \<and>
    (\<forall>v \<in> set added \<union> set removed. \<exists>l. proposer_level (fst v) bc = Ok l \<and> 0 < l)"
  using vote_diff_levels [OF assms(1), of to i "from"] assms(2,3)
  by (auto simp: voter_chain_number_def proposer_level_def res_simps)

theorem vote_diff_correct_witness:
  "\<exists>added removed common. vote_diff (index_hash 3) (index_hash 3) example_start = Ok (added, removed) \<and>
    tip_votes example_start (index_hash 3) = added @ common \<and> tip_votes example_start (index_hash 3) = removed @ common \<and>
    distinct removed \<and> set removed \<inter> set common = {}"
proof -
  have "voter_node_chain_cf example_start = vmap 3 (\<lambda>i. voter_genesis_hashes 3 ! i) (\<lambda>i. i)"
    using example_start_simps(20) by (simp add: example_start_def example_config_def)
  then have "voter_chain_number (index_hash 3) example_start = Ok 1"
    by (simp add: voter_chain_number_def voter_genesis_hashes_3 vmap_Suc numeral_3_eq_3 index_hash_inj)
  from vote_diff_correct [OF example_start_inv this this] show ?thesis by blast
qed



end
