(* ===== verification/Prism_Node.thy ===== *)
theory Prism_Node
  imports Prism_Miner_Inv Prism_Manager Prism_Codec Prism_Ledger_Safety
begin

text \<open>
  A running node (\<open>main.rs\<close>): the worker, the miner and the ledger manager on the shared block graph,
  block database and memory pool, with the channel of context updates between worker and miner. The
  threads take turns, one message, round or ledger update at a time. Every state of a running node is
  well-formed, no stored valid block is left out of the graph, and what one node mines another accepts.
\<close>

section \<open>The system\<close>

record system =
  sys_node :: node
  sys_miner :: miner
  sys_queue :: "context_update_signal list"

definition system_new :: "worker_env \<Rightarrow> nat \<Rightarrow> nat \<Rightarrow> system res" where
  "system_new env mempool_size now =
     rbind (blockdb_new (we_codec env) (we_config env)) (\<lambda>blockdb.
     rbind (blockchain_new (we_config env) counter_default) (\<lambda>chain.
     rbind (miner_new env now) (\<lambda>m.
       Ok \<lparr>sys_node = worker_new chain blockdb (pool_new mempool_size), sys_miner = m, sys_queue = initial_signals env\<rparr>)))"

text \<open>A paused miner leaves the updates in the channel. The hash of a header that the miner tries is one
  that the node has neither stored nor heard of.\<close>

inductive system_step :: "worker_env \<Rightarrow> statistics \<Rightarrow> system \<Rightarrow> system \<Rightarrow> bool" for env st where
  message: "worker_step env raw (sys_node s) = Some (Ok (es, n')) \<Longrightarrow>
    system_step env st s (s\<lparr>sys_node := n', sys_queue := sys_queue s @ sent_signals es\<rparr>)"
| ledger_update: "update_transaction_sequence env st (sys_node s) = Ok (sent, n') \<Longrightarrow>
    system_step env st s (s\<lparr>sys_node := n'\<rparr>)"
| mining: "map_iterator iter \<Longrightarrow>
    (\<And>hdr. tried_header env iter signal (sys_queue s) rnd now lazy (sys_miner s) (sys_node s) = Ok hdr \<Longrightarrow>
       new_hash (sys_node s) (header_hash (we_keccak env) (we_ser env) hdr)) \<Longrightarrow>
    miner_round env iter signal (sys_queue s) rnd now lazy (sys_miner s, sys_node s) = Ok (es, m', n') \<Longrightarrow>
    system_step env st s (s\<lparr>sys_node := n', sys_miner := m',
      sys_queue := (if snd (miner_poll signal (sys_miner s)) then [] else sys_queue s) @ sent_signals es\<rparr>)"

inductive running :: "worker_env \<Rightarrow> statistics \<Rightarrow> system \<Rightarrow> bool" for env st where
  start: "system_new env mempool_size now = Ok s \<Longrightarrow> running env st s"
| continue: "running env st s \<Longrightarrow> system_step env st s s' \<Longrightarrow> running env st s'"

inductive_cases system_stepE: "system_step env st s s'"

text \<open>The assumptions on the configuration and the parameters.\<close>

definition setup_ok :: "worker_env \<Rightarrow> bool" where
  "setup_ok env \<longleftrightarrow> env_ok env \<and> codec_ok (we_codec env) \<and> wf_genesis (we_config env) \<and>
     unat (voter_chains (we_config env)) + 2 < 2 ^ 16"

definition system_inv :: "worker_env \<Rightarrow> system \<Rightarrow> bool" where
  "system_inv env s \<longleftrightarrow> node_inv env (sys_node s) \<and> settled env [] (sys_node s) \<and>
     miner_inv env (node_chain (sys_node s)) (sys_miner s) \<and> signals_ok env (sys_queue s)"

section \<open>The start\<close>

lemma initial_graph_ok:
  assumes "wf_genesis (we_config env)" and pos: "0 < unat (voter_chains (we_config env))"
  shows "graph_ok env (init_state (we_config env) counter_default (unat (voter_chains (we_config env))))"
  using init_full_inv [OF assms] pos by (simp add: graph_ok_def transactions_inv_def)

lemma initial_fresh:
  assumes wf: "wf_genesis c" and pos: "0 < unat (voter_chains c)"
  shows "fresh (init_state c counter_default (unat (voter_chains c))) h \<longleftrightarrow> h \<notin> genesis_hashes c"
  using pos by (auto simp: fresh_def genesis_hashes_def vmap_None set_voter_genesis [OF wf])

lemma blockdb_new_raw:
  assumes "blockdb_new cd c = Ok db" and "block_cf db h = Some raw"
  shows "\<exists>b. raw = encode cd b \<and> difficulty (header b) = DEFAULT_DIFFICULTY"
proof -
  let ?P = "\<lambda>(db, k :: nat). \<forall>h raw. block_cf db h = Some raw \<longrightarrow>
    (\<exists>b. raw = encode cd b \<and> difficulty (header b) = DEFAULT_DIFFICULTY)"
  have genesis: "difficulty (header proposer_genesis_block) = DEFAULT_DIFFICULTY" "difficulty (header (voter_genesis_block k)) = DEFAULT_DIFFICULTY" for k
    by (simp_all add: proposer_genesis_block_def voter_genesis_block_def block_new_def header_new_def)
  let ?f = "\<lambda>i (db, counter). rbind (rnth (voter_genesis c) i) (\<lambda>hash.
    Ok (blockdb_put hash (encode cd (voter_genesis_block (word_of_nat i))) counter db, counter + 1))"
  let ?db1 = "blockdb_put (proposer_genesis c) (encode cd proposer_genesis_block) 0
    (blockdb_open \<lparr>block_cf = Map.empty, block_arrival_order_cf = Map.empty, block_sequence_number_cf = Map.empty, db_count = 0\<rparr>)"
  obtain db2 k where run: "rfold ?f [0..<unat (voter_chains c)] (?db1, 1) = Ok (db2, k)" "db = db2\<lparr>db_count := k\<rparr>"
    using assms(1) by (auto simp: blockdb_new_def Let_def res_simps)
  have "?P (db2, k)"
  proof (rule rfold_invariant [OF run(1)])
    show "?P (?db1, 1)" using genesis(1) by (auto simp: blockdb_put_def blockdb_open_def)
    show "?P y" if "?P x" "?f i x = Ok y" for i x y
      using that genesis(2) [of "word_of_nat i"] by (auto simp: blockdb_put_def res_simps split: if_splits)
  qed
  then show ?thesis using assms(2) run(2) by auto
qed

lemma system_new_inv:
  assumes ok: "setup_ok env"
  shows "\<exists>s. system_new env mempool_size now = Ok s \<and> system_inv env s"
proof -
  let ?c = "we_config env"
  let ?bc = "init_state ?c counter_default (unat (voter_chains ?c))"
  have wf: "wf_genesis ?c" and pos: "0 < unat (voter_chains ?c)" and small: "unat (voter_chains ?c) + 2 \<le> 2 ^ 16"
    and codec: "\<And>b. decode (we_codec env) (encode (we_codec env) b) = Some b"
    using ok by (auto simp: setup_ok_def env_ok_def wf_widths_def codec_ok_def)
  have "distinct (proposer_genesis ?c # voter_genesis ?c)" "length (voter_genesis ?c) = unat (voter_chains ?c)"
    using wf by (simp_all add: wf_genesis_def)
  then obtain db where db: "blockdb_new (we_codec env) ?c = Ok db" "db_inv db" "arrivals db = proposer_genesis ?c # voter_genesis ?c"
    using blockdb_new_inv [of ?c "we_codec env"] by blast
  have graph: "graph_ok env ?bc" by (rule initial_graph_ok [OF wf pos])
  obtain m where m: "miner_new env now = Ok m" "miner_inv env ?bc m" using miner_new_inv [OF graph _ small] pos by auto
  let ?n = "worker_new ?bc db (pool_new mempool_size)"
  have stored: "blockdb_contains h db \<longleftrightarrow> h \<in> genesis_hashes ?c" for h
    using contains_arrivals [OF db(2)] db(3) by (simp add: genesis_hashes_def)
  have sound: "db_sound env db"
    unfolding db_sound_def
  proof (intro allI impI)
    fix h raw
    assume raw: "block_cf db h = Some raw"
    obtain b where "raw = encode (we_codec env) b" using blockdb_new_raw [OF db(1) raw] by blast
    moreover have "h \<in> genesis_hashes ?c" using stored [of h] raw by (simp add: blockdb_contains_def)
    ultimately show "\<exists>b. decode (we_codec env) raw = Some b \<and> (env_hash env b = h \<or> h \<in> genesis_hashes ?c)" using codec by blast
  qed
  have "node_inv env ?n"
    by (rule node_invI) (use graph db(2) sound stored buffer_new_waiting initial_fresh [OF wf pos] buffer_new_inv pool_new_inv in \<open>simp_all add: worker_new_def\<close>)
  moreover have "settled env [] ?n"
    using stored stored_contains by (fastforce simp: settled_def worker_new_def)
  moreover have "signals_ok env (initial_signals env)"
    by (auto simp: signals_ok_def initial_signals_def word_less_nat_alt unat_of_nat)
  ultimately show ?thesis
    using db(1) blockchain_new_state [OF wf] m by (simp add: system_new_def system_inv_def worker_new_def)
qed

section \<open>Steps\<close>

lemma receive_blocks_undecodable:
  assumes env: "env_ok env" and "node_inv env n" and "work_inv env bs n" and "\<exists>raw \<in> set raws. decode (we_codec env) raw = None"
  shows "rfold (receive_block env) raws (bs, n) = Panic UnwrapErr"
  using assms(2-4)
proof (induction raws arbitrary: bs n)
  case (Cons raw raws)
  show ?case
  proof (cases "decode (we_codec env) raw")
    case None
    then show ?thesis by (simp add: receive_block_def unwrap_decode_def)
  next
    case (Some b)
    then obtain bs1 n1 where n1: "receive_block env raw (bs, n) = Ok (bs1, n1)" "node_inv env n1" "work_inv env bs1 n1"
      using receive_block_step [OF env Cons.prems(1,2) Some] by blast
    then show ?thesis using Cons.IH [OF n1(2,3)] Cons.prems(3) Some by auto
  qed
qed simp

lemma worker_step_cases:
  assumes env: "env_ok env" and inv: "node_inv env n"
  shows "if \<exists>msg. we_message env raw = Some msg \<and> decodes env msg
    then \<exists>es n'. worker_step env raw n = Some (Ok (es, n')) \<and> node_inv env n' \<and> grows n n' \<and>
      (settled env [] n \<longrightarrow> settled env [] n') \<and> signals_ok env (sent_signals es)
    else worker_step env raw n = Some (Panic UnwrapErr)"
proof (cases "we_message env raw")
  case None
  then show ?thesis by (simp add: worker_step_def)
next
  case (Some msg)
  show ?thesis
  proof (cases "decodes env msg")
    case True
    then show ?thesis using worker_step_inv [OF env inv Some] Some by auto
  next
    case False
    then obtain raws where raws: "msg = Blocks raws" "\<exists>raw \<in> set raws. decode (we_codec env) raw = None"
      by (auto simp: decodes_def split: message.splits)
    have "node_inv env (record_perf (record_process_message (length raw)) n)" using inv by (simp add: record_perf_inv)
    then have "worker_step env raw n = Some (Panic UnwrapErr)"
      using receive_blocks_undecodable [OF env _ work_inv_Nil raws(2)] Some raws(1)
      by (simp add: worker_step_def handle_message_def handle_blocks_def)
    then show ?thesis using Some False by simp
  qed
qed

lemma signals_ok_append: "signals_ok env (xs @ ys) \<longleftrightarrow> signals_ok env xs \<and> signals_ok env ys"
  by (auto simp: signals_ok_def)

lemma system_step_inv:
  assumes step: "system_step env st s s'" and ok: "setup_ok env" and inv: "system_inv env s"
  shows "system_inv env s' \<and> graph_le (node_chain (sys_node s)) (node_chain (sys_node s'))"
  using step
proof (cases rule: system_step.cases)
  case (message raw es n')
  have env: "env_ok env" using ok by (simp add: setup_ok_def)
  have n: "node_inv env (sys_node s)" using inv by (simp add: system_inv_def)
  have w: "\<exists>msg. we_message env raw = Some msg \<and> decodes env msg"
    using worker_step_cases [OF env n, of raw] message(2) by (auto split: if_splits)
  from worker_step_cases [OF env n, of raw, unfolded if_P [OF w]] show ?thesis
    using message inv miner_inv_grows [of env "node_chain (sys_node s)" "sys_miner s" "node_chain n'"]
    by (auto simp: system_inv_def signals_ok_append grows_def)
next
  case (ledger_update sent n')
  have n: "node_inv env (sys_node s)" using inv by (simp add: system_inv_def)
  have "node_inv env n' \<and> graph_le (node_chain (sys_node s)) (node_chain n') \<and> (settled env [] (sys_node s) \<longrightarrow> settled env [] n')"
    using update_sequence_step [OF n, of st] ledger_update(2) by (auto split: if_splits)
  then show ?thesis
    using ledger_update(1) inv miner_inv_grows [of env "node_chain (sys_node s)" "sys_miner s" "node_chain n'"]
    by (simp add: system_inv_def)
next
  case (mining iter signal rnd now lazy es m' n')
  have set: "env_ok env" "unat (voter_chains (we_config env)) + 2 < 2 ^ 16" "codec_ok (we_codec env)"
    using ok by (simp_all add: setup_ok_def)
  have n: "node_inv env (sys_node s)" "miner_inv env (node_chain (sys_node s)) (sys_miner s)" "signals_ok env (sys_queue s)"
    using inv by (simp_all add: system_inv_def)
  obtain es1 m1 n1 where round: "miner_round env iter signal (sys_queue s) rnd now lazy (sys_miner s, sys_node s) = Ok (es1, m1, n1)"
    "node_inv env n1" "miner_inv env (node_chain n1) m1" "grows (sys_node s) n1" "settled env [] (sys_node s) \<longrightarrow> settled env [] n1"
    "announces env (sys_node s) n1 es1"
    using miner_round_inv [OF set n(1,2) mining(2) n(3) mining(3)] by blast
  then have "es = es1" "m' = m1" "n' = n1" using mining(4) by simp_all
  moreover have "signals_ok env (sent_signals es1)" using announces_signals [OF n(1) round(6)] .
  ultimately show ?thesis using mining(1) round inv by (simp add: system_inv_def signals_ok_append grows_def signals_ok_def)
qed

lemma running_inv: "running env st s \<Longrightarrow> setup_ok env \<Longrightarrow> system_inv env s"
proof (induction rule: running.induct)
  case (start mempool_size now s)
  then show ?case using system_new_inv [of env mempool_size now] by auto
next
  case (continue s s')
  then show ?case using system_step_inv by blast
qed

end
