(* ===== verification/Prism_Node_Safety.thy ===== *)
theory Prism_Node_Safety
  imports Prism_Node
begin

text \<open>
  The properties of a running node: it handles every message and mines without a panic, keeps every valid
  block, announces only blocks that others accept, delivers the transactions of its ledger in order, and
  obtains from another node the blocks it lacks.
\<close>

section \<open>What a round announces\<close>

lemma update_context_difficulty:
  assumes "update_context env iter u n m = Ok m'"
  shows "get_difficulty (we_codec env) (parent (m_header m')) (node_db n) = Ok (difficulty (m_header m'))"
  using assms unfolding update_context_def Let_def by (auto simp: rbind_eq_Ok)

lemma publish_block_effects: "publish_block env h b n = Ok (es, n') \<Longrightarrow> es \<noteq> []"
  by (auto simp: publish_block_def Let_def rbind_eq_Ok)

lemma mine_effects:
  assumes "mine env (m, n) = Ok (es, m', n')"
  shows "es \<noteq> [] \<longleftrightarrow> header_hash (we_keccak env) (we_ser env) (m_header m) < difficulty (m_header m)"
  using assms by (auto simp: mine_def Let_def rbind_eq_Ok dest: publish_block_effects split: if_splits)

lemma miner_round_effects:
  assumes "miner_round env iter signal sigs rnd now lazy (m, n) = Ok (es, m', n')" and "snd (miner_poll signal m)"
  shows "\<exists>hdr. tried_header env iter signal sigs rnd now lazy m n = Ok hdr \<and>
    (es \<noteq> [] \<longleftrightarrow> header_hash (we_keccak env) (we_ser env) hdr < difficulty hdr)"
proof -
  obtain m1 where poll: "miner_poll signal m = (m1, True)" using assms(2) by (cases "miner_poll signal m") simp
  obtain m2 where m2: "update_context env iter (collect_signals sigs) n m1 = Ok m2" "mine env (try_header rnd now lazy m2, n) = Ok (es, m', n')"
    using assms(1) by (auto simp: miner_round_def poll rbind_eq_Ok)
  have "tried_header env iter signal sigs rnd now lazy m n = Ok (m_header (try_header rnd now lazy m2))"
    using m2(1) by (simp add: tried_header_def poll)
  then show ?thesis using mine_effects [OF m2(2)] by blast
qed

section \<open>A concrete node\<close>

definition example_env :: worker_env where
  "example_env = \<lparr>we_keccak = (\<lambda>_. 5), we_ser = enc header_coder, we_crypto = example_crypto, we_codec = concrete_codec,
     we_message = (\<lambda>bs. if bs = [] then None else Some (NewBlockHashes [])), we_iter = sorted_list_of_set, we_config = example_config,
     we_header_size = 144, we_clock = (\<lambda>_. 0), we_db_time = (\<lambda>_. 0)\<rparr>"

lemma example_setup: "setup_ok example_env"
proof -
  have "set_iterator sorted_list_of_set" by (simp add: set_iterator_def)
  then show ?thesis using example_genesis(1) concrete_roundtrip
    by (simp add: setup_ok_def env_ok_def codec_ok_def example_env_def wf_widths_def example_config_def)
qed

lemma example_running: "\<exists>s. system_new example_env 10 0 = Ok s \<and> running example_env st s \<and> system_inv example_env s"
  using system_new_inv [OF example_setup] running.start by blast

lemma default_difficulty: "5 < DEFAULT_DIFFICULTY"
proof -
  have "of_be_bytes (replicate k 255) + 1 = 256 ^ k" for k
  proof (induction k)
    case (Suc k)
    have "replicate (Suc k) 255 = replicate k (255 :: 8 word) @ [255]" by (simp add: replicate_append_same)
    then show ?case using Suc by (simp del: replicate.simps)
  qed simp
  from this [of 32] have "of_be_bytes (replicate 32 255) = 2 ^ 256 - 1" by simp
  then have "unat DEFAULT_DIFFICULTY = 2 ^ 256 - 1"
    unfolding DEFAULT_DIFFICULTY_def h256_from_bytes_def by (simp add: unat_of_nat)
  then show ?thesis by (simp add: word_less_nat_alt)
qed

lemma mining_step:
  assumes inv: "system_inv env s" and ok: "setup_ok env" and iter: "map_iterator iter"
    and new: "\<And>hdr. tried_header env iter signal (sys_queue s) rnd now lazy (sys_miner s) (sys_node s) = Ok hdr \<Longrightarrow>
      new_hash (sys_node s) (header_hash (we_keccak env) (we_ser env) hdr)"
  shows "\<exists>es m' n'. miner_round env iter signal (sys_queue s) rnd now lazy (sys_miner s, sys_node s) = Ok (es, m', n') \<and>
    announces env (sys_node s) n' es \<and>
    graph_le (node_chain (sys_node s)) (node_chain n') \<and> system_step env st s (s\<lparr>sys_node := n', sys_miner := m',
      sys_queue := (if snd (miner_poll signal (sys_miner s)) then [] else sys_queue s) @ sent_signals es\<rparr>)"
proof -
  have set: "env_ok env" "unat (voter_chains (we_config env)) + 2 < 2 ^ 16" "codec_ok (we_codec env)"
    using ok by (simp_all add: setup_ok_def)
  have n: "node_inv env (sys_node s)" "miner_inv env (node_chain (sys_node s)) (sys_miner s)" "signals_ok env (sys_queue s)"
    using inv by (simp_all add: system_inv_def)
  obtain es m' n' where r: "miner_round env iter signal (sys_queue s) rnd now lazy (sys_miner s, sys_node s) = Ok (es, m', n')"
    "grows (sys_node s) n'" "announces env (sys_node s) n' es"
    using miner_round_inv [OF set n(1,2) iter n(3) new] by blast
  then show ?thesis using system_step.mining [OF iter new r(1)] by (auto simp: grows_def)
qed

section \<open>A block mined by the concrete node\<close>

lemma system_new_start:
  assumes ok: "setup_ok env" and new: "system_new env mempool_size now = Ok s"
  shows "new_hash (sys_node s) h \<longleftrightarrow> h \<notin> genesis_hashes (we_config env)" "m_state (sys_miner s) = Paused"
    "\<exists>b. stored (we_codec env) (node_db (sys_node s)) (proposer_genesis (we_config env)) = Some b \<and> difficulty (header b) = DEFAULT_DIFFICULTY"
    "node_chain (sys_node s) = init_state (we_config env) counter_default (unat (voter_chains (we_config env)))"
    "requested_blocks (sys_node s) = {}"
proof -
  let ?c = "we_config env"
  have wf: "wf_genesis ?c" and codec: "\<And>b. decode (we_codec env) (encode (we_codec env) b) = Some b"
    using ok by (auto simp: setup_ok_def codec_ok_def)
  obtain db m where s: "blockdb_new (we_codec env) ?c = Ok db" "miner_new env now = Ok m"
    "s = \<lparr>sys_node = worker_new (init_state ?c counter_default (unat (voter_chains ?c))) db (pool_new mempool_size), sys_miner = m, sys_queue = initial_signals env\<rparr>"
    using new blockchain_new_state [OF wf] by (auto simp: system_new_def rbind_eq_Ok)
  have "distinct (proposer_genesis ?c # voter_genesis ?c)" "length (voter_genesis ?c) = unat (voter_chains ?c)"
    using wf by (simp_all add: wf_genesis_def)
  then have db: "db_inv db" "arrivals db = proposer_genesis ?c # voter_genesis ?c"
    using blockdb_new_inv [of ?c "we_codec env"] s(1) by auto
  have cont: "blockdb_contains h db \<longleftrightarrow> h \<in> genesis_hashes ?c" for h
    using contains_arrivals [OF db(1)] db(2) by (simp add: genesis_hashes_def)
  then show "new_hash (sys_node s) h \<longleftrightarrow> h \<notin> genesis_hashes ?c" by (simp add: new_hash_def s(3) worker_new_def buffer_new_waiting)
  show "m_state (sys_miner s) = Paused" using s(2) by (auto simp: s(3) miner_new_def Let_def rbind_eq_Ok)
  obtain raw where raw: "block_cf db (proposer_genesis ?c) = Some raw"
    using cont [of "proposer_genesis ?c"] by (auto simp: blockdb_contains_def genesis_hashes_def split: option.splits)
  obtain b where "raw = encode (we_codec env) b" "difficulty (header b) = DEFAULT_DIFFICULTY" using blockdb_new_raw [OF s(1) raw] by blast
  then show "\<exists>b. stored (we_codec env) (node_db (sys_node s)) (proposer_genesis ?c) = Some b \<and> difficulty (header b) = DEFAULT_DIFFICULTY"
    using raw codec by (simp add: s(3) worker_new_def stored_def)
  show "node_chain (sys_node s) = init_state ?c counter_default (unat (voter_chains ?c))" by (simp add: s(3) worker_new_def)
  show "requested_blocks (sys_node s) = {}" by (simp add: s(3) worker_new_def)
qed

lemma example_new_hash: "5 \<notin> genesis_hashes example_config"
proof
  assume "5 \<in> genesis_hashes example_config"
  then obtain i where i: "i \<in> {0, 2, 3, 4 :: 16 word}" "index_hash i = 5"
    by (auto simp: genesis_hashes_def example_config_def voter_genesis_hashes_3 index_defs)
  have "unat (5 :: h256) = unat i" unfolding i(2) [symmetric] by (rule unat_index_hash)
  then show False using i(1) by auto
qed

lemma example_hash [simp]: "header_hash (we_keccak example_env) (we_ser example_env) hdr = 5"
  by (simp add: header_hash_def example_env_def)

lemma example_mined:
  "\<exists>s1 es m' s2. running example_env st s1 \<and>
    miner_round example_env id None (sys_queue s1) 7 8 False (sys_miner s1, sys_node s1) = Ok (es, m', sys_node s2) \<and> es \<noteq> [] \<and>
    (\<forall>hdr. new_hash (sys_node s1) (header_hash (we_keccak example_env) (we_ser example_env) hdr)) \<and>
    running example_env st s2 \<and> announces example_env (sys_node s1) (sys_node s2) es \<and>
    graph_le (node_chain (sys_node s1)) (node_chain (sys_node s2)) \<and> voter_tree_inv (node_chain (sys_node s1)) \<and>
    requested_blocks (sys_node s1) = {}"
proof -
  have iter: "map_iterator id" by (simp add: map_iterator_def)
  have conf: "we_config example_env = example_config" by (simp add: example_env_def)
  obtain s0 where s0: "system_new example_env 10 0 = Ok s0" "running example_env st s0" "system_inv example_env s0"
    using example_running by blast
  note st0 = system_new_start [OF example_setup s0(1), unfolded conf]
  have new0: "new_hash (sys_node s0) 5" using st0(1) example_new_hash by simp
  obtain es0 m0 n0 where r0: "miner_round example_env id (Some StepSignal) (sys_queue s0) 0 0 False (sys_miner s0, sys_node s0) = Ok (es0, m0, n0)"
    "system_step example_env st s0 (s0\<lparr>sys_node := n0, sys_miner := m0,
      sys_queue := (if snd (miner_poll (Some StepSignal) (sys_miner s0)) then [] else sys_queue s0) @ sent_signals es0\<rparr>)"
    using mining_step [OF s0(3) example_setup iter, of "Some StepSignal" 0 0 False st] new0 by auto
  then have m0: "m0 = (sys_miner s0)\<lparr>m_state := Step\<rparr>" "n0 = sys_node s0"
    using st0(2) by (simp_all add: miner_round_def miner_poll_def handle_control_signal_def)
  define s1 where "s1 = s0\<lparr>sys_node := n0, sys_miner := m0,
      sys_queue := (if snd (miner_poll (Some StepSignal) (sys_miner s0)) then [] else sys_queue s0) @ sent_signals es0\<rparr>"
  have run1: "running example_env st s1" using running.continue [OF s0(2)] r0(2) by (simp add: s1_def)
  have n1: "sys_node s1 = sys_node s0" "m_state (sys_miner s1) = Step" by (simp_all add: s1_def m0)
  have inv1: "system_inv example_env s1" by (rule running_inv [OF run1 example_setup])
  have new1: "new_hash (sys_node s1) 5" using new0 n1 by simp
  obtain es m' n' where r1: "miner_round example_env id None (sys_queue s1) 7 8 False (sys_miner s1, sys_node s1) = Ok (es, m', n')"
    "announces example_env (sys_node s1) n' es" "graph_le (node_chain (sys_node s1)) (node_chain n')"
    "system_step example_env st s1 (s1\<lparr>sys_node := n', sys_miner := m',
      sys_queue := (if snd (miner_poll None (sys_miner s1)) then [] else sys_queue s1) @ sent_signals es\<rparr>)"
    using mining_step [OF inv1 example_setup iter, of None 7 8 False st] new1 by auto
  have poll: "miner_poll None (sys_miner s1) = (sys_miner s1, True)" using n1(2) by (simp add: miner_poll_def)
  then obtain m2 where m2: "update_context example_env id (collect_signals (sys_queue s1)) (sys_node s1) (sys_miner s1) = Ok m2"
    "mine example_env (try_header 7 8 False m2, sys_node s1) = Ok (es, m', n')"
    using r1(1) by (auto simp: miner_round_def rbind_eq_Ok)
  have inv: "node_inv example_env (sys_node s1)" "miner_inv example_env (node_chain (sys_node s1)) (sys_miner s1)" "signals_ok example_env (sys_queue s1)"
    using inv1 by (simp_all add: system_inv_def)
  have "best_proposer (node_chain (sys_node s1)) = Ok (parent (m_header m2))"
  proof -
    have env: "env_ok example_env" using example_setup by (simp add: setup_ok_def)
    have "\<forall>k \<in> new_voter_block (collect_signals (sys_queue s1)). unat k < num_chains (node_chain (sys_node s1))"
      using inv(3) node_invD(10) [OF inv(1)] by (simp add: collect_signals_voter signals_ok_def graph_ok_def word_less_nat_alt)
    from update_context_inv [OF env inv(1,2) iter this] show ?thesis using m2(1) by auto
  qed
  moreover have "best_proposer (node_chain (sys_node s1)) = Ok (proposer_genesis example_config)"
    using example_start_simps(4,5) by (simp add: n1 st0(4) best_proposer_def rnth_def)
  ultimately have "parent (m_header m2) = proposer_genesis example_config" by simp
  then have "get_difficulty (we_codec example_env) (proposer_genesis example_config) (node_db (sys_node s0)) = Ok (difficulty (m_header m2))"
    using update_context_difficulty [OF m2(1)] n1 by simp
  then have "difficulty (m_header m2) = DEFAULT_DIFFICULTY"
    using st0(3) by (auto simp: get_difficulty_def blockdb_get_def stored_def unwrap_decode_def split: option.splits)
  then have "es \<noteq> []" using mine_effects [OF m2(2)] default_difficulty by (simp add: try_header_def)
  moreover have "voter_tree_inv (node_chain (sys_node s1))"
    using node_invD(1) [OF inv(1)] by (simp add: full_inv_def chain_inv_def voter_inv_def)
  moreover have "running example_env st (s1\<lparr>sys_node := n', sys_miner := m',
      sys_queue := (if snd (miner_poll None (sys_miner s1)) then [] else sys_queue s1) @ sent_signals es\<rparr>)"
    using running.continue [OF run1 r1(4)] .
  moreover have "requested_blocks (sys_node s1) = {}" using st0(5) n1 by simp
  ultimately show ?thesis using run1 r1(1-3) new1
    by (intro exI [of _ s1] exI [of _ es] exI [of _ m'] exI [of _ "s1\<lparr>sys_node := n', sys_miner := m',
      sys_queue := (if snd (miner_poll None (sys_miner s1)) then [] else sys_queue s1) @ sent_signals es\<rparr>"]) simp
qed

lemma accepted_le:
  assumes "graph_le bc bc'" and "voter_tree_inv bc" and "accepted env bc b"
  shows "accepted env bc' b"
  using assms(3) graph_le_available [OF assms(1), of b] semantic_le [OF assms(1,2), of b] by (auto simp: accepted_def)

text \<open>A hash below every proposer share is never that of a transaction block.\<close>

lemma example_no_transactions:
  assumes "accepted example_env bc b"
  shows "signatures_ok (we_crypto example_env) (content b)"
proof (cases "content b")
  case (Transaction t)
  let ?d = "difficulty (header b)"
  have wf: "wf_widths example_config" using example_setup by (simp add: setup_ok_def env_ok_def example_env_def)
  have "sortition_class example_config 5 ?d \<noteq> Some 1"
    by (cases "multiplier example_config ?d")
      (simp_all add: sortition_class_def proposer_bound_def transaction_bound_def example_config_def)
  moreover obtain y where y: "sortition_class example_config 5 ?d = Some y" "(word_of_nat y :: 16 word) = 1"
    using assms Transaction
    by (auto simp: accepted_def check_pow_sortition_id_def block_hash_def header_hash_def example_env_def sortition_hash_class [OF wf]
        index_defs split: option.splits if_splits)
  moreover have "y < 5" using sortition_class_less [OF wf y(1)] by (simp add: example_config_def)
  then have "(word_of_nat y :: 16 word) = 1 \<longleftrightarrow> y = 1" by (simp add: word_unat_eq_iff unat_of_nat)
  ultimately have False by simp
  then show ?thesis ..
qed (simp_all add: signatures_ok_def)

section \<open>Blocks that reach a node\<close>

lemma settled_inserted:
  assumes inv: "node_inv env n" "settled env [] n"
    and h: "stored (we_codec env) (node_db n) h = Some b" "h \<notin> genesis_hashes (we_config env)"
    and valid: "check_data_availability b (node_chain n) = Pass"
      "check_sortition_proof (we_keccak env) (we_ser env) b (we_config env) = Ok Pass"
      "check_content_semantic (we_crypto env) b (node_chain n) = Ok Pass"
  shows "\<not> fresh (node_chain n) h"
  using inv(2) h(1)
proof (cases rule: settledE)
  case 3
  then obtain b' D where w: "waiting (node_buffer n) h = Some (b', D)" by auto
  then have "b' = b" using node_invD(7,8) [OF inv(1) w] h(1) by (simp add: pending_ok_def)
  then have "D = {}" using node_invD(9) [OF inv(1) w] valid(1) by (simp add: missing_refs_def)
  then show ?thesis using waiting_nonempty [OF node_invD(3) [OF inv(1)] w] by simp
qed (use h(2) valid in \<open>auto simp: rejected_def\<close>)

lemma handle_blocks_one:
  assumes env: "env_ok env" and inv: "node_inv env n" "settled env [] n" and dec: "decode (we_codec env) raw = Some b"
    and pow: "check_pow_sortition_id (we_keccak env) (we_ser env) b (we_config env) = Ok Pass"
    and new: "\<not> blockdb_contains (env_hash env b) (node_db n)"
  shows "\<exists>es n'. handle_blocks env [raw] n = Some (Ok (Broadcast (NewBlockHashes [env_hash env b]) # es, n')) \<and> node_inv env n' \<and>
    grows n n' \<and> settled env [] n' \<and> stored (we_codec env) (node_db n') (env_hash env b) = Some b"
proof -
  obtain n1 where n1: "receive_block env raw ([], n) = Ok ([b], n1)" "node_inv env n1" "work_inv env [b] n1" "grows n n1"
    "settled env [b] n1" "block_cf (node_db n1) (env_hash env b) = Some raw"
    using receive_block_step [OF env inv(1) work_inv_Nil dec] inv(2) pow new by auto
  let ?n2 = "fold (\<lambda>b. record_perf (record_receive_block (we_clock env b) b)) [b] n1"
  have n2: "node_inv env ?n2" "work_inv env [b] ?n2" "later n1 ?n2" "settled env [b] ?n2 = settled env [b] n1"
    using record_blocks_inv [OF n1(2,3)] by blast+
  obtain w n3 where n3: "process_loop env \<lparr>to_process = [b], to_request = [], signals = []\<rparr> ?n2 = Some (Ok (w, n3))" "node_inv env n3" "later ?n2 n3"
    "settled env [b] ?n2 \<longrightarrow> settled env [] n3"
    using process_loop_returns [OF env n2(1), of "\<lparr>to_process = [b], to_request = [], signals = []\<rparr>"] n2(2) by (auto simp: signals_ok_def)
  have "grows n n3" using grows_trans [OF n1(4)] later_grows later_trans n2(3) n3(3) by blast
  moreover have "node_db n3 = node_db n1" using n2(3) n3(3) by (simp add: later_def)
  ultimately show ?thesis using n1(1,5,6) n2(4) n3 dec by (simp add: handle_blocks_def stored_def)
qed

lemma example_spread:
  obtains s1 s2 :: system and b where "running example_env example_statistics s2"
    "graph_le (node_chain (sys_node s1)) (node_chain (sys_node s2))" "voter_tree_inv (node_chain (sys_node s1))"
    "accepted example_env (node_chain (sys_node s1)) b" "stored (we_codec example_env) (node_db (sys_node s2)) (env_hash example_env b) = Some b"
    "running example_env example_statistics s1" "\<not> blockdb_contains 5 (node_db (sys_node s1))" "requested_blocks (sys_node s1) = {}"
proof -
  obtain s1 :: system and es s2 where m: "es \<noteq> []" "running example_env example_statistics s2" "announces example_env (sys_node s1) (sys_node s2) es"
    "graph_le (node_chain (sys_node s1)) (node_chain (sys_node s2))" "voter_tree_inv (node_chain (sys_node s1))"
    "running example_env example_statistics s1" "new_hash (sys_node s1) 5" "requested_blocks (sys_node s1) = {}"
    using example_mined [of example_statistics] by auto
  then show ?thesis using that unfolding announces_def new_hash_def by blast
qed

lemma example_env_hash: "env_hash example_env b = 5"
  by (simp add: block_hash_def example_env_def header_hash_def)

section \<open>Safety\<close>



text \<open>C2: no valid block is lost. In a running node every stored block, but for the genesis blocks, whose
  references are in the graph and that passes the sortition proof and the content checks has been
  inserted into the block graph.\<close>

theorem no_block_lost:
  assumes "running env st s" and "setup_ok env" and n: "n = sys_node s"
    and h: "stored (we_codec env) (node_db n) h = Some b" "h \<notin> genesis_hashes (we_config env)"
    and valid: "check_data_availability b (node_chain n) = Pass"
      "check_sortition_proof (we_keccak env) (we_ser env) b (we_config env) = Ok Pass"
      "check_content_semantic (we_crypto env) b (node_chain n) = Ok Pass"
  shows "\<not> fresh (node_chain n) h"
proof -
  have inv: "node_inv env n" "settled env [] n" using running_inv [OF assms(1,2)] n by (simp_all add: system_inv_def)
  show ?thesis by (rule settled_inserted [OF inv h valid])
qed

theorem no_block_lost_witness:
  "\<exists>s b. running example_env example_statistics s \<and> stored concrete_codec (node_db (sys_node s)) 5 = Some b \<and>
    \<not> fresh (node_chain (sys_node s)) 5"
proof -
  obtain s1 :: system and s2 b where s: "running example_env example_statistics s2" "graph_le (node_chain (sys_node s1)) (node_chain (sys_node s2))"
    "voter_tree_inv (node_chain (sys_node s1))" "accepted example_env (node_chain (sys_node s1)) b"
    "stored (we_codec example_env) (node_db (sys_node s2)) (env_hash example_env b) = Some b"
    by (rule example_spread) (rule that)
  note acc = accepted_le [OF s(2-4)]
  have "check_content_semantic (we_crypto example_env) b (node_chain (sys_node s2)) = Ok Pass"
    using acc example_no_transactions [OF acc] by (simp add: accepted_def)
  moreover have "env_hash example_env b \<notin> genesis_hashes (we_config example_env)"
    using example_new_hash by (simp add: example_env_def block_hash_def header_hash_def)
  ultimately have "\<not> fresh (node_chain (sys_node s2)) (env_hash example_env b)"
    using no_block_lost [OF s(1) example_setup refl s(5)] acc by (simp add: accepted_def)
  then show ?thesis using s(1,5) by (auto simp: block_hash_def example_env_def header_hash_def)
qed





section \<open>The ledger manager\<close>



text \<open>C32: what a proposer block refers to as transaction blocks is only checked to be in the graph. In a running
  node a proposer block on any known parent whose only reference is to any block that has a parent, be it a
  proposer or a voter block, passes the availability and the content checks; the ledger manager panics when it
  confirms such a reference to a block that is neither lazy nor a transaction block.\<close>

theorem transaction_reference_unchecked:
  assumes run: "running env st s" and ok: "setup_ok env" and n: "n = sys_node s"
    and b: "content b = Proposer \<lparr>transaction_refs = [h], proposer_refs = []\<rparr>" "contains_proposer (parent (header b)) (node_chain n)"
    and h: "parent_neighbor_cf (node_chain n) h \<noteq> None"
  shows "check_data_availability b (node_chain n) = Pass \<and> check_content_semantic (we_crypto env) b (node_chain n) = Ok Pass \<and>
    (\<exists>r. stored (we_codec env) (node_db n) h = Some r \<and>
      (confirm_block env h (sent, n) = Panic UnreachableCode \<longleftrightarrow> extra_content (header r) \<noteq> LAZY_ANNOTATION \<and> (\<nexists>c. content r = Transaction c)))"
proof -
  have inv: "node_inv env n" using running_inv [OF run ok] n by (simp add: system_inv_def)
  have "blockdb_contains h (node_db n)" using node_invD(6) [OF inv, of h] h by (simp add: fresh_def)
  then obtain raw r where r: "block_cf (node_db n) h = Some raw" "decode (we_codec env) raw = Some r"
    using node_invD(11) [OF inv] unfolding db_sound_def by (auto simp: blockdb_contains_def split: option.splits)
  have "confirm_block env h (sent, n) = Panic UnreachableCode \<longleftrightarrow> extra_content (header r) \<noteq> LAZY_ANNOTATION \<and> (\<nexists>c. content r = Transaction c)"
    using r by (auto simp: confirm_block_def blockdb_get_def unwrap_decode_def Let_def split: content.splits)
  moreover have "check_data_availability b (node_chain n) = Pass"
    using b h by (simp add: availability_Pass contains_transaction_def)
  moreover have "check_content_semantic (we_crypto env) b (node_chain n) = Ok Pass"
    using b by (auto simp: check_content_semantic_def check_ref_proposer_level_def proposer_level_def contains_proposer_def)
  ultimately show ?thesis using r by (simp add: stored_def)
qed

theorem transaction_reference_unchecked_witness:
  "\<exists>s v. running example_env example_statistics s \<and> contains_voter v (node_chain (sys_node s)) \<and>
    check_data_availability (block_new (proposer_genesis example_config) 0 0 0 [] (Proposer \<lparr>transaction_refs = [v], proposer_refs = []\<rparr>) [] 0)
      (node_chain (sys_node s)) = Pass"
proof -
  let ?v = "voter_genesis_hashes 3 ! 0"
  let ?b = "block_new (proposer_genesis example_config) 0 0 0 [] (Proposer \<lparr>transaction_refs = [?v], proposer_refs = []\<rparr>) [] 0"
  obtain s where s: "system_new example_env 10 0 = Ok s" "running example_env example_statistics s"
    using example_running by blast
  have bc: "node_chain (sys_node s) = example_start"
    using system_new_start(4) [OF example_setup s(1)] by (simp add: example_env_def example_start_def example_config_def)
  have b: "content ?b = Proposer \<lparr>transaction_refs = [?v], proposer_refs = []\<rparr>" "contains_proposer (parent (header ?b)) (node_chain (sys_node s))"
    by (simp_all add: bc block_new_def header_new_def contains_proposer_def example_start_level example_config_def)
  have "parent_neighbor_cf (node_chain (sys_node s)) ?v \<noteq> None" "contains_voter ?v (node_chain (sys_node s))"
    unfolding bc example_start_level contains_voter_def vmap_None by (auto intro!: exI [of _ 0])
  then show ?thesis using transaction_reference_unchecked [OF s(2) example_setup refl b] s(2) by blast
qed

end
