(* ===== verification/Prism_Peer.thy ===== *)
theory Prism_Peer
  imports Prism_Hash "HOL-Library.Sublist"
begin

text \<open>
  The connection to a peer (\<open>network/peer.rs\<close>): messages are framed by their length in four big-endian
  bytes. The reader collects a length and then a payload from whatever pieces the socket yields; the writer
  hands a socket as much as it takes and goes on later. The loop of the reader is the one of
  \<open>process_readable\<close> in \<open>network/server.rs\<close>. A link of a writer and a reader delivers what was sent, in order.
\<close>

section \<open>The socket\<close>

text \<open>A read from the buffered socket yields at least one and at most the wanted number of the bytes that have
  arrived; how many is up to the system, here a function of what is left to read. Without any, the socket would
  block, is closed by the peer, or failed.\<close>

datatype io_error = WouldBlock | OtherError

datatype stream_end = Open | Closed | Failed

definition reader_read :: "(bytes \<Rightarrow> nat) \<Rightarrow> stream_end \<Rightarrow> nat \<Rightarrow> bytes \<Rightarrow> io_error + bytes" where
  "reader_read grant e want s =
     (if s = [] then (case e of Open \<Rightarrow> Inl WouldBlock | Closed \<Rightarrow> Inr [] | Failed \<Rightarrow> Inl OtherError)
      else Inr (take (min want (max 1 (grant s))) s))"

text \<open>A write takes a prefix, none when the connection is closed, or fails. The answer is a function of what has
  been written before.\<close>

definition writer_write :: "(bytes \<Rightarrow> io_error + nat) \<Rightarrow> bytes \<Rightarrow> bytes \<Rightarrow> io_error + bytes" where
  "writer_write accept out bs = (case accept out of Inl e \<Rightarrow> Inl e | Inr k \<Rightarrow> Inr (take k bs))"

section \<open>Reading\<close>

datatype decode_state = DecodeLength | DecodePayload

datatype read_result = ReadContinue | ReadMessage bytes | ReadEOF

record read_context =
  rc_buffer :: bytes
  rc_msg_length :: nat
  rc_read_length :: nat
  rc_state :: decode_state

definition reader_new :: read_context where
  "reader_new = \<lparr>rc_buffer = replicate 4 0, rc_msg_length = 4, rc_read_length = 0, rc_state = DecodeLength\<rparr>"

text \<open>The buffer is filled: process it.\<close>

definition process_buffer :: "read_context \<Rightarrow> (read_result \<times> read_context) res" where
  "process_buffer c =
     (case rc_state c of
        DecodeLength \<Rightarrow>
          if length (rc_buffer c) < 4 then Panic OutOfBounds
          else
            let n = of_be_bytes (take 4 (rc_buffer c)) in
            Ok (ReadContinue, c\<lparr>rc_state := DecodePayload, rc_read_length := 0, rc_msg_length := n,
              rc_buffer := (if length (rc_buffer c) < n then rc_buffer c @ replicate (n - length (rc_buffer c)) 0 else rc_buffer c)\<rparr>)
      | DecodePayload \<Rightarrow>
          Ok (ReadMessage (take (rc_msg_length c) (rc_buffer c)), c\<lparr>rc_state := DecodeLength, rc_read_length := 0, rc_msg_length := 4\<rparr>))"

definition peer_read ::
  "(bytes \<Rightarrow> nat) \<Rightarrow> stream_end \<Rightarrow> read_context \<Rightarrow> bytes \<Rightarrow> ((io_error + read_result) \<times> read_context \<times> bytes) res" where
  "peer_read grant e c s =
     (if rc_msg_length c < rc_read_length c \<or> length (rc_buffer c) < rc_msg_length c then Panic OutOfBounds
      else (case reader_read grant e (rc_msg_length c - rc_read_length c) s of
              Inl err \<Rightarrow> Ok (Inl err, c, s)
            | Inr bs \<Rightarrow>
                if bs = [] then Ok (Inr ReadEOF, c, s)
                else
                  let r = rc_read_length c;
                      c1 = c\<lparr>rc_buffer := take r (rc_buffer c) @ bs @ drop (r + length bs) (rc_buffer c),
                             rc_read_length := r + length bs\<rparr>;
                      s1 = drop (length bs) s
                  in if rc_read_length c1 = rc_msg_length c1
                     then rbind (process_buffer c1) (\<lambda>(res, c2). Ok (Inr res, c2, s1))
                     else Ok (Inr ReadContinue, c1, s1)))"

text \<open>Reading until the socket would block. The result is the received messages, and the context when the peer
  stays connected.\<close>

lemma peer_read_consumes:
  "peer_read grant e c s = Ok (Inr r, c', s') \<Longrightarrow> r \<noteq> ReadEOF \<Longrightarrow> length s' < length s"
  by (auto simp: peer_read_def reader_read_def Let_def rbind_eq_Ok split: if_splits sum.splits stream_end.splits)

function read_loop ::
  "(bytes \<Rightarrow> nat) \<Rightarrow> stream_end \<Rightarrow> read_context \<Rightarrow> bytes \<Rightarrow> bytes list \<Rightarrow> (bytes list \<times> read_context option \<times> bytes) res" where
  "read_loop grant e c s ms =
     (case peer_read grant e c s of
        Panic p \<Rightarrow> Panic p
      | Ok (Inr ReadEOF, c1, s1) \<Rightarrow> Ok (ms, None, s1)
      | Ok (Inr ReadContinue, c1, s1) \<Rightarrow> read_loop grant e c1 s1 ms
      | Ok (Inr (ReadMessage m), c1, s1) \<Rightarrow> read_loop grant e c1 s1 (ms @ [m])
      | Ok (Inl WouldBlock, c1, s1) \<Rightarrow> Ok (ms, Some c1, s1)
      | Ok (Inl OtherError, c1, s1) \<Rightarrow> Ok (ms, None, s1))"
  by pat_completeness auto
termination
  by (relation "measure (\<lambda>(grant, e, c, s, ms). length s)") (auto dest: peer_read_consumes)

declare read_loop.simps [simp del]

section \<open>Writing\<close>

datatype write_state = WriteLength | WritePayload

datatype write_result = WriteComplete | WriteEOF | WriteChanClosed

record write_context =
  wc_len_buffer :: bytes
  wc_msg_buffer :: bytes
  wc_msg_length :: nat
  wc_written_length :: nat
  wc_state :: write_state

definition writer_new :: write_context where
  "writer_new = \<lparr>wc_len_buffer = replicate 4 0, wc_msg_buffer = [], wc_msg_length = 0, wc_written_length = 0, wc_state = WritePayload\<rparr>"

definition next_message :: "bytes \<Rightarrow> write_context \<Rightarrow> write_context" where
  "next_message m c = c\<lparr>wc_msg_buffer := m, wc_msg_length := length m,
     wc_len_buffer := be_bytes 4 (length m mod 2 ^ 32), wc_written_length := 0, wc_state := WriteLength\<rparr>"

text \<open>One round of the loop: it ends with a result, or goes on with a new state.\<close>

datatype ('r, 's) round = Return 'r | Again 's

definition write_round ::
  "(bytes \<Rightarrow> io_error + nat) \<Rightarrow> (bytes \<Rightarrow> io_error option) \<Rightarrow> bool \<Rightarrow> write_context \<times> bytes list \<times> bytes \<Rightarrow>
   (io_error + write_result, write_context \<times> bytes list \<times> bytes) round res" where
  "write_round accept flush closed st =
     (case st of (c, queue, out) \<Rightarrow>
      let sent = (\<lambda>bs. case writer_write accept out bs of
                    Inl e \<Rightarrow> Ok (Return (Inl e))
                  | Inr w \<Rightarrow> if w = [] then Ok (Return (Inr WriteEOF))
                             else Ok (Again (c\<lparr>wc_written_length := wc_written_length c + length w\<rparr>, queue, out @ w))) in
      (case wc_state c of
         WriteLength \<Rightarrow>
           if wc_written_length c = 4 then Ok (Again (c\<lparr>wc_written_length := 0, wc_state := WritePayload\<rparr>, queue, out))
           else if 4 < wc_written_length c then Panic OutOfBounds
           else sent (drop (wc_written_length c) (wc_len_buffer c))
       | WritePayload \<Rightarrow>
           if wc_written_length c = wc_msg_length c
           then (case flush out of
                   Some e \<Rightarrow> Ok (Return (Inl e))
                 | None \<Rightarrow> (case queue of
                              [] \<Rightarrow> Ok (Return (Inr (if closed then WriteChanClosed else WriteComplete)))
                            | m # queue1 \<Rightarrow> Ok (Again (next_message m c, queue1, out))))
           else if wc_msg_length c < wc_written_length c \<or> length (wc_msg_buffer c) < wc_msg_length c then Panic OutOfBounds
           else sent (drop (wc_written_length c) (take (wc_msg_length c) (wc_msg_buffer c)))))"

definition write_work :: "write_context \<times> bytes list \<times> bytes \<Rightarrow> nat" where
  "write_work st = (case st of (c, queue, out) \<Rightarrow> sum_list (map (\<lambda>m. length m + 7) queue) +
     (case wc_state c of WriteLength \<Rightarrow> (4 - wc_written_length c) + wc_msg_length c + 2
                       | WritePayload \<Rightarrow> wc_msg_length c - wc_written_length c))"

lemma write_round_progress: "write_round accept flush closed st = Ok (Again st') \<Longrightarrow> write_work st' < write_work st"
  by (cases st) (auto simp: write_round_def write_work_def writer_write_def next_message_def Let_def
      split: write_state.splits sum.splits if_splits option.splits list.splits)

function peer_write ::
  "(bytes \<Rightarrow> io_error + nat) \<Rightarrow> (bytes \<Rightarrow> io_error option) \<Rightarrow> bool \<Rightarrow> write_context \<times> bytes list \<times> bytes \<Rightarrow>
   ((io_error + write_result) \<times> write_context \<times> bytes list \<times> bytes) res" where
  "peer_write accept flush closed st =
     (case write_round accept flush closed st of
        Panic p \<Rightarrow> Panic p
      | Ok (Return r) \<Rightarrow> Ok (r, st)
      | Ok (Again st1) \<Rightarrow> peer_write accept flush closed st1)"
  by pat_completeness auto
termination
  by (relation "measure (\<lambda>(accept, flush, closed, st). write_work st)") (auto dest: write_round_progress)

declare peer_write.simps [simp del]

section \<open>The stream of frames\<close>

definition frame :: "bytes \<Rightarrow> bytes" where
  "frame m = be_bytes 4 (length m mod 2 ^ 32) @ m"

definition frames :: "bytes list \<Rightarrow> bytes" where
  "frames ms = concat (map frame ms)"

text \<open>What a stream holds: the messages in full, the rest, and whether a reader stops at an empty message that
  more bytes follow.\<close>

function parse :: "bytes \<Rightarrow> bytes list \<times> bytes \<times> bool" where
  "parse s =
     (let n = of_be_bytes (take 4 s) in
      if length s < 4 then ([], s, False)
      else if n = 0 then ([], s, length s \<noteq> 4)
      else if length s < 4 + n then ([], s, False)
      else (case parse (drop (4 + n) s) of (ms, rest, stuck) \<Rightarrow> (take n (drop 4 s) # ms, rest, stuck)))"
  by pat_completeness auto
termination
  by (relation "measure length") auto

declare parse.simps [simp del]

definition sendable :: "bytes \<Rightarrow> bool" where
  "sendable m \<longleftrightarrow> m \<noteq> [] \<and> length m < 2 ^ 32"

lemma parse_frame:
  assumes "sendable m"
  shows "parse (frame m @ s) = (case parse s of (ms, rest, stuck) \<Rightarrow> (m # ms, rest, stuck))"
proof -
  have "of_be_bytes (be_bytes 4 (length m)) = length m" using assms by (simp add: of_be_be_bytes sendable_def)
  then show ?thesis using assms by (subst parse.simps) (simp add: frame_def sendable_def)
qed

lemma parse_frames:
  assumes "\<forall>m \<in> set ms. sendable m"
  shows "parse (frames ms @ s) = (case parse s of (ms', rest, stuck) \<Rightarrow> (ms @ ms', rest, stuck))"
  using assms by (induction ms) (simp_all add: frames_def parse_frame split: prod.splits)

text \<open>Part of a frame parses to nothing.\<close>

lemma parse_partial:
  assumes "sendable m" and "strict_prefix p (frame m)"
  shows "parse p = ([], p, False)"
proof -
  have "length p < 4 + length m" using prefix_length_less [OF assms(2)] by (simp add: frame_def)
  moreover have "of_be_bytes (take 4 p) = length m" if "4 \<le> length p"
  proof -
    obtain q where "frame m = p @ q" using assms(2) by (auto simp: strict_prefix_def prefix_def)
    then have "take 4 p = take 4 (frame m)" using that by simp
    then show ?thesis using assms(1) by (simp add: frame_def of_be_be_bytes sendable_def)
  qed
  ultimately show ?thesis using assms(1) by (subst parse.simps) (auto simp: Let_def sendable_def)
qed

section \<open>The reader parses the stream\<close>

definition reader_ok :: "read_context \<Rightarrow> bool" where
  "reader_ok c \<longleftrightarrow> rc_msg_length c \<le> length (rc_buffer c) \<and> 4 \<le> length (rc_buffer c) \<and>
     (case rc_state c of
        DecodeLength \<Rightarrow> rc_msg_length c = 4 \<and> rc_read_length c < 4
      | DecodePayload \<Rightarrow> rc_msg_length c < 2 ^ 32 \<and> (rc_read_length c < rc_msg_length c \<or> rc_read_length c = 0 \<and> rc_msg_length c = 0))"

text \<open>The bytes of the current frame that the reader has taken from the stream.\<close>

definition received :: "read_context \<Rightarrow> bytes" where
  "received c =
     (case rc_state c of
        DecodeLength \<Rightarrow> take (rc_read_length c) (rc_buffer c)
      | DecodePayload \<Rightarrow> be_bytes 4 (rc_msg_length c) @ take (rc_read_length c) (rc_buffer c))"

lemma reader_new_ok [simp]: "reader_ok reader_new" "received reader_new = []"
  by (simp_all add: reader_ok_def received_def reader_new_def)

lemma parse_received: "reader_ok c \<Longrightarrow> parse (received c) = ([], received c, False)"
  by (subst parse.simps) (auto simp: reader_ok_def received_def of_be_be_bytes Let_def split: decode_state.splits)

lemma parse_stuck: "s \<noteq> [] \<Longrightarrow> parse (be_bytes 4 0 @ s) = ([], be_bytes 4 0 @ s, True)"
  by (subst parse.simps) (simp add: of_be_be_bytes)

lemma process_buffer_step:
  assumes ok: "rc_msg_length c \<le> length (rc_buffer c)" "4 \<le> length (rc_buffer c)" and full: "rc_read_length c = rc_msg_length c"
    and st: "rc_state c = DecodeLength \<and> rc_msg_length c = 4 \<or> rc_state c = DecodePayload \<and> 0 < rc_msg_length c \<and> rc_msg_length c < 2 ^ 32"
  shows "\<exists>r c'. process_buffer c = Ok (r, c') \<and> reader_ok c' \<and>
    (r = ReadContinue \<and> received c' = received c \<or> (\<exists>m. r = ReadMessage m \<and> sendable m \<and> received c = frame m \<and> received c' = []))"
  using st
proof (elim disjE conjE)
  assume s: "rc_state c = DecodeLength" "rc_msg_length c = 4"
  let ?n = "of_be_bytes (take 4 (rc_buffer c))"
  have "length (take 4 (rc_buffer c)) = 4" using ok s by simp
  then have "?n < 2 ^ 32" "be_bytes 4 ?n = take 4 (rc_buffer c)"
    using of_be_bytes_bound [of "take 4 (rc_buffer c)"] be_of_be_bytes [of "take 4 (rc_buffer c)"] by simp_all
  then show ?thesis using s ok full by (auto simp: process_buffer_def reader_ok_def received_def Let_def)
next
  assume s: "rc_state c = DecodePayload" "0 < rc_msg_length c" "rc_msg_length c < 2 ^ 32"
  then show ?thesis using ok full
    by (auto simp: process_buffer_def reader_ok_def received_def sendable_def frame_def min_absorb2)
qed

lemma peer_read_step:
  assumes ok: "reader_ok c" and s: "s \<noteq> []" and len: "received c \<noteq> be_bytes 4 0"
  shows "\<exists>r c' bs s'. s = bs @ s' \<and> bs \<noteq> [] \<and> peer_read grant e c s = Ok (Inr r, c', s') \<and> reader_ok c' \<and>
    (r = ReadContinue \<and> received c' = received c @ bs \<or>
     (\<exists>m. r = ReadMessage m \<and> sendable m \<and> received c @ bs = frame m \<and> received c' = []))"
proof -
  let ?r = "rc_read_length c" and ?want = "rc_msg_length c - rc_read_length c"
  define bs where "bs = take (min ?want (max 1 (grant s))) s"
  have pos: "0 < ?want"
    using ok len by (cases "rc_state c") (auto simp: reader_ok_def received_def)
  have bs: "bs \<noteq> []" "length bs \<le> ?want" "s = bs @ drop (length bs) s"
    using s pos append_take_drop_id [of "min ?want (max 1 (grant s))" s] by (auto simp: bs_def min_def split: if_splits)
  have le: "?r < rc_msg_length c" "rc_msg_length c \<le> length (rc_buffer c)" using ok pos by (auto simp: reader_ok_def)
  define c1 where "c1 = c\<lparr>rc_buffer := take ?r (rc_buffer c) @ bs @ drop (?r + length bs) (rc_buffer c), rc_read_length := ?r + length bs\<rparr>"
  have c1: "length (rc_buffer c1) = length (rc_buffer c)" "rc_msg_length c1 = rc_msg_length c" "rc_state c1 = rc_state c"
    "rc_read_length c1 = ?r + length bs" using le bs(2) by (simp_all add: c1_def)
  have rec: "received c1 = received c @ bs" using le by (simp add: received_def c1_def split: decode_state.splits)
  have rd: "reader_read grant e ?want s = Inr bs" using s by (simp add: reader_read_def bs_def)
  have run: "peer_read grant e c s = (if rc_read_length c1 = rc_msg_length c1
      then rbind (process_buffer c1) (\<lambda>(res, c2). Ok (Inr res, c2, drop (length bs) s)) else Ok (Inr ReadContinue, c1, drop (length bs) s))"
    using le bs(1) unfolding peer_read_def rd by (simp add: c1_def Let_def)
  show ?thesis
  proof (cases "rc_read_length c1 = rc_msg_length c1")
    case True
    have st: "rc_state c1 = DecodeLength \<and> rc_msg_length c1 = 4 \<or>
        rc_state c1 = DecodePayload \<and> 0 < rc_msg_length c1 \<and> rc_msg_length c1 < 2 ^ 32"
      using ok c1(2,3) le(1) by (cases "rc_state c") (auto simp: reader_ok_def)
    have "rc_msg_length c1 \<le> length (rc_buffer c1)" "4 \<le> length (rc_buffer c1)" using ok le(2) c1(1,2) by (simp_all add: reader_ok_def)
    from process_buffer_step [OF this True st] obtain r c' where p: "process_buffer c1 = Ok (r, c')" "reader_ok c'"
      "r = ReadContinue \<and> received c' = received c1 \<or> (\<exists>m. r = ReadMessage m \<and> sendable m \<and> received c1 = frame m \<and> received c' = [])" by blast
    have "peer_read grant e c s = Ok (Inr r, c', drop (length bs) s)" using run True p(1) by simp
    then show ?thesis using bs p(2,3) unfolding rec by blast
  next
    case False
    then have "reader_ok c1" using ok c1 le bs(2) by (auto simp: reader_ok_def split: decode_state.splits)
    then show ?thesis using run False bs rec by auto
  qed
qed

lemma read_loop_parses:
  assumes "reader_ok c" and "parse (received c @ s) = (ms', rest, stuck)"
  shows "if e = Open \<and> \<not> stuck
    then \<exists>c'. read_loop grant e c s ms = Ok (ms @ ms', Some c', []) \<and> reader_ok c' \<and> received c' = rest
    else \<exists>s'. read_loop grant e c s ms = Ok (ms @ ms', None, s')"
  using assms
proof (induction "length s" arbitrary: c s ms ms' rule: less_induct)
  case less
  have in_range: "\<not> (rc_msg_length c < rc_read_length c \<or> length (rc_buffer c) < rc_msg_length c)"
    using less.prems(1) by (auto simp: reader_ok_def split: decode_state.splits)
  consider "s = []" | "s \<noteq> []" "received c = be_bytes 4 0" | "s \<noteq> []" "received c \<noteq> be_bytes 4 0" by blast
  then show ?case
  proof cases
    case 1
    then have "ms' = []" "rest = received c" "\<not> stuck" using parse_received [OF less.prems(1)] less.prems(2) by simp_all
    then show ?thesis using 1 in_range less.prems(1)
      by (cases e) (simp_all add: read_loop.simps [of grant _ c] peer_read_def reader_read_def)
  next
    case 2
    have "rc_state c = DecodePayload"
      using 2(2) less.prems(1) by (cases "rc_state c") (auto simp: reader_ok_def received_def dest!: arg_cong [where f = length])
    moreover from this have "be_bytes 4 (rc_msg_length c) = be_bytes 4 0"
      using 2(2) by (simp add: received_def) (metis append_Nil2 append_eq_append_conv length_be_bytes)
    then have "rc_msg_length c mod 256 ^ 4 = 0" using of_be_be_bytes [of 4] by (metis mod_0)
    ultimately have "rc_msg_length c = 0" using less.prems(1) by (simp add: reader_ok_def)
    then show ?thesis using 2 in_range less.prems(2) parse_stuck [OF 2(1)]
      by (auto simp: read_loop.simps [of grant _ c] peer_read_def reader_read_def)
  next
    case 3
    obtain r c' bs s' where step: "s = bs @ s'" "bs \<noteq> []" "peer_read grant e c s = Ok (Inr r, c', s')" "reader_ok c'"
      "r = ReadContinue \<and> received c' = received c @ bs \<or>
       (\<exists>m. r = ReadMessage m \<and> sendable m \<and> received c @ bs = frame m \<and> received c' = [])"
      using peer_read_step [OF less.prems(1) 3] by blast
    have shorter: "length s' < length s" using step(1,2) by simp
    from step(5) show ?thesis
    proof (elim disjE exE conjE)
      assume r: "r = ReadContinue" "received c' = received c @ bs"
      then have p: "parse (received c' @ s') = (ms', rest, stuck)" using less.prems(2) step(1) by simp
      have "read_loop grant e c s ms = read_loop grant e c' s' ms" using r(1) step(3) by (subst read_loop.simps) simp
      then show ?thesis using less.hyps [OF shorter step(4) p, of ms] by (simp only:)
    next
      fix m
      assume r: "r = ReadMessage m" "sendable m" "received c @ bs = frame m" "received c' = []"
      have eq: "received c @ s = frame m @ s'" using r(3) step(1) by (metis append_assoc)
      obtain ms1 where ms1: "ms' = m # ms1" "parse (received c' @ s') = (ms1, rest, stuck)"
        using less.prems(2) parse_frame [OF r(2), of s'] r(4) eq by (auto split: prod.splits)
      have "read_loop grant e c s ms = read_loop grant e c' s' (ms @ [m])" using r(1) step(3) by (subst read_loop.simps) simp
      then show ?thesis using less.hyps [OF shorter step(4) ms1(2), of "ms @ [m]"] ms1(1) by (simp only: append_Nil append_assoc append_Cons)
    qed
  qed
qed

section \<open>The writer produces the stream\<close>

definition writer_ok :: "write_context \<Rightarrow> bool" where
  "writer_ok c \<longleftrightarrow> wc_msg_length c = length (wc_msg_buffer c) \<and>
     (case wc_state c of
        WriteLength \<Rightarrow> wc_len_buffer c = be_bytes 4 (wc_msg_length c mod 2 ^ 32) \<and> wc_written_length c \<le> 4
      | WritePayload \<Rightarrow> wc_written_length c \<le> wc_msg_length c)"

definition unsent :: "write_context \<Rightarrow> bytes" where
  "unsent c =
     (case wc_state c of
        WriteLength \<Rightarrow> drop (wc_written_length c) (wc_len_buffer c) @ wc_msg_buffer c
      | WritePayload \<Rightarrow> drop (wc_written_length c) (wc_msg_buffer c))"

lemma writer_new_ok [simp]: "writer_ok writer_new" "unsent writer_new = []"
  by (simp_all add: writer_ok_def unsent_def writer_new_def)

lemma drop_taken: "drop w xs = take k (drop w xs) @ drop (w + length (take k (drop w xs))) xs"
proof -
  have "drop w xs = take k (drop w xs) @ drop k (drop w xs)" by (rule append_take_drop_id [symmetric])
  then show ?thesis by (cases "k \<le> length (drop w xs)") (simp_all add: add.commute min_def)
qed

lemma write_round_ok:
  assumes ok: "writer_ok c"
  shows "(\<exists>r. write_round accept flush closed (c, queue, out) = Ok (Return r) \<and>
      (r = Inr WriteComplete \<or> r = Inr WriteChanClosed \<longrightarrow> unsent c = [] \<and> queue = [])) \<or>
    (\<exists>c' queue' bs. write_round accept flush closed (c, queue, out) = Ok (Again (c', queue', out @ bs)) \<and> writer_ok c' \<and>
      unsent c @ frames queue = bs @ unsent c' @ frames queue')"
proof -
  let ?w = "wc_written_length c" and ?buf = "case wc_state c of WriteLength \<Rightarrow> wc_len_buffer c | WritePayload \<Rightarrow> wc_msg_buffer c"
  have len: "?w \<le> length ?buf" using ok by (auto simp: writer_ok_def split: write_state.splits)
  show ?thesis
  proof (cases "?w = length ?buf")
    case True
    then show ?thesis using ok
      by (cases "wc_state c"; cases "flush out"; cases queue)
        (auto simp: write_round_def writer_ok_def unsent_def next_message_def frames_def frame_def)
  next
    case False
    let ?bs = "drop ?w ?buf"
    have round: "write_round accept flush closed (c, queue, out) =
        (case writer_write accept out ?bs of Inl e \<Rightarrow> Ok (Return (Inl e))
         | Inr w \<Rightarrow> if w = [] then Ok (Return (Inr WriteEOF)) else Ok (Again (c\<lparr>wc_written_length := ?w + length w\<rparr>, queue, out @ w)))"
      using ok False len by (cases "wc_state c") (simp_all add: write_round_def writer_ok_def Let_def)
    show ?thesis
    proof (cases "\<exists>k. accept out = Inr k \<and> take k ?bs \<noteq> []")
      case True
      then obtain k where k: "accept out = Inr k" "take k ?bs \<noteq> []" by blast
      let ?c = "c\<lparr>wc_written_length := ?w + length (take k ?bs)\<rparr>"
      have "writer_ok ?c" using ok len by (cases "wc_state c") (auto simp: writer_ok_def)
      moreover have "unsent c = take k ?bs @ unsent ?c"
        using drop_taken [of ?w ?buf k] by (cases "wc_state c") (simp_all add: unsent_def del: drop_drop)
      ultimately show ?thesis using round k
        by (intro disjI2 exI [of _ ?c] exI [of _ queue] exI [of _ "take k ?bs"]) (simp add: writer_write_def)
    next
      case None: False
      then show ?thesis using round by (cases "accept out") (auto simp: writer_write_def)
    qed
  qed
qed

lemma peer_write_ok:
  assumes "writer_ok c"
  shows "\<exists>r c' queue' bs. peer_write accept flush closed (c, queue, out) = Ok (r, c', queue', out @ bs) \<and> writer_ok c' \<and>
    unsent c @ frames queue = bs @ unsent c' @ frames queue' \<and>
    (r = Inr WriteComplete \<or> r = Inr WriteChanClosed \<longrightarrow> unsent c' = [] \<and> queue' = [])"
  using assms
proof (induction "write_work (c, queue, out)" arbitrary: c queue out rule: less_induct)
  case less
  from write_round_ok [OF less.prems, of accept flush closed queue out] show ?case
  proof (elim disjE exE conjE)
    fix r
    assume r: "write_round accept flush closed (c, queue, out) = Ok (Return r)"
      "r = Inr WriteComplete \<or> r = Inr WriteChanClosed \<longrightarrow> unsent c = [] \<and> queue = []"
    have "peer_write accept flush closed (c, queue, out) = Ok (r, c, queue, out @ [])" using r(1) by (subst peer_write.simps) simp
    then show ?thesis using r(2) less.prems by (intro exI [of _ r] exI [of _ c] exI [of _ queue] exI [of _ "[]"]) simp
  next
    fix c1 queue1 bs
    assume a: "write_round accept flush closed (c, queue, out) = Ok (Again (c1, queue1, out @ bs))" "writer_ok c1"
      "unsent c @ frames queue = bs @ unsent c1 @ frames queue1"
    have eq: "peer_write accept flush closed (c, queue, out) = peer_write accept flush closed (c1, queue1, out @ bs)"
      using a(1) by (subst peer_write.simps) simp
    from less.hyps [OF write_round_progress [OF a(1)] a(2)] obtain r c' queue' bs' where
      "peer_write accept flush closed (c1, queue1, out @ bs) = Ok (r, c', queue', (out @ bs) @ bs')" "writer_ok c'"
      "unsent c1 @ frames queue1 = bs' @ unsent c' @ frames queue'"
      "r = Inr WriteComplete \<or> r = Inr WriteChanClosed \<longrightarrow> unsent c' = [] \<and> queue' = []" by blast
    then show ?thesis using a(3) unfolding eq
      by (intro exI [of _ r] exI [of _ c'] exI [of _ queue'] exI [of _ "bs @ bs'"]) simp
  qed
qed

lemma peer_write_open:
  assumes "peer_write accept flush False st = Ok (r, st')"
  shows "r \<noteq> Inr WriteChanClosed"
  using assms
proof (induction "write_work st" arbitrary: st rule: less_induct)
  case less
  show ?case
  proof (cases "write_round accept flush False st")
    case (Ok x)
    show ?thesis
    proof (cases x)
      case (Return r')
      then have "r' = r" using less.prems Ok by (simp add: peer_write.simps [of accept flush False st])
      moreover have "r' \<noteq> Inr WriteChanClosed"
        using Ok Return by (cases st) (auto simp: write_round_def writer_write_def Let_def split: write_state.splits sum.splits if_splits option.splits list.splits)
      ultimately show ?thesis by simp
    next
      case (Again st1)
      then have "peer_write accept flush False st1 = Ok (r, st')" using less.prems Ok by (simp add: peer_write.simps [of accept flush False st])
      then show ?thesis using less.hyps [of st1] write_round_progress Ok Again by simp
    qed
  qed (use less.prems in \<open>simp add: peer_write.simps [of accept flush False st]\<close>)
qed

section \<open>A link\<close>

lemma parse_prefix:
  assumes "\<forall>m \<in> set ms. sendable m" and "prefix x (frames ms)"
  shows "\<exists>ms1 ms2 rest. ms = ms1 @ ms2 \<and> x = frames ms1 @ rest \<and> parse x = (ms1, rest, False)"
  using assms
proof (induction ms arbitrary: x)
  case Nil
  then show ?case by (auto simp: frames_def parse.simps [of "[]"])
next
  case (Cons m ms)
  have pre: "prefix x (frame m @ frames ms)" using Cons.prems(2) by (simp add: frames_def)
  show ?case
  proof (cases "strict_prefix x (frame m)")
    case True
    then show ?thesis using parse_partial [OF _ True] Cons.prems(1) by (auto simp: frames_def)
  next
    case False
    then obtain x' where x: "x = frame m @ x'" "prefix x' (frames ms)"
      using pre unfolding prefix_append by (auto simp: strict_prefix_def)
    obtain ms1 ms2 rest where ih: "ms = ms1 @ ms2" "x' = frames ms1 @ rest" "parse x' = (ms1, rest, False)"
      using Cons.IH [OF _ x(2)] Cons.prems(1) by auto
    then have "parse x = (m # ms1, rest, False)" "x = frames (m # ms1) @ rest"
      using x(1) parse_frame [of m x'] Cons.prems(1) by (simp_all add: frames_def)
    then show ?thesis using ih(1) by (intro exI [of _ "m # ms1"] exI [of _ ms2] exI [of _ rest]) simp
  qed
qed

text \<open>A writer, the bytes on the way and the reader at the other end, with the messages sent and delivered so far.
  The socket stays open.\<close>

record link =
  l_writer :: write_context
  l_queue :: "bytes list"
  l_wire :: bytes
  l_reader :: read_context
  l_sent :: "bytes list"
  l_delivered :: "bytes list"

definition link_new :: link where
  "link_new = \<lparr>l_writer = writer_new, l_queue = [], l_wire = [], l_reader = reader_new, l_sent = [], l_delivered = []\<rparr>"

inductive link_step :: "link \<Rightarrow> link \<Rightarrow> bool" where
  sending: "sendable m \<Longrightarrow> link_step l (l\<lparr>l_queue := l_queue l @ [m], l_sent := l_sent l @ [m]\<rparr>)"
| writing: "peer_write accept flush False (l_writer l, l_queue l, []) = Ok (r, c, queue, out) \<Longrightarrow>
    link_step l (l\<lparr>l_writer := c, l_queue := queue, l_wire := l_wire l @ out\<rparr>)"
| reading: "read_loop grant Open (l_reader l) (take k (l_wire l)) [] = Ok (ms, Some c, rest) \<Longrightarrow>
    link_step l (l\<lparr>l_reader := c, l_wire := rest @ drop k (l_wire l), l_delivered := l_delivered l @ ms\<rparr>)"

inductive linked :: "link \<Rightarrow> bool" where
  start: "linked link_new"
| continue: "linked l \<Longrightarrow> link_step l l' \<Longrightarrow> linked l'"

definition link_inv :: "link \<Rightarrow> bool" where
  "link_inv l \<longleftrightarrow> writer_ok (l_writer l) \<and> reader_ok (l_reader l) \<and> (\<forall>m \<in> set (l_sent l). sendable m) \<and>
     (\<exists>ms. l_sent l = l_delivered l @ ms \<and>
       frames ms = received (l_reader l) @ l_wire l @ unsent (l_writer l) @ frames (l_queue l))"

lemma frames_append [simp]: "frames (xs @ ys) = frames xs @ frames ys"
  by (simp add: frames_def)

lemma link_read:
  assumes "link_inv l"
  shows "\<exists>ms c. read_loop grant Open (l_reader l) (take k (l_wire l)) [] = Ok (ms, Some c, []) \<and>
    link_inv (l\<lparr>l_reader := c, l_wire := drop k (l_wire l), l_delivered := l_delivered l @ ms\<rparr>)"
proof -
  obtain ms where ms: "l_sent l = l_delivered l @ ms" "frames ms = received (l_reader l) @ l_wire l @ unsent (l_writer l) @ frames (l_queue l)"
    and ok: "writer_ok (l_writer l)" "reader_ok (l_reader l)" "\<forall>m \<in> set (l_sent l). sendable m"
    using assms by (auto simp: link_inv_def)
  let ?x = "received (l_reader l) @ take k (l_wire l)" and ?y = "drop k (l_wire l) @ unsent (l_writer l) @ frames (l_queue l)"
  have split: "frames ms = ?x @ ?y" using ms(2) by simp
  then have "prefix ?x (frames ms)" by (metis prefixI)
  then obtain ms1 ms2 rest where p: "ms = ms1 @ ms2" "?x = frames ms1 @ rest" "parse ?x = (ms1, rest, False)"
    using parse_prefix [of ms ?x] ok(3) ms(1) by auto
  obtain c where c: "read_loop grant Open (l_reader l) (take k (l_wire l)) [] = Ok (ms1, Some c, [])" "reader_ok c" "received c = rest"
    using read_loop_parses [OF ok(2) p(3), of Open grant "[]"] by auto
  have "frames ms2 = received c @ ?y" using split p(1,2) c(3) by simp
  then show ?thesis using c(1,2) ok ms(1) p(1) by (auto simp: link_inv_def)
qed

lemma link_write:
  assumes "link_inv l"
  shows "\<exists>r c queue out. peer_write accept flush False (l_writer l, l_queue l, []) = Ok (r, c, queue, out) \<and>
    link_inv (l\<lparr>l_writer := c, l_queue := queue, l_wire := l_wire l @ out\<rparr>) \<and> (r = Inr WriteComplete \<longrightarrow> unsent c = [] \<and> queue = [])"
  using peer_write_ok [of "l_writer l" accept flush False "l_queue l" "[]"] assms by (auto simp: link_inv_def)

lemma linked_inv: "linked l \<Longrightarrow> link_inv l"
proof (induction rule: linked.induct)
  case start
  then show ?case by (simp add: link_inv_def link_new_def frames_def)
next
  case (continue l l')
  from continue.hyps(2) show ?case
  proof cases
    case (sending m)
    then show ?thesis using continue.IH by (auto simp: link_inv_def)
  next
    case (writing accept flush r c queue out)
    then show ?thesis using link_write [OF continue.IH, of accept flush] by auto
  next
    case (reading grant k ms c rest)
    then show ?thesis using link_read [OF continue.IH, of grant k] by auto
  qed
qed

text \<open>C6: a connection delivers what is sent. However the sockets cut the stream into pieces, neither side panics
  or drops the other, the messages delivered are the first of the messages sent, in order, and once the writer
  has emptied its queue, reading what is on the way delivers all of them.\<close>

theorem link_delivers:
  assumes "linked l"
  shows "(\<exists>ms c. read_loop grant Open (l_reader l) (take k (l_wire l)) [] = Ok (ms, Some c, []) \<and>
      prefix (l_delivered l @ ms) (l_sent l)) \<and>
    (\<exists>r c queue out. peer_write accept flush False (l_writer l, l_queue l, []) = Ok (r, c, queue, out) \<and>
      (r = Inr WriteComplete \<longrightarrow> (\<exists>ms c'. read_loop grant Open (l_reader l) (l_wire l @ out) [] = Ok (ms, Some c', []) \<and>
         l_delivered l @ ms = l_sent l)))"
proof -
  have inv: "link_inv l" by (rule linked_inv [OF assms])
  obtain ms c where r: "read_loop grant Open (l_reader l) (take k (l_wire l)) [] = Ok (ms, Some c, [])"
    "link_inv (l\<lparr>l_reader := c, l_wire := drop k (l_wire l), l_delivered := l_delivered l @ ms\<rparr>)"
    using link_read [OF inv, of grant k] by blast
  have pre: "prefix (l_delivered l @ ms) (l_sent l)" using r(2) by (auto simp: link_inv_def)
  obtain res c1 queue out where w: "peer_write accept flush False (l_writer l, l_queue l, []) = Ok (res, c1, queue, out)"
    "link_inv (l\<lparr>l_writer := c1, l_queue := queue, l_wire := l_wire l @ out\<rparr>)" "res = Inr WriteComplete \<longrightarrow> unsent c1 = [] \<and> queue = []"
    using link_write [OF inv, of accept flush] by blast
  have "\<exists>ms c'. read_loop grant Open (l_reader l) (l_wire l @ out) [] = Ok (ms, Some c', []) \<and> l_delivered l @ ms = l_sent l"
    if complete: "res = Inr WriteComplete"
  proof -
    obtain ms1 c2 where r2: "read_loop grant Open (l_reader l) (l_wire l @ out) [] = Ok (ms1, Some c2, [])"
      "link_inv (l\<lparr>l_writer := c1, l_queue := [], l_reader := c2, l_wire := [], l_delivered := l_delivered l @ ms1\<rparr>)"
      using link_read [OF w(2), of grant "length (l_wire l @ out)"] w(3) complete by auto
    then obtain ms2 where ms2: "l_sent l = (l_delivered l @ ms1) @ ms2" "frames ms2 = received c2" "reader_ok c2" "\<forall>m \<in> set (l_sent l). sendable m"
      using w(3) complete by (auto simp: link_inv_def frames_def)
    have "parse (received c2) = (ms2, [], False)"
      using parse_frames [of ms2 "[]"] ms2 by (simp add: parse.simps [of "[]"])
    then have "ms2 = []" using parse_received [OF ms2(3)] by simp
    then show ?thesis using r2(1) ms2(1) by auto
  qed
  then show ?thesis using r(1) pre w(1) by blast
qed

theorem link_delivers_witness:
  "\<exists>c. read_loop (\<lambda>_. 3) Open reader_new [0, 0, 0, 1, 7] [] = Ok ([[7]], Some c, [])"
proof -
  let ?l = "link_new\<lparr>l_queue := [[7]], l_sent := [[7]]\<rparr>"
  have "link_step link_new ?l" using link_step.sending [of "[7]" link_new] by (simp add: link_new_def sendable_def)
  then have l: "linked ?l" by (rule linked.continue [OF linked.start])
  have one: "be_bytes 4 (Suc 0) = [0, 0, 0, 1]" by code_simp
  have "\<exists>c. peer_write (\<lambda>_. Inr 2) (\<lambda>_. None) False (l_writer ?l, l_queue ?l, []) = Ok (Inr WriteComplete, c, [], [0, 0, 0, 1, 7])"
    by (simp add: link_new_def writer_new_def peer_write.simps write_round_def next_message_def writer_write_def one)
  then show ?thesis
    using link_delivers [OF l, of "\<lambda>_. 3" 0 "\<lambda>_. Inr 2" "\<lambda>_. None"] by (auto simp: link_new_def)
qed

end
