(* ===== verification/Prism_Server.thy ===== *)
theory Prism_Server
  imports Prism_Peer Prism_Worker
begin

text \<open>
  The server of the peer connections (\<open>network/server.rs\<close>): the table of peers with the list of its keys, the
  control commands, and the handlers of the events of the poll. What a socket yields or takes is an input of
  the event. Registrations with the poll succeed; of their state the model keeps whether the server waits for
  the socket to become writable and whether the event of the outgoing queue is armed.
\<close>

section \<open>State\<close>

record peer =
  p_reader :: read_context
  p_writer :: write_context
  p_queue :: "bytes list"
  p_writable :: bool
  p_armed :: bool

record server =
  sv_peers :: "nat \<rightharpoonup> peer"
  sv_peer_list :: "nat list"
  sv_perf :: counter

definition MAX_INCOMING_CLIENT :: nat where "MAX_INCOMING_CLIENT = 256"

definition server_new :: "counter \<Rightarrow> server" where
  "server_new ctr = \<lparr>sv_peers = Map.empty, sv_peer_list = [], sv_perf = ctr\<rparr>"

definition peer_new :: peer where
  "peer_new = \<lparr>p_reader = reader_new, p_writer = writer_new, p_queue = [], p_writable = False, p_armed = True\<rparr>"

text \<open>Access to a key that the table does not have is a panic.\<close>

definition peer_at :: "nat \<Rightarrow> server \<Rightarrow> peer res" where
  "peer_at k sv = (case sv_peers sv k of Some p \<Rightarrow> Ok p | None \<Rightarrow> Panic OutOfBounds)"

definition set_peer :: "nat \<Rightarrow> peer \<Rightarrow> server \<Rightarrow> server" where
  "set_peer k p sv = sv\<lparr>sv_peers := (sv_peers sv)(k \<mapsto> p)\<rparr>"

section \<open>Connections\<close>

text \<open>The table picks the vacant key. The result tells whether the peer was registered; it is not when there are
  too many, or when a call on the socket fails.\<close>

definition register :: "((nat \<rightharpoonup> peer) \<Rightarrow> nat) \<Rightarrow> bool \<Rightarrow> server \<Rightarrow> bool \<times> server" where
  "register vacant io_ok sv =
     (let key = vacant (sv_peers sv) in
      if MAX_INCOMING_CLIENT \<le> key \<or> \<not> io_ok then (False, sv)
      else (True, (set_peer key peer_new sv)\<lparr>sv_peer_list := sv_peer_list sv @ [key]\<rparr>))"

definition remove_peer :: "nat \<Rightarrow> server \<Rightarrow> server res" where
  "remove_peer k sv =
     rbind (peer_at k sv) (\<lambda>_.
     rbind (unwrap (position (\<lambda>x. x = k) (sv_peer_list sv))) (\<lambda>index.
       Ok (sv\<lparr>sv_peers := (sv_peers sv)(k := None), sv_peer_list := swap_remove (sv_peer_list sv) index\<rparr>)))"

section \<open>Control commands\<close>

definition handle_write :: "(message \<Rightarrow> bytes) \<Rightarrow> message \<Rightarrow> peer \<Rightarrow> peer" where
  "handle_write ser msg p = p\<lparr>p_queue := p_queue p @ [ser msg]\<rparr>"

datatype server_control = ConnectNewPeer bool | BroadcastMessage message

definition process_control ::
  "((nat \<rightharpoonup> peer) \<Rightarrow> nat) \<Rightarrow> (message \<Rightarrow> bytes) \<Rightarrow> server_control \<Rightarrow> server \<Rightarrow> server res" where
  "process_control vacant ser req sv =
     (case req of
        ConnectNewPeer io_ok \<Rightarrow> Ok (snd (register vacant io_ok sv))
      | BroadcastMessage msg \<Rightarrow>
          rfold (\<lambda>k sv. rbind (peer_at k sv) (\<lambda>p. Ok (set_peer k (handle_write ser msg p) sv))) (sv_peer_list sv) sv)"

section \<open>Events of the sockets\<close>

definition register_write_interest :: "nat \<Rightarrow> server \<Rightarrow> server res" where
  "register_write_interest k sv =
     rbind (peer_at k sv) (\<lambda>p. Ok (set_peer k (p\<lparr>p_armed := False, p_writable := True\<rparr>) sv))"

definition process_readable ::
  "(bytes \<Rightarrow> nat) \<Rightarrow> stream_end \<Rightarrow> bytes \<Rightarrow> nat \<Rightarrow> server \<Rightarrow> (bytes list \<times> server) res" where
  "process_readable grant e s k sv =
     rbind (peer_at k sv) (\<lambda>p.
     rbind (read_loop grant e (p_reader p) s []) (\<lambda>(ms, reader, rest).
       let sv1 = sv\<lparr>sv_perf := (record_receive_message ^^ length ms) (sv_perf sv)\<rparr> in
       (case reader of
          Some c \<Rightarrow> Ok (ms, set_peer k (p\<lparr>p_reader := c\<rparr>) sv1)
        | None \<Rightarrow> rbind (remove_peer k sv1) (\<lambda>sv2. Ok (ms, sv2)))))"

text \<open>The peer context holds a sender of its own queue, which is never closed.\<close>

definition process_writable ::
  "(bytes \<Rightarrow> io_error + nat) \<Rightarrow> (bytes \<Rightarrow> io_error option) \<Rightarrow> nat \<Rightarrow> server \<Rightarrow> (bytes \<times> server) res" where
  "process_writable accept flush k sv =
     rbind (peer_at k sv) (\<lambda>p.
     rbind (peer_write accept flush False (p_writer p, p_queue p, [])) (\<lambda>(r, c, queue, out).
       let p1 = p\<lparr>p_writer := c, p_queue := queue\<rparr>; sv1 = set_peer k p1 sv in
       (case r of
          Inr WriteComplete \<Rightarrow> Ok (out, set_peer k (p1\<lparr>p_writable := False, p_armed := True\<rparr>) sv)
        | Inr WriteEOF \<Rightarrow> rbind (remove_peer k sv1) (\<lambda>sv2. Ok (out, sv2))
        | Inr WriteChanClosed \<Rightarrow> Ok (out, set_peer k (p1\<lparr>p_writable := False, p_armed := False\<rparr>) sv)
        | Inl WouldBlock \<Rightarrow> Ok (out, sv1)
        | Inl OtherError \<Rightarrow> rbind (remove_peer k sv1) (\<lambda>sv2. Ok (out, sv2)))))"

section \<open>The event loop\<close>

record socket_input =
  si_grant :: "bytes \<Rightarrow> nat"
  si_end :: stream_end
  si_data :: bytes
  si_accept :: "bytes \<Rightarrow> io_error + nat"
  si_flush :: "bytes \<Rightarrow> io_error option"

datatype server_event =
    Control "server_control list"
  | Incoming "bool list"
  | Token nat bool bool socket_input

text \<open>One event of the poll. The result is the received messages, the bytes written and the server. An even token is
  the socket of the peer with half that key, an odd one its outgoing queue.\<close>

definition server_event ::
  "((nat \<rightharpoonup> peer) \<Rightarrow> nat) \<Rightarrow> (message \<Rightarrow> bytes) \<Rightarrow> server_event \<Rightarrow> server \<Rightarrow> (bytes list \<times> bytes \<times> server) res" where
  "server_event vacant ser ev sv =
     (case ev of
        Control reqs \<Rightarrow> rbind (rfold (process_control vacant ser) reqs sv) (\<lambda>sv1. Ok ([], [], sv1))
      | Incoming conns \<Rightarrow> Ok ([], [], fold (\<lambda>io_ok sv. snd (register vacant io_ok sv)) conns sv)
      | Token token_id readable writable inp \<Rightarrow>
          let peer_id = token_id div 2 in
          if even token_id then
            (if readable \<and> sv_peers sv peer_id = None then Ok ([], [], sv)
             else
               rbind (if readable then process_readable (si_grant inp) (si_end inp) (si_data inp) peer_id sv else Ok ([], sv)) (\<lambda>(ms, sv1).
                 if writable \<and> sv_peers sv1 peer_id \<noteq> None
                 then rbind (process_writable (si_accept inp) (si_flush inp) peer_id sv1) (\<lambda>(out, sv2). Ok (ms, out, sv2))
                 else Ok (ms, [], sv1)))
          else rbind (register_write_interest peer_id sv) (\<lambda>sv1. Ok ([], [], sv1)))"

section \<open>The invariant\<close>

text \<open>A peer whose last message is not fully written waits for its socket, and one that does not is told of new messages.\<close>

definition peer_ok :: "peer \<Rightarrow> bool" where
  "peer_ok p \<longleftrightarrow> reader_ok (p_reader p) \<and> writer_ok (p_writer p) \<and> (p_writable p \<or> p_armed p \<and> unsent (p_writer p) = [])"

definition server_inv :: "server \<Rightarrow> bool" where
  "server_inv sv \<longleftrightarrow> distinct (sv_peer_list sv) \<and> set (sv_peer_list sv) = dom (sv_peers sv) \<and>
     (\<forall>k p. sv_peers sv k = Some p \<longrightarrow> k < MAX_INCOMING_CLIENT \<and> peer_ok p)"

lemma server_invD:
  assumes "server_inv sv"
  shows "distinct (sv_peer_list sv)" "set (sv_peer_list sv) = dom (sv_peers sv)"
    "sv_peers sv k = Some p \<Longrightarrow> k < MAX_INCOMING_CLIENT" "sv_peers sv k = Some p \<Longrightarrow> peer_ok p"
  using assms unfolding server_inv_def by blast+

lemma set_swap_remove:
  assumes "i < length xs" and "distinct xs"
  shows "set (swap_remove xs i) = set xs - {xs ! i}"
proof -
  have "mset (swap_remove xs i) = mset_set (set xs) - mset_set {xs ! i}" using assms by (simp add: mset_swap_remove mset_set_set)
  also have "\<dots> = mset_set (set xs - {xs ! i})" using assms(1) by (intro mset_set_Diff [symmetric]) simp_all
  finally show ?thesis by (metis finite_Diff finite_set finite_set_mset_mset_set set_mset_mset)
qed

lemma set_peer_inv: "server_inv sv \<Longrightarrow> sv_peers sv k \<noteq> None \<Longrightarrow> peer_ok p \<Longrightarrow> server_inv (set_peer k p sv)"
  by (auto simp: server_inv_def set_peer_def)

text \<open>The table hands out a key that is not in use.\<close>

definition vacant_ok :: "((nat \<rightharpoonup> peer) \<Rightarrow> nat) \<Rightarrow> bool" where
  "vacant_ok vacant \<longleftrightarrow> (\<forall>m. finite (dom m) \<longrightarrow> vacant m \<notin> dom m)"

lemma register_inv:
  assumes "server_inv sv" and "vacant_ok vacant"
  shows "server_inv (snd (register vacant io_ok sv))"
proof -
  have "peer_ok peer_new" by (simp add: peer_ok_def peer_new_def)
  moreover have "vacant (sv_peers sv) \<notin> set (sv_peer_list sv)"
    using assms(2) server_invD(2) [OF assms(1)] unfolding vacant_ok_def by (metis List.finite_set)
  ultimately show ?thesis using assms(1) by (auto simp: server_inv_def register_def set_peer_def Let_def)
qed

lemma remove_peer_ok:
  assumes inv: "server_inv sv" and k: "sv_peers sv k \<noteq> None"
  shows "\<exists>sv'. remove_peer k sv = Ok sv' \<and> server_inv sv' \<and> sv_peers sv' = (sv_peers sv)(k := None)"
proof -
  note D = server_invD [OF inv]
  have "k \<in> set (sv_peer_list sv)" using k D(2) by auto
  then obtain i where i: "position (\<lambda>x. x = k) (sv_peer_list sv) = Some i"
    using position_total [of k "sv_peer_list sv" "\<lambda>x. x = k"] by blast
  have i': "i < length (sv_peer_list sv)" "sv_peer_list sv ! i = k" using position_Some [OF i] by simp_all
  let ?l = "swap_remove (sv_peer_list sv) i"
  have set: "set ?l = set (sv_peer_list sv) - {k}" using set_swap_remove [OF i'(1) D(1)] i'(2) by simp
  have "server_inv (sv\<lparr>sv_peers := (sv_peers sv)(k := None), sv_peer_list := ?l\<rparr>)"
    using D set distinct_swap_remove [OF i'(1)] by (auto simp: server_inv_def)
  then show ?thesis using k i by (auto simp: remove_peer_def peer_at_def)
qed

section \<open>Every event keeps it\<close>

lemma broadcast_inv:
  assumes "server_inv sv"
  shows "\<exists>sv'. process_control vacant ser (BroadcastMessage msg) sv = Ok sv' \<and> server_inv sv'"
proof -
  let ?f = "\<lambda>k sv. rbind (peer_at k sv) (\<lambda>p. Ok (set_peer k (handle_write ser msg p) sv))"
  let ?P = "\<lambda>sv'. server_inv sv' \<and> dom (sv_peers sv') = dom (sv_peers sv)"
  have "\<exists>sv'. rfold ?f (sv_peer_list sv) sv = Ok sv' \<and> ?P sv'"
  proof (rule rfold_total)
    fix k sv'
    assume k: "k \<in> set (sv_peer_list sv)" and P: "?P sv'"
    then obtain p where p: "sv_peers sv' k = Some p" using server_invD(2) [OF assms] by auto
    then have "peer_ok (handle_write ser msg p)" using server_invD(4) [OF conjunct1 [OF P]] by (simp add: peer_ok_def handle_write_def)
    then show "\<exists>sv''. ?f k sv' = Ok sv'' \<and> ?P sv''"
      using p P set_peer_inv [of sv' k] by (auto simp: peer_at_def set_peer_def)
  qed (use assms in simp)
  then show ?thesis by (auto simp: process_control_def)
qed

lemma process_control_inv:
  assumes "server_inv sv" and "vacant_ok vacant"
  shows "\<exists>sv'. process_control vacant ser req sv = Ok sv' \<and> server_inv sv'"
  using broadcast_inv [OF assms(1)] register_inv [OF assms] by (cases req) (simp_all add: process_control_def)

lemma process_readable_inv:
  assumes inv: "server_inv sv" and k: "sv_peers sv k = Some p"
  shows "\<exists>ms sv'. process_readable grant e s k sv = Ok (ms, sv') \<and> server_inv sv' \<and>
    (\<forall>p'. sv_peers sv' k = Some p' \<longrightarrow> p_writable p' = p_writable p)"
proof -
  have p: "peer_ok p" by (rule server_invD(4) [OF inv k])
  obtain ms rest stuck where parse: "parse (received (p_reader p) @ s) = (ms, rest, stuck)" by (cases "parse (received (p_reader p) @ s)")
  let ?sv = "sv\<lparr>sv_perf := (record_receive_message ^^ length ms) (sv_perf sv)\<rparr>"
  have inv1: "server_inv ?sv" using inv by (simp add: server_inv_def)
  have loop: "(\<exists>c. read_loop grant e (p_reader p) s [] = Ok (ms, Some c, []) \<and> reader_ok c) \<or> (\<exists>s'. read_loop grant e (p_reader p) s [] = Ok (ms, None, s'))"
    using read_loop_parses [OF _ parse, of e grant "[]"] p by (auto simp: peer_ok_def split: if_splits)
  from loop show ?thesis
  proof (elim disjE exE conjE)
    fix c
    assume c: "read_loop grant e (p_reader p) s [] = Ok (ms, Some c, [])" "reader_ok c"
    have "server_inv (set_peer k (p\<lparr>p_reader := c\<rparr>) ?sv)" using set_peer_inv [OF inv1, of k] k p c(2) by (simp add: peer_ok_def)
    then show ?thesis using c(1) k by (simp add: process_readable_def peer_at_def Let_def set_peer_def)
  next
    fix s'
    assume c: "read_loop grant e (p_reader p) s [] = Ok (ms, None, s')"
    obtain sv' where "remove_peer k ?sv = Ok sv'" "server_inv sv'" "sv_peers sv' = (sv_peers ?sv)(k := None)"
      using remove_peer_ok [OF inv1, of k] k by auto
    then show ?thesis using c k by (simp add: process_readable_def peer_at_def Let_def)
  qed
qed

lemma process_writable_inv:
  assumes inv: "server_inv sv" and k: "sv_peers sv k = Some p" and w: "p_writable p"
  shows "\<exists>out sv'. process_writable accept flush k sv = Ok (out, sv') \<and> server_inv sv'"
proof -
  have p: "peer_ok p" by (rule server_invD(4) [OF inv k])
  then obtain r c queue out where run: "peer_write accept flush False (p_writer p, p_queue p, []) = Ok (r, c, queue, out)" "writer_ok c"
    "r = Inr WriteComplete \<or> r = Inr WriteChanClosed \<longrightarrow> unsent c = []"
    using peer_write_ok [of "p_writer p" accept flush False "p_queue p" "[]"] by (auto simp: peer_ok_def)
  let ?p = "p\<lparr>p_writer := c, p_queue := queue\<rparr>"
  have inv1: "server_inv (set_peer k ?p sv)" using set_peer_inv [OF inv, of k] k p run(2) w by (simp add: peer_ok_def)
  obtain sv2 where rem: "remove_peer k (set_peer k ?p sv) = Ok sv2" "server_inv sv2"
    using remove_peer_ok [OF inv1, of k] by (auto simp: set_peer_def)
  have step: "process_writable accept flush k sv = (case r of
          Inr WriteComplete \<Rightarrow> Ok (out, set_peer k (?p\<lparr>p_writable := False, p_armed := True\<rparr>) sv)
        | Inr WriteEOF \<Rightarrow> rbind (remove_peer k (set_peer k ?p sv)) (\<lambda>sv2. Ok (out, sv2))
        | Inr WriteChanClosed \<Rightarrow> Ok (out, set_peer k (?p\<lparr>p_writable := False, p_armed := False\<rparr>) sv)
        | Inl WouldBlock \<Rightarrow> Ok (out, set_peer k ?p sv)
        | Inl OtherError \<Rightarrow> rbind (remove_peer k (set_peer k ?p sv)) (\<lambda>sv2. Ok (out, sv2)))"
    using k run(1) by (simp add: process_writable_def peer_at_def Let_def)
  consider "r = Inl WouldBlock" | "r = Inl OtherError \<or> r = Inr WriteEOF" | "r = Inr WriteComplete" | "r = Inr WriteChanClosed"
    by (metis (full_types) io_error.exhaust sum.exhaust write_result.exhaust)
  then show ?thesis
  proof cases
    case 3
    then have "server_inv (set_peer k (?p\<lparr>p_writable := False, p_armed := True\<rparr>) sv)"
      using set_peer_inv [OF inv, of k] k p run(2,3) by (simp add: peer_ok_def)
    then show ?thesis using step 3 by simp
  next
    case 4
    then show ?thesis using run(1) peer_write_open by fastforce
  qed (use step inv1 rem in auto)
qed

text \<open>The poll reports a socket writable only to a peer that waits for it.\<close>

fun poll_ok :: "server_event \<Rightarrow> server \<Rightarrow> bool" where
  "poll_ok (Token t readable writable inp) sv =
     (case sv_peers sv (t div 2) of Some p \<Rightarrow> writable \<longrightarrow> p_writable p | None \<Rightarrow> True)"
| "poll_ok ev sv = True"

text \<open>The event of the outgoing queue of a peer that is gone.\<close>

fun stale :: "server_event \<Rightarrow> server \<Rightarrow> bool" where
  "stale (Token t readable writable inp) sv = (odd t \<and> sv_peers sv (t div 2) = None)"
| "stale ev sv = False"

lemma socket_event_inv:
  assumes inv: "server_inv sv" and ok: "poll_ok (Token t readable writable inp) sv" and t: "even t"
  shows "\<exists>ms out sv'. server_event vacant ser (Token t readable writable inp) sv = Ok (ms, out, sv') \<and> server_inv sv'"
proof -
  let ?k = "t div 2"
  have read: "\<exists>ms sv1. (if readable then process_readable (si_grant inp) (si_end inp) (si_data inp) ?k sv else Ok ([], sv)) = Ok (ms, sv1) \<and>
      server_inv sv1 \<and> (\<forall>p'. sv_peers sv1 ?k = Some p' \<longrightarrow> writable \<longrightarrow> p_writable p')"
    if "\<not> (readable \<and> sv_peers sv ?k = None)"
  proof (cases "sv_peers sv ?k")
    case None
    then show ?thesis using that inv by auto
  next
    case (Some p)
    then have w: "writable \<longrightarrow> p_writable p" using ok by simp
    obtain ms sv1 where r: "process_readable (si_grant inp) (si_end inp) (si_data inp) ?k sv = Ok (ms, sv1)" "server_inv sv1"
      "\<And>p'. sv_peers sv1 ?k = Some p' \<Longrightarrow> p_writable p' = p_writable p"
      using process_readable_inv [OF inv Some] by blast
    show ?thesis
    proof (cases readable)
      case True
      then show ?thesis using r w by (intro exI [of _ ms] exI [of _ sv1]) simp
    next
      case False
      then show ?thesis using inv Some w by simp
    qed
  qed
  show ?thesis
  proof (cases "readable \<and> sv_peers sv ?k = None")
    case True
    then show ?thesis using t inv by (simp add: server_event_def)
  next
    case False
    from read [OF this] obtain ms sv1 where r: "(if readable then process_readable (si_grant inp) (si_end inp) (si_data inp) ?k sv else Ok ([], sv)) = Ok (ms, sv1)"
      "server_inv sv1" "\<And>p'. sv_peers sv1 ?k = Some p' \<Longrightarrow> writable \<Longrightarrow> p_writable p'" by blast
    have ev: "server_event vacant ser (Token t readable writable inp) sv =
        (if writable \<and> sv_peers sv1 ?k \<noteq> None
         then rbind (process_writable (si_accept inp) (si_flush inp) ?k sv1) (\<lambda>(out, sv2). Ok (ms, out, sv2)) else Ok (ms, [], sv1))"
      unfolding server_event_def server_event.case Let_def if_P [OF t] if_not_P [OF False] r(1) by simp
    show ?thesis
    proof (cases "writable \<and> sv_peers sv1 ?k \<noteq> None")
      case True
      then obtain p where p: "sv_peers sv1 ?k = Some p" "p_writable p" using r(3) by auto
      show ?thesis unfolding ev if_P [OF True] using process_writable_inv [OF r(2) p, of "si_accept inp" "si_flush inp"] by auto
    next
      case F: False
      then show ?thesis using r(2) unfolding ev if_not_P [OF F] by blast
    qed
  qed
qed

lemma server_event_inv:
  assumes inv: "server_inv sv" and vacant: "vacant_ok vacant" and ok: "poll_ok ev sv"
  shows "if stale ev sv then server_event vacant ser ev sv = Panic OutOfBounds
    else \<exists>ms out sv'. server_event vacant ser ev sv = Ok (ms, out, sv') \<and> server_inv sv'"
proof (cases ev)
  case (Control reqs)
  have "\<exists>sv'. rfold (process_control vacant ser) reqs sv = Ok sv' \<and> server_inv sv'"
    using inv process_control_inv [OF _ vacant] by (intro rfold_total) blast+
  then show ?thesis using Control by (auto simp: server_event_def)
next
  case (Incoming conns)
  have "server_inv (fold (\<lambda>io_ok sv. snd (register vacant io_ok sv)) conns sv)"
    using inv by (induction conns arbitrary: sv) (simp_all add: register_inv [OF _ vacant])
  then show ?thesis using Incoming by (simp add: server_event_def)
next
  case (Token t readable writable inp)
  show ?thesis
  proof (cases "even t")
    case True
    then show ?thesis using socket_event_inv [OF inv _ True] ok Token by simp
  next
    case odd: False
    show ?thesis
    proof (cases "sv_peers sv (t div 2)")
      case None
      then show ?thesis using odd Token by (simp add: server_event_def register_write_interest_def peer_at_def)
    next
      case (Some p)
      then have "server_inv (set_peer (t div 2) (p\<lparr>p_armed := False, p_writable := True\<rparr>) sv)"
        using set_peer_inv [OF inv, of "t div 2"] server_invD(4) [OF inv Some] by (simp add: peer_ok_def)
      then show ?thesis using odd Token Some by (simp add: server_event_def register_write_interest_def peer_at_def)
    qed
  qed
qed

inductive served :: "((nat \<rightharpoonup> peer) \<Rightarrow> nat) \<Rightarrow> (message \<Rightarrow> bytes) \<Rightarrow> server \<Rightarrow> bool" for vacant ser where
  start: "served vacant ser (server_new ctr)"
| event: "served vacant ser sv \<Longrightarrow> poll_ok ev sv \<Longrightarrow> server_event vacant ser ev sv = Ok (ms, out, sv') \<Longrightarrow> served vacant ser sv'"

lemma served_inv:
  assumes "served vacant ser sv" and "vacant_ok vacant"
  shows "server_inv sv"
  using assms(1)
proof induction
  case (start ctr)
  then show ?case by (simp add: server_inv_def server_new_def)
next
  case (event sv ev ms out sv')
  then show ?case using server_event_inv [OF event.IH assms(2) event.hyps(2), of ser] event.hyps(3) by (cases "stale ev sv") auto
qed


definition above_all :: "(nat \<rightharpoonup> peer) \<Rightarrow> nat" where
  "above_all m = Suc (Max (insert 0 (dom m)))"

lemma above_all_ok: "vacant_ok above_all"
proof -
  have "above_all m \<notin> dom m" if "finite (dom m)" for m
  proof
    assume "above_all m \<in> dom m"
    then have "above_all m \<le> Max (insert 0 (dom m))" using that by (intro Max_ge) simp_all
    then show False by (simp add: above_all_def)
  qed
  then show ?thesis by (simp add: vacant_ok_def)
qed

definition idle_input :: socket_input where
  "idle_input = \<lparr>si_grant = (\<lambda>_. 1), si_end = Open, si_data = [], si_accept = (\<lambda>_. Inr 1), si_flush = (\<lambda>_. None)\<rparr>"


end
