(* ===== verification/Prism_Wallet.thy ===== *)
theory Prism_Wallet
  imports Prism_Transaction
begin

text \<open>
  The wallet (\<open>wallet/mod.rs\<close>): key pairs by address, the nonce and the balance of each address, and the
  transactions that it signs. The key pairs are also stored in a database. The order in which a hash map is
  iterated is a parameter.
\<close>

section \<open>State\<close>

record keypair =
  kp_secret :: h256
  kp_public :: public

record wallet =
  w_db :: "address \<rightharpoonup> h256"
  nonce_balances :: "address \<rightharpoonup> u256 \<times> u256"
  keypairs :: "address \<rightharpoonup> keypair"
  w_counter :: nat

datatype wallet_error = InsufficientBalance | MissingKeyPair | DBError

definition wallet_new :: wallet where
  "wallet_new = \<lparr>w_db = Map.empty, nonce_balances = Map.empty, keypairs = Map.empty, w_counter = 0\<rparr>"

definition kp_address :: "crypto \<Rightarrow> keypair \<Rightarrow> address" where
  "kp_address cr kp = cr_public_to_address cr (kp_public kp)"

definition number_of_coins :: "wallet \<Rightarrow> nat" where
  "number_of_coins w = w_counter w"

definition load_keypair :: "crypto \<Rightarrow> keypair \<Rightarrow> wallet \<Rightarrow> address \<times> wallet" where
  "load_keypair cr kp w =
     (let addr = kp_address cr kp in
      (addr, w\<lparr>w_db := (w_db w)(addr \<mapsto> kp_secret kp), keypairs := (keypairs w)(addr \<mapsto> kp),
               nonce_balances := (nonce_balances w)(addr \<mapsto> (0, 0))\<rparr>))"

definition addresses :: "((address \<rightharpoonup> keypair) \<Rightarrow> (address \<times> keypair) list) \<Rightarrow> wallet \<Rightarrow> address list" where
  "addresses iter w = map fst (iter (keypairs w))"

definition contains_keypair :: "address \<Rightarrow> wallet \<Rightarrow> bool" where
  "contains_keypair addr w = (keypairs w addr \<noteq> None)"

text \<open>A balance that does not fit 64 bits panics; their sum wraps.\<close>

definition wallet_balance :: "((address \<rightharpoonup> u256 \<times> u256) \<Rightarrow> (address \<times> u256 \<times> u256) list) \<Rightarrow> wallet \<Rightarrow> u64 res" where
  "wallet_balance iter w =
     rfold (\<lambda>(_, _, balance) sum. if unat balance < 2 ^ 64 then Ok (sum + ucast balance) else Panic ArithOverflow)
       (iter (nonce_balances w)) 0"

section \<open>Transactions\<close>

text \<open>The nonce of an address is taken and counted up; the addition panics on overflow.\<close>

definition take_nonce :: "address \<Rightarrow> wallet \<Rightarrow> (u256 \<times> wallet) res" where
  "take_nonce addr w =
     (let (nonce, balance) = (case nonce_balances w addr of Some nb \<Rightarrow> nb | None \<Rightarrow> (0, 0)) in
      if Suc (unat nonce) = 2 ^ 256 then Panic ArithOverflow
      else Ok (nonce, w\<lparr>nonce_balances := (nonce_balances w)(addr \<mapsto> (nonce + 1, balance))\<rparr>))"

definition raw_call :: "u256 \<Rightarrow> action \<Rightarrow> u256 \<Rightarrow> bytes \<Rightarrow> raw_transaction" where
  "raw_call nonce act value data = \<lparr>rtx_nonce = nonce, rtx_gas_price = 0, rtx_gas = 10000000, rtx_action = act,
     rtx_value = value, rtx_data = data\<rparr>"

definition signed_by :: "crypto \<Rightarrow> keypair option \<Rightarrow> action \<Rightarrow> u256 \<Rightarrow> bytes \<Rightarrow> wallet \<Rightarrow> ((wallet_error + transaction) \<times> wallet) res" where
  "signed_by cr keypair act value data w =
     (case keypair of
        None \<Rightarrow> Ok (Inl MissingKeyPair, w)
      | Some kp \<Rightarrow>
          rbind (take_nonce (kp_address cr kp) w) (\<lambda>(nonce, w1).
          rbind (sign cr (raw_call nonce act value data) (kp_secret kp) None) (\<lambda>tx.
            Ok (Inr tx, w1))))"

definition create_transaction_payment :: "crypto \<Rightarrow> address \<Rightarrow> address \<Rightarrow> u256 \<Rightarrow> wallet \<Rightarrow> ((wallet_error + transaction) \<times> wallet) res" where
  "create_transaction_payment cr sender_addr receiver_addr value w =
     signed_by cr (keypairs w sender_addr) (Call receiver_addr) value [] w"

definition create_transaction_self_payment :: "crypto \<Rightarrow> address \<Rightarrow> u256 \<Rightarrow> wallet \<Rightarrow> ((wallet_error + transaction) \<times> wallet) res" where
  "create_transaction_self_payment cr addr value w = signed_by cr (keypairs w addr) (Call addr) value [] w"

definition create_transaction_call :: "crypto \<Rightarrow> address \<Rightarrow> address \<Rightarrow> bytes \<Rightarrow> wallet \<Rightarrow> ((wallet_error + transaction) \<times> wallet) res" where
  "create_transaction_call cr addr receiver_addr data w = signed_by cr (keypairs w addr) (Call receiver_addr) 0 data w"

definition create_transaction_create ::
  "crypto \<Rightarrow> ((address \<rightharpoonup> keypair) \<Rightarrow> (address \<times> keypair) list) \<Rightarrow> bytes \<Rightarrow> wallet \<Rightarrow> ((wallet_error + transaction) \<times> wallet) res" where
  "create_transaction_create cr iter data w =
     signed_by cr (case iter (keypairs w) of [] \<Rightarrow> None | (_, kp) # _ \<Rightarrow> Some kp) Create 0 data w"

section \<open>What a wallet signs\<close>

datatype request = Pay address address u256 | SelfPay address u256 | CallOf address address bytes | CreateOf bytes

type_synonym key_iterator = "(address \<rightharpoonup> keypair) \<Rightarrow> (address \<times> keypair) list"

definition request_transaction :: "crypto \<Rightarrow> key_iterator \<Rightarrow> request \<Rightarrow> wallet \<Rightarrow> ((wallet_error + transaction) \<times> wallet) res" where
  "request_transaction cr iter req w =
     (case req of
        Pay from to value \<Rightarrow> create_transaction_payment cr from to value w
      | SelfPay addr value \<Rightarrow> create_transaction_self_payment cr addr value w
      | CallOf addr to data \<Rightarrow> create_transaction_call cr addr to data w
      | CreateOf data \<Rightarrow> create_transaction_create cr iter data w)"

definition serve :: "crypto \<Rightarrow> key_iterator \<Rightarrow> request \<Rightarrow> transaction list \<times> wallet \<Rightarrow> (transaction list \<times> wallet) res" where
  "serve cr iter req acc =
     (case acc of (txs, w) \<Rightarrow>
      rbind (request_transaction cr iter req w) (\<lambda>(r, w1). Ok (case r of Inl e \<Rightarrow> txs | Inr tx \<Rightarrow> txs @ [tx], w1)))"

definition wallet_inv :: "crypto \<Rightarrow> wallet \<Rightarrow> bool" where
  "wallet_inv cr w \<longleftrightarrow> (\<forall>a kp. keypairs w a = Some kp \<longrightarrow> kp_address cr kp = a \<and> signs_as cr (kp_secret kp) (kp_public kp))"

definition keys_of :: "key_iterator \<Rightarrow> bool" where
  "keys_of iter \<longleftrightarrow> (\<forall>m a kp. (a, kp) \<in> set (iter m) \<longrightarrow> m a = Some kp)"

definition nonce_of :: "wallet \<Rightarrow> address \<Rightarrow> nat" where
  "nonce_of w a = (case nonce_balances w a of Some (nonce, _) \<Rightarrow> unat nonce | None \<Rightarrow> 0)"

definition tx_nonce :: "transaction \<Rightarrow> nat" where
  "tx_nonce tx = unat (rtx_nonce (utx_unsigned (stx_transaction tx)))"

lemma take_nonce_ok:
  assumes "nonce_of w a + 1 < 2 ^ 256"
  shows "\<exists>nonce w'. take_nonce a w = Ok (nonce, w') \<and> unat nonce = nonce_of w a \<and> keypairs w' = keypairs w \<and>
    nonce_of w' = (nonce_of w)(a := nonce_of w a + 1)"
proof -
  obtain nonce balance where nb: "(case nonce_balances w a of Some nb \<Rightarrow> nb | None \<Rightarrow> (0, 0)) = (nonce, balance)" by fastforce
  then have n: "unat nonce = nonce_of w a" by (auto simp: nonce_of_def split: option.splits)
  then have "unat (nonce + 1) = nonce_of w a + 1" using assms by (simp add: unat_word_ariths)
  then have "nonce_of (w\<lparr>nonce_balances := (nonce_balances w)(a \<mapsto> (nonce + 1, balance))\<rparr>) = (nonce_of w)(a := nonce_of w a + 1)"
    by (auto simp: nonce_of_def fun_eq_iff)
  then show ?thesis using assms n nb by (simp add: take_nonce_def)
qed

lemma signed_by_ok:
  assumes inv: "wallet_inv cr w" and kp: "\<And>k. kp = Some k \<Longrightarrow> \<exists>a. keypairs w a = Some k" and small: "\<And>a. nonce_of w a + 1 < 2 ^ 256"
  shows "\<exists>r w'. signed_by cr kp act v data w = Ok (r, w') \<and> keypairs w' = keypairs w \<and>
    (case r of Inl e \<Rightarrow> kp = None \<and> nonce_of w' = nonce_of w
     | Inr tx \<Rightarrow> check_signature_batch cr [tx] \<and> tx_nonce tx = nonce_of w (stx_sender tx) \<and>
         nonce_of w' = (nonce_of w)(stx_sender tx := nonce_of w (stx_sender tx) + 1))"
proof (cases kp)
  case (Some k)
  then obtain a where a: "keypairs w a = Some k" using kp by blast
  then have k: "kp_address cr k = a" "signs_as cr (kp_secret k) (kp_public k)" using inv by (auto simp: wallet_inv_def)
  obtain nonce w' where n: "take_nonce a w = Ok (nonce, w')" "unat nonce = nonce_of w a" "keypairs w' = keypairs w"
    "nonce_of w' = (nonce_of w)(a := nonce_of w a + 1)" using take_nonce_ok [OF small] by blast
  obtain u where u: "sign cr (raw_call nonce act v data) (kp_secret k) None =
      Ok \<lparr>stx_transaction = u, stx_sender = a, stx_public = Some (kp_public k)\<rparr>"
    "verify_unordered cr u = Some \<lparr>stx_transaction = u, stx_sender = a, stx_public = Some (kp_public k)\<rparr>"
    "utx_unsigned u = raw_call nonce act v data"
    using sign_result [OF k(2), of None "raw_call nonce act v data"] k(1) by (auto simp: kp_address_def)
  show ?thesis using Some n k(1) u by (simp add: signed_by_def deconstruct_def tx_nonce_def raw_call_def)
qed (simp add: signed_by_def)

lemma request_transaction_ok:
  assumes "wallet_inv cr w" and "keys_of iter" and "\<And>a. nonce_of w a + 1 < 2 ^ 256"
  shows "\<exists>r w'. request_transaction cr iter req w = Ok (r, w') \<and> keypairs w' = keypairs w \<and>
    (case r of Inl e \<Rightarrow> nonce_of w' = nonce_of w
     | Inr tx \<Rightarrow> check_signature_batch cr [tx] \<and> tx_nonce tx = nonce_of w (stx_sender tx) \<and>
         nonce_of w' = (nonce_of w)(stx_sender tx := nonce_of w (stx_sender tx) + 1))"
proof -
  have first: "\<exists>a. keypairs w a = Some k" if "(case iter (keypairs w) of [] \<Rightarrow> None | (_, kp) # _ \<Rightarrow> Some kp) = Some k" for k
    using that assms(2) unfolding keys_of_def by (cases "iter (keypairs w)") (auto split: prod.splits, metis list.set_intros(1))
  have "\<exists>kp act value data. request_transaction cr iter req w = signed_by cr kp act value data w \<and>
      (\<forall>k. kp = Some k \<longrightarrow> (\<exists>a. keypairs w a = Some k))"
    by (cases req) (use first in \<open>auto simp: request_transaction_def create_transaction_payment_def
        create_transaction_self_payment_def create_transaction_call_def create_transaction_create_def\<close>)
  then obtain kp act v data where q: "request_transaction cr iter req w = signed_by cr kp act v data w"
    "\<And>k. kp = Some k \<Longrightarrow> \<exists>a. keypairs w a = Some k" by blast
  obtain r w' where "signed_by cr kp act v data w = Ok (r, w')" "keypairs w' = keypairs w"
    "case r of Inl e \<Rightarrow> kp = None \<and> nonce_of w' = nonce_of w
     | Inr tx \<Rightarrow> check_signature_batch cr [tx] \<and> tx_nonce tx = nonce_of w (stx_sender tx) \<and>
         nonce_of w' = (nonce_of w)(stx_sender tx := nonce_of w (stx_sender tx) + 1)"
    using signed_by_ok [where kp = kp and act = act and v = v and data = data, OF assms(1) q(2) assms(3)] by blast
  then show ?thesis unfolding q(1) by (cases r) simp_all
qed

lemma check_signature_batch_append:
  "check_signature_batch cr (xs @ ys) \<longleftrightarrow> check_signature_batch cr xs \<and> check_signature_batch cr ys"
  by (induction xs) (auto split: option.splits prod.splits)

lemma serve_all:
  assumes "wallet_inv cr w" and "keys_of iter" and "\<And>a. nonce_of w a + length reqs < 2 ^ 256"
  shows "\<exists>txs w'. rfold (serve cr iter) reqs (txs0, w) = Ok (txs0 @ txs, w') \<and> check_signature_batch cr txs \<and>
    (\<forall>a. map tx_nonce (filter (\<lambda>tx. stx_sender tx = a) txs) = [nonce_of w a..<nonce_of w' a] \<and> nonce_of w a \<le> nonce_of w' a)"
  using assms(1,3)
proof (induction reqs arbitrary: txs0 w)
  case (Cons req reqs)
  have "\<And>a. nonce_of w a + 1 < 2 ^ 256" using Cons.prems(2) by (metis One_nat_def Suc_leI add_le_cancel_left le_less_trans length_Cons zero_less_Suc)
  from request_transaction_ok [OF Cons.prems(1) assms(2) this] obtain r w1 where
    r: "request_transaction cr iter req w = Ok (r, w1)" "keypairs w1 = keypairs w"
    "case r of Inl e \<Rightarrow> nonce_of w1 = nonce_of w
     | Inr tx \<Rightarrow> check_signature_batch cr [tx] \<and> tx_nonce tx = nonce_of w (stx_sender tx) \<and>
         nonce_of w1 = (nonce_of w)(stx_sender tx := nonce_of w (stx_sender tx) + 1)" by blast
  have inv: "wallet_inv cr w1" using Cons.prems(1) r(2) by (simp add: wallet_inv_def)
  have small: "nonce_of w1 a + length reqs < 2 ^ 256" for a
    using Cons.prems(2) [of a] r(3) by (auto split: sum.splits)
  define new where "new = (case r of Inl e \<Rightarrow> [] | Inr tx \<Rightarrow> [tx])"
  have step: "serve cr iter req (txs0, w) = Ok (txs0 @ new, w1)" using r(1) by (simp add: serve_def new_def split: sum.splits)
  obtain txs w' where ih: "rfold (serve cr iter) reqs (txs0 @ new, w1) = Ok ((txs0 @ new) @ txs, w')" "check_signature_batch cr txs"
    "\<And>a. map tx_nonce (filter (\<lambda>tx. stx_sender tx = a) txs) = [nonce_of w1 a..<nonce_of w' a]" "\<And>a. nonce_of w1 a \<le> nonce_of w' a"
    using Cons.IH [OF inv small, of "txs0 @ new"] by blast
  have "map tx_nonce (filter (\<lambda>tx. stx_sender tx = a) (new @ txs)) = [nonce_of w a..<nonce_of w' a] \<and> nonce_of w a \<le> nonce_of w' a" for a
    using ih(3,4) [of a] r(3) by (auto simp: new_def upt_conv_Cons split: sum.splits)
  moreover have "check_signature_batch cr new" using r(3) by (cases r) (simp_all add: new_def)
  then have "check_signature_batch cr (new @ txs)" using ih(2) by (simp only: check_signature_batch_append)
  moreover have "rfold (serve cr iter) (req # reqs) (txs0, w) = Ok (txs0 @ (new @ txs), w')" using step ih(1) by simp
  ultimately show ?case by blast
qed simp

text \<open>C37: a wallet with usable keys serves every sequence of requests without a panic: the transactions it
  signs pass the batch signature check, and those of one sender have consecutive nonces, starting with the one the
  wallet had for that sender.\<close>

theorem wallet_nonces:
  assumes "wallet_inv cr w" and "keys_of iter" and "\<And>a. nonce_of w a + length reqs < 2 ^ 256"
  shows "\<exists>txs w'. rfold (serve cr iter) reqs ([], w) = Ok (txs, w') \<and> check_signature_batch cr txs \<and>
    (\<forall>a. map tx_nonce (filter (\<lambda>tx. stx_sender tx = a) txs) = [nonce_of w a..<nonce_of w' a])"
  using serve_all [OF assms, of "[]"] by auto

theorem wallet_nonces_witness:
  "\<exists>txs w'. rfold (serve example_crypto (\<lambda>_. [])) [Pay 3 9 5, SelfPay 3 1]
      ([], snd (load_keypair example_crypto \<lparr>kp_secret = 3, kp_public = 3\<rparr> wallet_new)) = Ok (txs, w') \<and>
    check_signature_batch example_crypto txs"
proof -
  let ?w = "snd (load_keypair example_crypto \<lparr>kp_secret = 3, kp_public = 3\<rparr> wallet_new)"
  have "wallet_inv example_crypto ?w"
    by (auto simp: wallet_inv_def load_keypair_def wallet_new_def kp_address_def signs_as_def example_crypto_def Let_def)
  moreover have "keys_of (\<lambda>_. [])" by (simp add: keys_of_def)
  moreover have "nonce_of ?w a + length [Pay 3 9 5, SelfPay 3 1] < 2 ^ 256" for a
    by (simp add: nonce_of_def load_keypair_def wallet_new_def Let_def)
  ultimately show ?thesis using wallet_nonces by blast
qed

end
