(* ===== verification/Prism_Generator.thy ===== *)
theory Prism_Generator
  imports Prism_Wallet Prism_Mempool Prism_Counter
begin

text \<open>
  The transaction generator (\<open>experiment/transaction_generator.rs\<close>): its control signals and one round of its
  loop. The random choices of a round are its input; waiting between rounds is left out.
\<close>

section \<open>State\<close>

datatype generator_signal =
    StartGenerating u64
  | StepGenerating u64
  | StopGenerating
  | SetArrivalDistribution u64
  | SetValueDistribution u64 u64
  | SetTransactionType string

datatype generator_state = Continuous u64 | GeneratorPaused | GeneratorStep u64

record generator =
  arrival_interval :: u64
  value_min :: u64
  value_max :: u64
  generator_state :: generator_state
  transaction_type :: string
  has_erc20_ico :: "address set"

definition generator_new :: generator where
  "generator_new = \<lparr>arrival_interval = 100, value_min = 50, value_max = 100, generator_state = GeneratorPaused,
     transaction_type = ''donothing'', has_erc20_ico = {}\<rparr>"

definition handle_generator_signal :: "generator_signal \<Rightarrow> generator \<Rightarrow> generator" where
  "handle_generator_signal signal g =
     (case signal of
        StartGenerating t \<Rightarrow> g\<lparr>generator_state := Continuous t\<rparr>
      | StopGenerating \<Rightarrow> g\<lparr>generator_state := GeneratorPaused\<rparr>
      | StepGenerating num \<Rightarrow> g\<lparr>generator_state := GeneratorStep num\<rparr>
      | SetArrivalDistribution interval \<Rightarrow> g\<lparr>arrival_interval := interval\<rparr>
      | SetValueDistribution lo hi \<Rightarrow> g\<lparr>value_min := lo, value_max := hi\<rparr>
      | SetTransactionType t \<Rightarrow> g\<lparr>transaction_type := t\<rparr>)"

section \<open>Transactions\<close>

definition hex_value :: "char \<Rightarrow> nat" where
  "hex_value c = (if of_char c \<le> (57 :: nat) then of_char c - 48 else of_char c - 87)"

fun hex_decode :: "string \<Rightarrow> bytes" where
  "hex_decode (a # b # s) = word_of_nat (16 * hex_value a + hex_value b) # hex_decode s"
| "hex_decode _ = []"

text \<open>The indices of sender and receiver, the value and four 128-bit words.\<close>

record choice =
  ch_from :: nat
  ch_to :: nat
  ch_value :: nat
  ch_words :: "128 word list"

text \<open>A range that is empty panics.\<close>

definition draw_value :: "generator \<Rightarrow> choice \<Rightarrow> u256 res" where
  "draw_value g ch =
     (let lo = unat (value_min g); hi = unat (value_max g) in
      if lo = hi then Ok (word_of_nat lo)
      else if lo < hi then Ok (word_of_nat (lo + ch_value ch mod (hi - lo)))
      else Panic ExplicitPanic)"

definition contract :: "nat \<Rightarrow> address" where
  "contract n = word_of_nat n"

definition generate_transaction ::
  "crypto \<Rightarrow> address list \<Rightarrow> choice \<Rightarrow> generator \<times> wallet \<Rightarrow> ((wallet_error + transaction) \<times> generator \<times> wallet) res" where
  "generate_transaction cr addrs ch gw =
     (case gw of (g, w) \<Rightarrow>
      rbind (draw_value g ch) (\<lambda>val.
      rbind (rnth addrs (ch_from ch)) (\<lambda>addr.
      rbind (rnth addrs (ch_to ch)) (\<lambda>to_addr.
        let call = (\<lambda>target data g1. rbind (create_transaction_call cr addr (contract target) data w) (\<lambda>(tx, w1). Ok (tx, g1, w1))) in
        if transaction_type g = ''payment'' then
          rbind (create_transaction_payment cr addr to_addr val w) (\<lambda>(tx, w1). Ok (tx, g, w1))
        else if transaction_type g = ''donothing'' then call 0xf01 (hex_decode ''448f30a3'') g
        else if transaction_type g = ''cpuheavy'' then
          call 0xf02 (hex_decode ''fe913865'' @ replicate 31 0 @ [0xff]) g
        else if transaction_type g = ''ioheavy'' then
          call 0xf03 (hex_decode ''b6a3f0e9'' @ replicate 31 0 @ [0xff]) g
        else if transaction_type g = ''simpleballot'' then Panic ExplicitPanic
        else if transaction_type g = ''size600'' then call 0xf01 (hex_decode ''448f30a3'' @ replicate 65 0) g
        else if transaction_type g = ''cryptokitties'' then
          call 0xe01 (hex_decode ''0d9f5aed'' @ concat (map (\<lambda>t. be_bytes 16 (unat t)) (take 4 (ch_words ch))) @ replicate 32 0) g
        else if transaction_type g = ''simpleerc20'' then
          (if addr \<in> has_erc20_ico g then
             call 0xe02 (hex_decode ''a9059cbb'' @ replicate 12 0 @ be_bytes 20 (unat to_addr) @ replicate 31 0 @ [1]) g
           else
             call 0xe02 (hex_decode ''a0712d68'' @ replicate 24 0 @ replicate 8 0xff)
               (g\<lparr>has_erc20_ico := insert addr (has_erc20_ico g)\<rparr>))
        else Panic ExplicitPanic))))"

section \<open>The loop\<close>

record generation =
  gen_generator :: generator
  gen_wallet :: wallet
  gen_pool :: memory_pool
  gen_perf :: counter

text \<open>After a transaction in stepping mode the count goes down; it is an unsigned subtraction that wraps.\<close>

definition count_step :: "generator \<Rightarrow> generator" where
  "count_step g =
     (case generator_state g of
        GeneratorStep step_count \<Rightarrow>
          if step_count - 1 = 0 then g\<lparr>generator_state := GeneratorPaused\<rparr>
          else g\<lparr>generator_state := GeneratorStep (step_count - 1)\<rparr>
      | _ \<Rightarrow> g)"

definition generate :: "crypto \<Rightarrow> address list \<Rightarrow> choice \<Rightarrow> generation \<Rightarrow> (transaction option \<times> generation) res" where
  "generate cr addrs ch s =
     rbind (generate_transaction cr addrs ch (gen_generator s, gen_wallet s)) (\<lambda>(r, g, w).
       case r of
         Inr t \<Rightarrow>
           Ok (Some t, \<lparr>gen_generator = count_step g, gen_wallet = w, gen_pool = new_transaction t (gen_pool s),
                        gen_perf = record_generate_transaction (Some t) (gen_perf s)\<rparr>)
       | Inl e \<Rightarrow>
           Ok (None, \<lparr>gen_generator = g, gen_wallet = w, gen_pool = gen_pool s,
                      gen_perf = record_generate_transaction None (gen_perf s)\<rparr>))"

text \<open>One round, with the control signal that is waiting, if any. A paused generator without a signal waits. The
  result has the new transaction.\<close>

definition generator_round ::
  "crypto \<Rightarrow> address list \<Rightarrow> generator_signal option \<Rightarrow> choice \<Rightarrow> generation \<Rightarrow> (transaction option \<times> generation) res" where
  "generator_round cr addrs signal ch s =
     (case signal of
        Some sig \<Rightarrow> Ok (None, s\<lparr>gen_generator := handle_generator_signal sig (gen_generator s)\<rparr>)
      | None \<Rightarrow>
          (case generator_state (gen_generator s) of
             GeneratorPaused \<Rightarrow> Ok (None, s)
           | Continuous throttle \<Rightarrow>
               if unat throttle \<le> pool_len (gen_pool s) then Ok (None, s) else generate cr addrs ch s
           | GeneratorStep _ \<Rightarrow> generate cr addrs ch s))"

section \<open>Stepping\<close>

declare check_signature_batch.simps(2) [simp del]

definition known_type :: "string \<Rightarrow> bool" where
  "known_type t \<longleftrightarrow> t \<in> {''payment'', ''donothing'', ''cpuheavy'', ''ioheavy'', ''size600'', ''cryptokitties'', ''simpleerc20''}"

definition can_generate :: "crypto \<Rightarrow> address list \<Rightarrow> generator \<Rightarrow> wallet \<Rightarrow> bool" where
  "can_generate cr addrs g w \<longleftrightarrow> wallet_inv cr w \<and> (\<forall>a \<in> set addrs. keypairs w a \<noteq> None) \<and>
     known_type (transaction_type g) \<and> value_min g \<le> value_max g"

definition choice_ok :: "address list \<Rightarrow> choice \<Rightarrow> bool" where
  "choice_ok addrs ch \<longleftrightarrow> ch_from ch < length addrs \<and> ch_to ch < length addrs"

lemma draw_value_ok: "value_min g \<le> value_max g \<Longrightarrow> \<exists>v. draw_value g ch = Ok v"
  by (simp add: draw_value_def Let_def word_le_nat_alt)

lemma signed_by_key:
  assumes "wallet_inv cr w" and "keypairs w a = Some kp" and "\<And>a. nonce_of w a + 1 < 2 ^ 256"
  shows "\<exists>tx w'. signed_by cr (keypairs w a) act v data w = Ok (Inr tx, w') \<and> keypairs w' = keypairs w \<and>
    check_signature_batch cr [tx] \<and> (\<forall>x. nonce_of w' x \<le> nonce_of w x + 1)"
proof -
  have "\<And>k. Some kp = Some k \<Longrightarrow> \<exists>a. keypairs w a = Some k" using assms(2) by blast
  then obtain r w' where r: "signed_by cr (Some kp) act v data w = Ok (r, w')" "keypairs w' = keypairs w"
    "case r of Inl e \<Rightarrow> Some kp = None \<and> nonce_of w' = nonce_of w
     | Inr tx \<Rightarrow> check_signature_batch cr [tx] \<and> tx_nonce tx = nonce_of w (stx_sender tx) \<and>
         nonce_of w' = (nonce_of w)(stx_sender tx := nonce_of w (stx_sender tx) + 1)"
    using signed_by_ok [where kp = "Some kp" and act = act and v = v and data = data, OF assms(1) _ assms(3)] by blast
  then obtain tx where "r = Inr tx" by (cases r) simp_all
  then show ?thesis using r unfolding assms(2) by simp
qed

lemma generate_transaction_ok:
  assumes can: "can_generate cr addrs g w" and ch: "choice_ok addrs ch" and small: "\<And>a. nonce_of w a + 1 < 2 ^ 256"
  shows "\<exists>tx g' w'. generate_transaction cr addrs ch (g, w) = Ok (Inr tx, g', w') \<and> can_generate cr addrs g' w' \<and>
    generator_state g' = generator_state g \<and> check_signature_batch cr [tx] \<and> (\<forall>x. nonce_of w' x \<le> nonce_of w x + 1)"
proof -
  let ?addr = "addrs ! ch_from ch" and ?to = "addrs ! ch_to ch"
  obtain val where val: "draw_value g ch = Ok val" using draw_value_ok [of g ch] can by (auto simp: can_generate_def)
  obtain kp where kp: "keypairs w ?addr = Some kp" using can ch nth_mem [of "ch_from ch" addrs] by (auto simp: can_generate_def choice_ok_def simp del: nth_mem)
  have inv: "wallet_inv cr w" using can by (simp add: can_generate_def)
  have keep: "can_generate cr addrs (g\<lparr>has_erc20_ico := S\<rparr>) w'" "can_generate cr addrs g w'" if "keypairs w' = keypairs w" for w' S
    using can that by (simp_all add: can_generate_def wallet_inv_def)
  have call: "\<exists>tx w'. rbind (create_transaction_call cr ?addr (contract target) data w) (\<lambda>(tx, w1). Ok (tx, g1, w1)) = Ok (Inr tx, g1, w') \<and>
      keypairs w' = keypairs w \<and> check_signature_batch cr [tx] \<and> (\<forall>x. nonce_of w' x \<le> nonce_of w x + 1)" for target data g1
    using signed_by_key [OF inv kp small, of "Call (contract target)" 0 data] by (auto simp: create_transaction_call_def)
  have pay: "\<exists>tx w'. rbind (create_transaction_payment cr ?addr ?to val w) (\<lambda>(tx, w1). Ok (tx, g, w1)) = Ok (Inr tx, g, w') \<and>
      keypairs w' = keypairs w \<and> check_signature_batch cr [tx] \<and> (\<forall>x. nonce_of w' x \<le> nonce_of w x + 1)"
    using signed_by_key [OF inv kp small, of "Call ?to" val "[]"] by (auto simp: create_transaction_payment_def)
  have nth: "rnth addrs (ch_from ch) = Ok ?addr" "rnth addrs (ch_to ch) = Ok ?to" using ch by (simp_all add: choice_ok_def)
  have run: "\<exists>g1 tx w'. generate_transaction cr addrs ch (g, w) = Ok (Inr tx, g1, w') \<and> (g1 = g \<or> (\<exists>S. g1 = g\<lparr>has_erc20_ico := S\<rparr>)) \<and>
      keypairs w' = keypairs w \<and> check_signature_batch cr [tx] \<and> (\<forall>x. nonce_of w' x \<le> nonce_of w x + 1)"
    (is "\<exists>g1. ?R g1")
  proof -
    have t: "known_type (transaction_type g)" using can by (simp add: can_generate_def)
    have gt: "generate_transaction cr addrs ch (g, w) =
        (if transaction_type g = ''payment'' then rbind (create_transaction_payment cr ?addr ?to val w) (\<lambda>(tx, w1). Ok (tx, g, w1)) else x)"
      if "transaction_type g = ''payment''" for x using that val nth by (simp add: generate_transaction_def)
    have other: "\<exists>target data g1. generate_transaction cr addrs ch (g, w) =
        rbind (create_transaction_call cr ?addr (contract target) data w) (\<lambda>(tx, w1). Ok (tx, g1, w1)) \<and> (g1 = g \<or> (\<exists>S. g1 = g\<lparr>has_erc20_ico := S\<rparr>))"
      if "transaction_type g \<noteq> ''payment''"
      using that t val nth unfolding known_type_def by (simp add: generate_transaction_def Let_def) (elim disjE; simp; blast)
    show ?thesis
    proof (cases "transaction_type g = ''payment''")
      case True
      then show ?thesis using pay gt by auto
    next
      case False
      then obtain target data g1 where o: "generate_transaction cr addrs ch (g, w) =
        rbind (create_transaction_call cr ?addr (contract target) data w) (\<lambda>(tx, w1). Ok (tx, g1, w1))"
        "g1 = g \<or> (\<exists>S. g1 = g\<lparr>has_erc20_ico := S\<rparr>)" using other by blast
      from call [of target data g1] show ?thesis unfolding o(1) using o(2) by blast
    qed
  qed
  then show ?thesis using keep by fastforce
qed

text \<open>Rounds without a control signal, with the transactions they make.\<close>

definition quiet_round :: "crypto \<Rightarrow> address list \<Rightarrow> choice \<Rightarrow> transaction list \<times> generation \<Rightarrow> (transaction list \<times> generation) res" where
  "quiet_round cr addrs ch acc =
     (case acc of (txs, s) \<Rightarrow>
      rbind (generator_round cr addrs None ch s) (\<lambda>(t, s1). Ok (txs @ (case t of Some tx \<Rightarrow> [tx] | None \<Rightarrow> []), s1)))"

fun steps_left :: "generator_state \<Rightarrow> nat option" where
  "steps_left (Continuous throttle) = None"
| "steps_left GeneratorPaused = Some 0"
| "steps_left (GeneratorStep n) = (if n = 0 then None else Some (unat n))"

lemma count_step_left:
  "steps_left (generator_state g) = Some (Suc k) \<Longrightarrow> steps_left (generator_state (count_step g)) = Some k"
proof (cases "generator_state g")
  case (GeneratorStep n)
  assume "steps_left (generator_state g) = Some (Suc k)"
  then have n: "n \<noteq> 0" "unat n = Suc k" using GeneratorStep by (simp_all split: if_splits)
  then have "unat (n - 1) = k" using unat_minus_one [of n] by simp
  moreover from this have "n - 1 = 0 \<longleftrightarrow> k = 0" by (metis unat_eq_zero)
  ultimately show ?thesis using GeneratorStep by (auto simp: count_step_def)
qed simp_all

lemma can_generate_count_step [simp]: "can_generate cr addrs (count_step g) w = can_generate cr addrs g w"
  by (auto simp: can_generate_def count_step_def split: generator_state.splits)

lemma quiet_rounds:
  assumes "can_generate cr addrs (gen_generator s) (gen_wallet s)" and "\<forall>ch \<in> set chs. choice_ok addrs ch"
    and "\<And>a. nonce_of (gen_wallet s) a + length chs < 2 ^ 256" and "steps_left (generator_state (gen_generator s)) = Some n"
  shows "\<exists>txs s'. rfold (quiet_round cr addrs) chs (txs0, s) = Ok (txs0 @ txs, s') \<and> length txs = min n (length chs) \<and>
    steps_left (generator_state (gen_generator s')) = Some (n - length chs) \<and> check_signature_batch cr txs \<and>
    gen_pool s' = fold new_transaction txs (gen_pool s)"
  using assms
proof (induction chs arbitrary: txs0 s n)
  case (Cons ch chs)
  show ?case
  proof (cases n)
    case 0
    then have "generator_state (gen_generator s) = GeneratorPaused"
      using Cons.prems(4) by (cases "generator_state (gen_generator s)") (auto split: if_splits simp: unat_eq_zero)
    then have step: "quiet_round cr addrs ch (txs0, s) = Ok (txs0, s)" by (simp add: quiet_round_def generator_round_def)
    have "\<And>a. nonce_of (gen_wallet s) a + length chs < 2 ^ 256" using Cons.prems(3) by (metis Suc_lessD add_Suc_right length_Cons)
    then show ?thesis using Cons.IH [OF Cons.prems(1) _ _ Cons.prems(4), of txs0] Cons.prems(2) step 0 by auto
  next
    case (Suc k)
    have small: "\<And>a. nonce_of (gen_wallet s) a + 1 < 2 ^ 256"
      using Cons.prems(3) by (metis One_nat_def Suc_leI add_le_cancel_left le_less_trans length_Cons zero_less_Suc)
    have ch: "choice_ok addrs ch" using Cons.prems(2) by simp
    obtain tx g w where t: "generate_transaction cr addrs ch (gen_generator s, gen_wallet s) = Ok (Inr tx, g, w)"
      "can_generate cr addrs g w" "generator_state g = generator_state (gen_generator s)" "check_signature_batch cr [tx]"
      "\<And>x. nonce_of w x \<le> nonce_of (gen_wallet s) x + 1"
      using generate_transaction_ok [OF Cons.prems(1) ch small] by blast
    define s1 where "s1 = \<lparr>gen_generator = count_step g, gen_wallet = w, gen_pool = new_transaction tx (gen_pool s),
        gen_perf = record_generate_transaction (Some tx) (gen_perf s)\<rparr>"
    obtain m where "generator_state (gen_generator s) = GeneratorStep m"
      using Cons.prems(4) Suc by (cases "generator_state (gen_generator s)") simp_all
    then have step: "quiet_round cr addrs ch (txs0, s) = Ok (txs0 @ [tx], s1)"
      using t(1) by (simp add: quiet_round_def generator_round_def generate_def s1_def)
    have left: "steps_left (generator_state (gen_generator s1)) = Some k"
      using count_step_left [of g k] t(3) Cons.prems(4) Suc by (simp add: s1_def)
    have small1: "nonce_of (gen_wallet s1) a + length chs < 2 ^ 256" for a
      using t(5) [of a] Cons.prems(3) [of a] by (simp add: s1_def)
    have can1: "can_generate cr addrs (gen_generator s1) (gen_wallet s1)" using t(2) by (simp add: s1_def)
    obtain txs s' where ih: "rfold (quiet_round cr addrs) chs (txs0 @ [tx], s1) = Ok ((txs0 @ [tx]) @ txs, s')" "length txs = min k (length chs)"
      "steps_left (generator_state (gen_generator s')) = Some (k - length chs)" "check_signature_batch cr txs"
      "gen_pool s' = fold new_transaction txs (gen_pool s1)"
      using Cons.IH [OF can1 _ small1 left, of "txs0 @ [tx]"] Cons.prems(2) by auto
    have "check_signature_batch cr ([tx] @ txs)" using t(4) ih(4) by (simp only: check_signature_batch_append)
    then show ?thesis using step ih Suc by (intro exI [of _ "tx # txs"] exI [of _ s']) (simp add: s1_def)
  qed
qed simp


text \<open>Two rounds of a wallet with one key.\<close>

definition example_generation :: generation where
  "example_generation = \<lparr>gen_generator = handle_generator_signal (StepGenerating 1) generator_new,
     gen_wallet = snd (load_keypair example_crypto \<lparr>kp_secret = 3, kp_public = 3\<rparr> wallet_new),
     gen_pool = pool_new 10, gen_perf = counter_default\<rparr>"


end
