(* ===== verification/Prism_State.thy ===== *)
theory Prism_State
  imports Prism_Transaction
begin

text \<open>
  The account state on which transactions are executed (\<open>parity-ethereum/ethcore/account-state\<close>): a cache of
  accounts over the tries of the state database, with a stack of checkpoints that keep the former entries of
  the accounts changed since. The tries, the shared caches of the database and the eviction of the
  storage caches are the parameter \<open>backend\<close>. Committing the cache to the tries is not part of the model.
\<close>

section \<open>Accounts\<close>

type_synonym slots = "h256 \<rightharpoonup> h256"

record account =
  ac_balance :: u256
  ac_nonce :: u256
  ac_storage_root :: h256
  ac_storage_cache :: slots
  ac_original_storage_cache :: "(h256 \<times> slots) option"
  ac_storage_changes :: slots
  ac_code_hash :: h256
  ac_code_size :: "nat option"
  ac_code_cache :: bytes
  ac_code_version :: u256
  ac_code_dirty :: bool

text \<open>The account trie and the shared account cache, where \<open>Some None\<close> is an account known not to exist; the filter of
  accounts that are not in the trie; the storage tries by root; the code by hash, in the database and in the shared cache;
  adding to a storage cache, which may evict; the root of the empty trie, the hash of empty code, and Keccak.\<close>

record backend =
  be_account :: "address \<rightharpoonup> account"
  be_cached :: "address \<rightharpoonup> account option"
  be_known_null :: "address \<Rightarrow> bool"
  be_store :: "h256 \<Rightarrow> h256 \<Rightarrow> h256"
  be_code :: "h256 \<rightharpoonup> bytes"
  be_cached_code :: "h256 \<rightharpoonup> bytes"
  be_cache_add :: "slots \<Rightarrow> slots \<Rightarrow> slots"
  be_null_rlp :: h256
  be_empty_code :: h256
  be_keccak :: "bytes \<Rightarrow> h256"

definition new_basic :: "backend \<Rightarrow> u256 \<Rightarrow> u256 \<Rightarrow> account" where
  "new_basic be balance nonce = \<lparr>ac_balance = balance, ac_nonce = nonce, ac_storage_root = be_null_rlp be,
     ac_storage_cache = Map.empty, ac_original_storage_cache = None, ac_storage_changes = Map.empty,
     ac_code_hash = be_empty_code be, ac_code_size = Some 0, ac_code_cache = [], ac_code_version = 0, ac_code_dirty = False\<rparr>"

definition contract_account :: "backend \<Rightarrow> u256 \<Rightarrow> u256 \<Rightarrow> u256 \<Rightarrow> h256 \<Rightarrow> account" where
  "contract_account be balance nonce version original_storage_root =
     \<lparr>ac_balance = balance, ac_nonce = nonce, ac_storage_root = be_null_rlp be, ac_storage_cache = Map.empty,
      ac_original_storage_cache =
        (if original_storage_root = be_null_rlp be then None else Some (original_storage_root, Map.empty)),
      ac_storage_changes = Map.empty, ac_code_hash = be_empty_code be, ac_code_size = None, ac_code_cache = [],
      ac_code_version = version, ac_code_dirty = False\<rparr>"

definition ac_init_code :: "backend \<Rightarrow> bytes \<Rightarrow> account \<Rightarrow> account" where
  "ac_init_code be code ac = ac\<lparr>ac_code_hash := be_keccak be code, ac_code_cache := code, ac_code_size := Some (length code),
     ac_code_dirty := True\<rparr>"

definition ac_set_storage :: "h256 \<Rightarrow> h256 \<Rightarrow> account \<Rightarrow> account" where
  "ac_set_storage key val ac = ac\<lparr>ac_storage_changes := (ac_storage_changes ac)(key \<mapsto> val)\<rparr>"

definition cached_moved_original_storage_at :: "backend \<Rightarrow> h256 \<Rightarrow> account \<Rightarrow> h256 option" where
  "cached_moved_original_storage_at be key ac =
     (if ac_storage_root ac = be_null_rlp be then Some 0 else ac_storage_cache ac key)"

definition cached_storage_at :: "backend \<Rightarrow> h256 \<Rightarrow> account \<Rightarrow> h256 option" where
  "cached_storage_at be key ac =
     (case ac_storage_changes ac key of Some v \<Rightarrow> Some v | None \<Rightarrow> cached_moved_original_storage_at be key ac)"

definition ac_storage_at :: "backend \<Rightarrow> h256 \<Rightarrow> account \<Rightarrow> h256 \<times> account" where
  "ac_storage_at be key ac =
     (case cached_storage_at be key ac of
        Some v \<Rightarrow> (v, ac)
      | None \<Rightarrow>
          let v = be_store be (ac_storage_root ac) key
          in (v, ac\<lparr>ac_storage_cache := be_cache_add be (ac_storage_cache ac) [key \<mapsto> v]\<rparr>))"

definition ac_original_storage_root :: "account \<Rightarrow> h256" where
  "ac_original_storage_root ac =
     (case ac_original_storage_cache ac of Some (root, _) \<Rightarrow> root | None \<Rightarrow> ac_storage_root ac)"

definition ac_inc_nonce :: "account \<Rightarrow> account" where
  "ac_inc_nonce ac = ac\<lparr>ac_nonce := word_of_nat (min (unat (ac_nonce ac) + 1) (2 ^ 256 - 1))\<rparr>"

definition ac_add_balance :: "u256 \<Rightarrow> account \<Rightarrow> account" where
  "ac_add_balance x ac = ac\<lparr>ac_balance := word_of_nat (min (unat (ac_balance ac) + unat x) (2 ^ 256 - 1))\<rparr>"

definition ac_sub_balance :: "u256 \<Rightarrow> account \<Rightarrow> account res" where
  "ac_sub_balance x ac = (if x \<le> ac_balance ac then Ok (ac\<lparr>ac_balance := ac_balance ac - x\<rparr>) else Panic ExplicitPanic)"

definition ac_clone_dirty :: "account \<Rightarrow> account" where
  "ac_clone_dirty ac = ac\<lparr>ac_storage_cache := Map.empty,
     ac_original_storage_cache := map_option (\<lambda>(root, _). (root, Map.empty)) (ac_original_storage_cache ac)\<rparr>"

definition ac_overwrite_with :: "backend \<Rightarrow> account \<Rightarrow> account \<Rightarrow> account" where
  "ac_overwrite_with be other ac =
     other\<lparr>ac_storage_cache :=
       (if ac_storage_root ac = ac_storage_root other
        then be_cache_add be (ac_storage_cache ac) (ac_storage_cache other) else ac_storage_cache other)\<rparr>"

definition ac_is_cached :: "backend \<Rightarrow> account \<Rightarrow> bool" where
  "ac_is_cached be ac \<longleftrightarrow> ac_code_cache ac \<noteq> [] \<or> ac_code_hash ac = be_empty_code be"

definition ac_is_null :: "backend \<Rightarrow> account \<Rightarrow> bool" where
  "ac_is_null be ac \<longleftrightarrow> ac_balance ac = 0 \<and> ac_nonce ac = 0 \<and> ac_code_hash ac = be_empty_code be"

definition reset_code_and_storage :: "backend \<Rightarrow> bytes \<Rightarrow> slots \<Rightarrow> account \<Rightarrow> account" where
  "reset_code_and_storage be code storage ac = ac\<lparr>ac_code_hash := be_keccak be code, ac_code_cache := code,
     ac_code_size := Some (length code), ac_code_dirty := True, ac_storage_cache := Map.empty, ac_storage_changes := storage,
     ac_original_storage_cache :=
       (if ac_storage_root ac \<noteq> be_null_rlp be then Some (ac_storage_root ac, Map.empty) else ac_original_storage_cache ac),
     ac_storage_root := be_null_rlp be\<rparr>"

definition ac_code :: "backend \<Rightarrow> account \<Rightarrow> bytes option" where
  "ac_code be ac = (if ac_code_hash ac \<noteq> be_empty_code be \<and> ac_code_cache ac = [] then None else Some (ac_code_cache ac))"

section \<open>Code caching\<close>

datatype require_cache = RequireNone | RequireCodeSize | RequireCode

text \<open>The result is \<open>None\<close> when the database does not have the code.\<close>

definition cache_given_code :: "bytes \<Rightarrow> account \<Rightarrow> account" where
  "cache_given_code code ac = ac\<lparr>ac_code_size := Some (length code), ac_code_cache := code\<rparr>"

definition cache_code_size :: "backend \<Rightarrow> account \<Rightarrow> account option" where
  "cache_code_size be ac =
     (if ac_code_size ac \<noteq> None then Some ac
      else if ac_code_hash ac \<noteq> be_empty_code be
      then map_option (\<lambda>x. ac\<lparr>ac_code_size := Some (length x)\<rparr>) (be_code be (ac_code_hash ac))
      else Some (ac\<lparr>ac_code_size := Some 0\<rparr>))"

definition update_account_cache :: "backend \<Rightarrow> require_cache \<Rightarrow> account \<Rightarrow> account option" where
  "update_account_cache be require ac =
     (if require = RequireNone \<or> ac_is_cached be ac then Some ac
      else (case be_cached_code be (ac_code_hash ac) of
              Some code \<Rightarrow> Some (cache_given_code code ac)
            | None \<Rightarrow>
                if require = RequireCode
                then map_option (\<lambda>code. cache_given_code code ac) (be_code be (ac_code_hash ac))
                else cache_code_size be ac))"

section \<open>Entries, cache and checkpoints\<close>

datatype entry_state = CleanFresh | CleanCached | Dirty | Committed

record account_entry =
  ae_account :: "account option"
  ae_old_balance :: "u256 option"
  ae_state :: entry_state

definition new_entry :: "entry_state \<Rightarrow> account option \<Rightarrow> account_entry" where
  "new_entry st ac = \<lparr>ae_account = ac, ae_old_balance = map_option ac_balance ac, ae_state = st\<rparr>"

definition entry_clone_dirty :: "account_entry \<Rightarrow> account_entry" where
  "entry_clone_dirty e = e\<lparr>ae_account := map_option ac_clone_dirty (ae_account e)\<rparr>"

definition entry_overwrite_with :: "backend \<Rightarrow> account_entry \<Rightarrow> account_entry \<Rightarrow> account_entry" where
  "entry_overwrite_with be other e = e\<lparr>ae_state := ae_state other,
     ae_account := (case ae_account other of
        Some ac \<Rightarrow> (case ae_account e of Some ours \<Rightarrow> Some (ac_overwrite_with be ac ours) | None \<Rightarrow> Some ac)
      | None \<Rightarrow> None)\<rparr>"

text \<open>The checkpoints with the last one first.\<close>

record world =
  w_cache :: "address \<rightharpoonup> account_entry"
  w_checkpoints :: "(address \<rightharpoonup> account_entry option) list"
  w_start_nonce :: u256

definition from_existing :: "u256 \<Rightarrow> world" where
  "from_existing start_nonce = \<lparr>w_cache = Map.empty, w_checkpoints = [], w_start_nonce = start_nonce\<rparr>"

definition checkpoint :: "world \<Rightarrow> nat \<times> world" where
  "checkpoint s = (length (w_checkpoints s), s\<lparr>w_checkpoints := Map.empty # w_checkpoints s\<rparr>)"

definition discard_checkpoint :: "world \<Rightarrow> world" where
  "discard_checkpoint s =
     (case w_checkpoints s of
        [] \<Rightarrow> s
      | [c] \<Rightarrow> s\<lparr>w_checkpoints := []\<rparr>
      | c # prev # cs \<Rightarrow> s\<lparr>w_checkpoints := (if prev = Map.empty then c else c ++ prev) # cs\<rparr>)"

definition revert_entry :: "backend \<Rightarrow> account_entry option option \<Rightarrow> account_entry option \<Rightarrow> account_entry option" where
  "revert_entry be saved current =
     (case saved of
        None \<Rightarrow> current
      | Some (Some v) \<Rightarrow> Some (case current of Some e \<Rightarrow> entry_overwrite_with be v e | None \<Rightarrow> v)
      | Some None \<Rightarrow> (case current of Some e \<Rightarrow> if ae_state e = Dirty then None else Some e | None \<Rightarrow> None))"

definition revert_to_checkpoint :: "backend \<Rightarrow> world \<Rightarrow> world" where
  "revert_to_checkpoint be s =
     (case w_checkpoints s of
        [] \<Rightarrow> s
      | c # cs \<Rightarrow> s\<lparr>w_cache := (\<lambda>a. revert_entry be (c a) (w_cache s a)), w_checkpoints := cs\<rparr>)"

text \<open>Keep an entry in the last checkpoint, unless it has one of that address.\<close>

definition keep_in_checkpoint :: "address \<Rightarrow> account_entry option \<Rightarrow> world \<Rightarrow> world" where
  "keep_in_checkpoint a v s =
     (case w_checkpoints s of
        [] \<Rightarrow> s
      | c # cs \<Rightarrow> s\<lparr>w_checkpoints := (if c a = None then c(a \<mapsto> v) else c) # cs\<rparr>)"

definition insert_cache :: "address \<Rightarrow> account_entry \<Rightarrow> world \<Rightarrow> world" where
  "insert_cache a e s =
     (let s1 = s\<lparr>w_cache := (w_cache s)(a \<mapsto> e)\<rparr> in
      if ae_state e = Dirty then keep_in_checkpoint a (w_cache s a) s1 else s1)"

definition note_cache :: "address \<Rightarrow> world \<Rightarrow> world" where
  "note_cache a s = keep_in_checkpoint a (map_option entry_clone_dirty (w_cache s a)) s"

section \<open>Access to accounts\<close>

datatype trie_error = IncompleteDatabase | NonceOverflow

definition ensure_cached ::
  "backend \<Rightarrow> address \<Rightarrow> require_cache \<Rightarrow> bool \<Rightarrow> world \<Rightarrow> (trie_error + account option) \<times> world" where
  "ensure_cached be a require check_null s =
     (case w_cache s a of
        Some e \<Rightarrow>
          (case ae_account e of
             Some ac \<Rightarrow>
               (case update_account_cache be require ac of
                  Some ac1 \<Rightarrow> (Inr (Some ac1), s\<lparr>w_cache := (w_cache s)(a \<mapsto> e\<lparr>ae_account := Some ac1\<rparr>)\<rparr>)
                | None \<Rightarrow> (Inl IncompleteDatabase, s))
           | None \<Rightarrow> (Inr None, s))
      | None \<Rightarrow>
          (case be_cached be a of
             Some (Some ac) \<Rightarrow>
               (case update_account_cache be require ac of
                  Some ac1 \<Rightarrow> (Inr (Some ac1), s)
                | None \<Rightarrow> (Inl IncompleteDatabase, s))
           | Some None \<Rightarrow> (Inr None, s)
           | None \<Rightarrow>
               if check_null \<and> be_known_null be a then (Inr None, s)
               else (case be_account be a of
                       Some ac \<Rightarrow>
                         (case update_account_cache be require ac of
                            Some ac1 \<Rightarrow> (Inr (Some ac1), insert_cache a (new_entry CleanFresh (Some ac1)) s)
                          | None \<Rightarrow> (Inl IncompleteDatabase, s))
                     | None \<Rightarrow> (Inr None, insert_cache a (new_entry CleanFresh None) s))))"

text \<open>\<open>require_or_from\<close> hands out the account to be changed: here the change is an argument, with the default for an
  account that does not exist.\<close>

definition load :: "backend \<Rightarrow> address \<Rightarrow> world \<Rightarrow> world" where
  "load be a s =
     (if w_cache s a \<noteq> None then s
      else insert_cache a
        (case be_cached be a of
           Some ac \<Rightarrow> new_entry CleanCached ac
         | None \<Rightarrow> new_entry CleanFresh (if be_known_null be a then None else be_account be a)) s)"

definition require_or_from ::
  "backend \<Rightarrow> address \<Rightarrow> bool \<Rightarrow> account \<Rightarrow> (account \<Rightarrow> account res) \<Rightarrow> world \<Rightarrow> (trie_error option \<times> world) res" where
  "require_or_from be a require_code dflt f s =
     (let s1 = note_cache a (load be a s) in
      case w_cache s1 a of
        None \<Rightarrow> Panic UnwrapNone
      | Some e \<Rightarrow>
          let ac = (case ae_account e of Some ac \<Rightarrow> ac | None \<Rightarrow> dflt);
              put = (\<lambda>ac. s1\<lparr>w_cache := (w_cache s1)(a \<mapsto> e\<lparr>ae_account := Some ac, ae_state := Dirty\<rparr>)\<rparr>)
          in (case (if require_code then update_account_cache be RequireCode ac else Some ac) of
                None \<Rightarrow> Ok (Some IncompleteDatabase, put ac)
              | Some ac1 \<Rightarrow> rbind (f ac1) (\<lambda>ac2. Ok (None, put ac2))))"

definition require :: "backend \<Rightarrow> address \<Rightarrow> (account \<Rightarrow> account res) \<Rightarrow> world \<Rightarrow> (trie_error option \<times> world) res" where
  "require be a f s = require_or_from be a False (new_basic be 0 (w_start_nonce s)) f s"

section \<open>Queries\<close>

definition state_exists :: "backend \<Rightarrow> address \<Rightarrow> world \<Rightarrow> (trie_error + bool) \<times> world" where
  "state_exists be a s = (case ensure_cached be a RequireNone False s of (r, s1) \<Rightarrow> (map_sum id (\<lambda>ac. ac \<noteq> None) r, s1))"

definition exists_and_not_null :: "backend \<Rightarrow> address \<Rightarrow> world \<Rightarrow> (trie_error + bool) \<times> world" where
  "exists_and_not_null be a s =
     (case ensure_cached be a RequireNone False s of
        (r, s1) \<Rightarrow> (map_sum id (\<lambda>ac. case ac of Some x \<Rightarrow> \<not> ac_is_null be x | None \<Rightarrow> False) r, s1))"

definition exists_and_has_code_or_nonce :: "backend \<Rightarrow> address \<Rightarrow> world \<Rightarrow> (trie_error + bool) \<times> world" where
  "exists_and_has_code_or_nonce be a s =
     (case ensure_cached be a RequireCodeSize False s of
        (r, s1) \<Rightarrow> (map_sum id (\<lambda>ac. case ac of
            Some x \<Rightarrow> ac_code_hash x \<noteq> be_empty_code be \<or> ac_nonce x \<noteq> w_start_nonce s
          | None \<Rightarrow> False) r, s1))"

definition state_balance :: "backend \<Rightarrow> address \<Rightarrow> world \<Rightarrow> (trie_error + u256) \<times> world" where
  "state_balance be a s =
     (case ensure_cached be a RequireNone True s of
        (r, s1) \<Rightarrow> (map_sum id (\<lambda>ac. case ac of Some x \<Rightarrow> ac_balance x | None \<Rightarrow> 0) r, s1))"

definition state_nonce :: "backend \<Rightarrow> address \<Rightarrow> world \<Rightarrow> (trie_error + u256) \<times> world" where
  "state_nonce be a s =
     (case ensure_cached be a RequireNone True s of
        (r, s1) \<Rightarrow> (map_sum id (\<lambda>ac. case ac of Some x \<Rightarrow> ac_nonce x | None \<Rightarrow> w_start_nonce s) r, s1))"

definition state_original_storage_root :: "backend \<Rightarrow> address \<Rightarrow> world \<Rightarrow> (trie_error + h256) \<times> world" where
  "state_original_storage_root be a s =
     (case ensure_cached be a RequireNone True s of
        (r, s1) \<Rightarrow> (map_sum id (\<lambda>ac. case ac of Some x \<Rightarrow> ac_original_storage_root x | None \<Rightarrow> be_null_rlp be) r, s1))"

definition state_code_hash :: "backend \<Rightarrow> address \<Rightarrow> world \<Rightarrow> (trie_error + h256 option) \<times> world" where
  "state_code_hash be a s =
     (case ensure_cached be a RequireNone True s of (r, s1) \<Rightarrow> (map_sum id (map_option ac_code_hash) r, s1))"

definition state_code_version :: "backend \<Rightarrow> address \<Rightarrow> world \<Rightarrow> (trie_error + u256) \<times> world" where
  "state_code_version be a s =
     (case ensure_cached be a RequireNone True s of
        (r, s1) \<Rightarrow> (map_sum id (\<lambda>ac. case ac of Some x \<Rightarrow> ac_code_version x | None \<Rightarrow> 0) r, s1))"

definition state_code :: "backend \<Rightarrow> address \<Rightarrow> world \<Rightarrow> (trie_error + bytes option) \<times> world" where
  "state_code be a s =
     (case ensure_cached be a RequireCode True s of
        (r, s1) \<Rightarrow> (map_sum id (\<lambda>ac. case ac of Some x \<Rightarrow> ac_code be x | None \<Rightarrow> None) r, s1))"

definition storage_at :: "backend \<Rightarrow> address \<Rightarrow> h256 \<Rightarrow> world \<Rightarrow> h256 \<times> world" where
  "storage_at be a key s =
     (let global = (case be_cached be a of
                      Some (Some ac) \<Rightarrow> Some (fst (ac_storage_at be key ac))
                    | Some None \<Rightarrow> Some 0
                    | None \<Rightarrow> None) in
      case w_cache s a of
        Some e \<Rightarrow>
          (case ae_account e of
             None \<Rightarrow> (0, s)
           | Some ac \<Rightarrow>
               (case cached_storage_at be key ac of
                  Some v \<Rightarrow> (v, s)
                | None \<Rightarrow>
                    (case global of
                       Some v \<Rightarrow> (v, s)
                     | None \<Rightarrow>
                         (case ac_storage_at be key ac of
                            (v, ac1) \<Rightarrow> (v, s\<lparr>w_cache := (w_cache s)(a \<mapsto> e\<lparr>ae_account := Some ac1\<rparr>)\<rparr>)))))
      | None \<Rightarrow>
          (case global of
             Some v \<Rightarrow> (v, s)
           | None \<Rightarrow>
               if be_known_null be a then (0, s)
               else (case be_account be a of
                       None \<Rightarrow> (0, insert_cache a (new_entry CleanFresh None) s)
                     | Some ac \<Rightarrow>
                         (case ac_storage_at be key ac of
                            (v, ac1) \<Rightarrow> (v, insert_cache a (new_entry CleanFresh (Some ac1)) s)))))"

section \<open>Changes\<close>

datatype cleanup_mode = ForceCreate | NoEmpty | TrackTouched "address set"

text \<open>An error of a query ends the operation.\<close>

definition on_ok :: "(trie_error + 'a) \<times> world \<Rightarrow> ('a \<Rightarrow> world \<Rightarrow> (trie_error option \<times> 'b \<times> world) res) \<Rightarrow> 'b \<Rightarrow>
   (trie_error option \<times> 'b \<times> world) res" where
  "on_ok q k b = (case q of (Inl e, s) \<Rightarrow> Ok (Some e, b, s) | (Inr x, s) \<Rightarrow> k x s)"

definition state_add_balance :: "backend \<Rightarrow> address \<Rightarrow> u256 \<Rightarrow> cleanup_mode \<Rightarrow> world \<Rightarrow> (trie_error option \<times> cleanup_mode \<times> world) res" where
  "state_add_balance be a incr mode s =
     (let add = (\<lambda>s. rbind (require be a (\<lambda>ac. Ok (ac_add_balance incr ac)) s) (\<lambda>(e, s1). Ok (e, mode, s1))) in
      if incr \<noteq> 0 then add s
      else (case mode of
              ForceCreate \<Rightarrow> on_ok (state_exists be a s) (\<lambda>ex s1. if \<not> ex then add s1 else Ok (None, mode, s1)) mode
            | TrackTouched touched \<Rightarrow>
                on_ok (state_exists be a s) (\<lambda>ex s1.
                  if ex then rbind (require be a Ok s1) (\<lambda>(e, s2). Ok (e, TrackTouched (insert a touched), s2))
                  else Ok (None, mode, s1)) mode
            | NoEmpty \<Rightarrow> Ok (None, mode, s)))"

definition state_sub_balance :: "backend \<Rightarrow> address \<Rightarrow> u256 \<Rightarrow> cleanup_mode \<Rightarrow> world \<Rightarrow> (trie_error option \<times> cleanup_mode \<times> world) res" where
  "state_sub_balance be a decr mode s =
     (let touch = (case mode of TrackTouched touched \<Rightarrow> TrackTouched (insert a touched) | _ \<Rightarrow> mode);
          sub = (\<lambda>s. rbind (require be a (ac_sub_balance decr) s) (\<lambda>(e, s1).
                       case e of Some err \<Rightarrow> Ok (Some err, mode, s1) | None \<Rightarrow> Ok (None, touch, s1))) in
      if decr \<noteq> 0 then sub s
      else on_ok (state_exists be a s) (\<lambda>ex s1. if \<not> ex then sub s1 else Ok (None, touch, s1)) mode)"

definition transfer_balance ::
  "backend \<Rightarrow> address \<Rightarrow> address \<Rightarrow> u256 \<Rightarrow> cleanup_mode \<Rightarrow> world \<Rightarrow> (trie_error option \<times> cleanup_mode \<times> world) res" where
  "transfer_balance be from to by_value mode s =
     rbind (state_sub_balance be from by_value mode s) (\<lambda>(e, mode1, s1).
       case e of Some err \<Rightarrow> Ok (Some err, mode1, s1) | None \<Rightarrow> state_add_balance be to by_value mode1 s1)"

definition state_inc_nonce :: "backend \<Rightarrow> address \<Rightarrow> world \<Rightarrow> (trie_error option \<times> world) res" where
  "state_inc_nonce be a s = require be a (\<lambda>ac. Ok (ac_inc_nonce ac)) s"

definition state_set_storage :: "backend \<Rightarrow> address \<Rightarrow> h256 \<Rightarrow> h256 \<Rightarrow> world \<Rightarrow> (trie_error option \<times> world) res" where
  "state_set_storage be a key val s =
     (case storage_at be a key s of
        (v, s1) \<Rightarrow> if v \<noteq> val then require be a (\<lambda>ac. Ok (ac_set_storage key val ac)) s1 else Ok (None, s1))"

text \<open>Also \<open>reset_code\<close>.\<close>

definition state_init_code :: "backend \<Rightarrow> address \<Rightarrow> bytes \<Rightarrow> world \<Rightarrow> (trie_error option \<times> world) res" where
  "state_init_code be a code s =
     require_or_from be a True (contract_account be 0 (w_start_nonce s) 0 (be_null_rlp be)) (\<lambda>ac. Ok (ac_init_code be code ac)) s"

definition state_new_contract :: "backend \<Rightarrow> address \<Rightarrow> u256 \<Rightarrow> u256 \<Rightarrow> u256 \<Rightarrow> world \<Rightarrow> trie_error option \<times> world" where
  "state_new_contract be contract balance nonce_offset version s =
     (case state_original_storage_root be contract s of
        (Inl e, s1) \<Rightarrow> (Some e, s1)
      | (Inr root, s1) \<Rightarrow>
          if 2 ^ 256 \<le> unat (w_start_nonce s1) + unat nonce_offset then (Some NonceOverflow, s1)
          else (None, insert_cache contract
                  (new_entry Dirty (Some (contract_account be balance (w_start_nonce s1 + nonce_offset) version root))) s1))"

definition patch_account :: "backend \<Rightarrow> address \<Rightarrow> bytes \<Rightarrow> slots \<Rightarrow> world \<Rightarrow> (trie_error option \<times> world) res" where
  "patch_account be a code storage s = require be a (\<lambda>ac. Ok (reset_code_and_storage be code storage ac)) s"

definition kill_account :: "address \<Rightarrow> world \<Rightarrow> world" where
  "kill_account a s = insert_cache a (new_entry Dirty None) s"

end
