(* ===== verification/Prism_State_Inv.thy ===== *)
theory Prism_State_Inv
  imports Prism_State
begin

text \<open>
  The account state implements a map from addresses to accounts with a stack of snapshots: caching is
  invisible, a change affects one account and no snapshot, and reverting restores the last snapshot.
\<close>

section \<open>What an account is\<close>

record account_view =
  v_balance :: u256
  v_nonce :: u256
  v_code_hash :: h256
  v_version :: u256
  v_storage :: "h256 \<Rightarrow> h256"

definition overlay :: "(h256 \<Rightarrow> h256) \<Rightarrow> slots \<Rightarrow> h256 \<Rightarrow> h256" where
  "overlay store changes k = (case changes k of Some v \<Rightarrow> v | None \<Rightarrow> store k)"

definition view :: "backend \<Rightarrow> account \<Rightarrow> account_view" where
  "view be ac = \<lparr>v_balance = ac_balance ac, v_nonce = ac_nonce ac, v_code_hash = ac_code_hash ac, v_version = ac_code_version ac,
     v_storage = overlay (be_store be (ac_storage_root ac)) (ac_storage_changes ac)\<rparr>"

definition base :: "backend \<Rightarrow> address \<Rightarrow> account_view option" where
  "base be a = map_option (view be) (be_account be a)"

text \<open>Cached slots are those of the trie, which is the one in the database or the empty one of a new contract, and
  the code is at hand.\<close>

definition code_ok :: "backend \<Rightarrow> account \<Rightarrow> bool" where
  "code_ok be ac \<longleftrightarrow> (ac_code_cache ac = [] \<or> be_keccak be (ac_code_cache ac) = ac_code_hash ac) \<and>
     (ac_code_cache ac = [] \<longrightarrow> ac_code_hash ac = be_empty_code be \<or> be_code be (ac_code_hash ac) \<noteq> None)"

definition account_ok :: "backend \<Rightarrow> address \<Rightarrow> account \<Rightarrow> bool" where
  "account_ok be a ac \<longleftrightarrow> (\<forall>k v. ac_storage_cache ac k = Some v \<longrightarrow> v = be_store be (ac_storage_root ac) k) \<and>
     (ac_storage_root ac = be_null_rlp be \<or> map_option ac_storage_root (be_account be a) = Some (ac_storage_root ac)) \<and> code_ok be ac"

text \<open>What the database promises: the empty trie has no values, a storage cache only holds what was added to it, code is
  found by its hash, the account trie holds unmodified accounts, the shared cache agrees with it, and the filter only
  excludes accounts that it does not have.\<close>

definition backend_ok :: "backend \<Rightarrow> bool" where
  "backend_ok be \<longleftrightarrow> (\<forall>k. be_store be (be_null_rlp be) k = 0) \<and>
     (\<forall>m n k v. be_cache_add be m n k = Some v \<longrightarrow> n k = Some v \<or> m k = Some v) \<and>
     be_keccak be [] = be_empty_code be \<and>
     (\<forall>h c. be_code be h = Some c \<or> be_cached_code be h = Some c \<longrightarrow> be_keccak be c = h) \<and>
     (\<forall>a ac. be_account be a = Some ac \<longrightarrow> ac_storage_changes ac = Map.empty \<and> account_ok be a ac) \<and>
     (\<forall>a x. be_cached be a = Some x \<longrightarrow> map_option (view be) x = base be a \<and>
        (\<forall>ac. x = Some ac \<longrightarrow> ac_storage_changes ac = Map.empty \<and> account_ok be a ac)) \<and>
     (\<forall>a. be_known_null be a \<longrightarrow> be_account be a = None)"

lemma backend_okD:
  assumes "backend_ok be"
  shows "be_store be (be_null_rlp be) k = 0" "be_cache_add be m n k = Some v \<Longrightarrow> n k = Some v \<or> m k = Some v"
    "be_keccak be [] = be_empty_code be" "be_code be h = Some c \<Longrightarrow> be_keccak be c = h" "be_cached_code be h = Some c \<Longrightarrow> be_keccak be c = h"
    "be_account be a = Some ac \<Longrightarrow> ac_storage_changes ac = Map.empty" "be_account be a = Some ac \<Longrightarrow> account_ok be a ac"
    "be_cached be a = Some x \<Longrightarrow> map_option (view be) x = base be a"
    "be_cached be a = Some (Some ac) \<Longrightarrow> account_ok be a ac"
    "be_known_null be a \<Longrightarrow> be_account be a = None"
proof -
  note ok = assms [unfolded backend_ok_def]
  note code = ok [THEN conjunct2, THEN conjunct2, THEN conjunct2, THEN conjunct1, rule_format]
  note accounts = ok [THEN conjunct2, THEN conjunct2, THEN conjunct2, THEN conjunct2, THEN conjunct1, rule_format]
  note cached = ok [THEN conjunct2, THEN conjunct2, THEN conjunct2, THEN conjunct2, THEN conjunct2, THEN conjunct1, rule_format]
  show "be_store be (be_null_rlp be) k = 0" by (rule ok [THEN conjunct1, rule_format])
  show "be_cache_add be m n k = Some v \<Longrightarrow> n k = Some v \<or> m k = Some v" by (rule ok [THEN conjunct2, THEN conjunct1, rule_format])
  show "be_keccak be [] = be_empty_code be" by (rule ok [THEN conjunct2, THEN conjunct2, THEN conjunct1])
  show "be_code be h = Some c \<Longrightarrow> be_keccak be c = h" "be_cached_code be h = Some c \<Longrightarrow> be_keccak be c = h" using code by simp_all
  show "be_account be a = Some ac \<Longrightarrow> ac_storage_changes ac = Map.empty" "be_account be a = Some ac \<Longrightarrow> account_ok be a ac"
    using accounts by simp_all
  show "be_cached be a = Some x \<Longrightarrow> map_option (view be) x = base be a" using cached by simp
  show "be_cached be a = Some (Some ac) \<Longrightarrow> account_ok be a ac" using cached by simp
  show "be_known_null be a \<Longrightarrow> be_account be a = None"
    by (rule ok [THEN conjunct2, THEN conjunct2, THEN conjunct2, THEN conjunct2, THEN conjunct2, THEN conjunct2, rule_format])
qed

lemma cached_storage_at_view:
  assumes "backend_ok be" and "account_ok be a ac" and "cached_storage_at be k ac = Some v"
  shows "v = v_storage (view be ac) k"
  using assms(2,3) backend_okD(1) [OF assms(1)]
  by (auto simp: cached_storage_at_def cached_moved_original_storage_at_def view_def overlay_def account_ok_def split: option.splits if_splits)

lemma ac_storage_at_view:
  assumes be: "backend_ok be" and ok: "account_ok be a ac" and run: "ac_storage_at be k ac = (v, ac1)"
  shows "v = v_storage (view be ac) k" "view be ac1 = view be ac" "account_ok be a ac1"
proof -
  have "v = v_storage (view be ac) k \<and> view be ac1 = view be ac \<and> account_ok be a ac1"
  proof (cases "cached_storage_at be k ac")
    case None
    then have "ac_storage_changes ac k = None" by (simp add: cached_storage_at_def split: option.splits)
    moreover have "ac1 = ac\<lparr>ac_storage_cache := be_cache_add be (ac_storage_cache ac) [k \<mapsto> v]\<rparr>" "v = be_store be (ac_storage_root ac) k"
      using run None by (auto simp: ac_storage_at_def Let_def)
    moreover have "w = be_store be (ac_storage_root ac) x" if "be_cache_add be (ac_storage_cache ac) [k \<mapsto> v] x = Some w" for x w
      using backend_okD(2) [OF be that] ok calculation(3) by (auto simp: account_ok_def split: if_splits)
    ultimately show ?thesis using ok by (simp add: view_def overlay_def account_ok_def code_ok_def)
  next
    case (Some w)
    then show ?thesis using run ok cached_storage_at_view [OF be ok Some] by (auto simp: ac_storage_at_def)
  qed
  then show "v = v_storage (view be ac) k" "view be ac1 = view be ac" "account_ok be a ac1" by simp_all
qed

lemma cache_given_code_view:
  assumes "be_keccak be code = ac_code_hash ac" and "account_ok be a ac" and "be_keccak be [] = be_empty_code be"
  shows "view be (cache_given_code code ac) = view be ac" "account_ok be a (cache_given_code code ac)"
    "ac_code be (cache_given_code code ac) = Some code"
  using assms by (auto simp: cache_given_code_def view_def account_ok_def code_ok_def ac_code_def)

lemma update_account_cache_view:
  assumes be: "backend_ok be" and ok: "account_ok be a ac"
  shows "\<exists>ac1. update_account_cache be req ac = Some ac1 \<and> view be ac1 = view be ac \<and> account_ok be a ac1 \<and>
    (req = RequireCode \<longrightarrow> (\<exists>c. ac_code be ac1 = Some c \<and> be_keccak be c = ac_code_hash ac))"
proof (cases "req = RequireNone \<or> ac_is_cached be ac")
  case True
  then have "\<exists>c. ac_code be ac = Some c \<and> be_keccak be c = ac_code_hash ac" if "req = RequireCode"
    using that ok backend_okD(3) [OF be] by (auto simp: ac_is_cached_def ac_code_def account_ok_def code_ok_def)
  then show ?thesis using True ok by (simp add: update_account_cache_def)
next
  case False
  then have code: "\<exists>c. be_code be (ac_code_hash ac) = Some c" using ok by (auto simp: ac_is_cached_def account_ok_def code_ok_def)
  show ?thesis
  proof (cases "be_cached_code be (ac_code_hash ac)")
    case (Some c)
    then show ?thesis using cache_given_code_view [OF backend_okD(5) [OF be Some] ok backend_okD(3) [OF be]] backend_okD(5) [OF be Some] False
      by (simp add: update_account_cache_def)
  next
    case None
    obtain c where c: "be_code be (ac_code_hash ac) = Some c" using code ..
    then show ?thesis
      using cache_given_code_view [OF backend_okD(4) [OF be c] ok backend_okD(3) [OF be]] backend_okD(4) [OF be c] False None ok
      by (auto simp: update_account_cache_def cache_code_size_def view_def account_ok_def code_ok_def)
  qed
qed

lemma clone_dirty_view: "view be (ac_clone_dirty ac) = view be ac" "account_ok be a ac \<Longrightarrow> account_ok be a (ac_clone_dirty ac)"
  by (simp_all add: ac_clone_dirty_def view_def account_ok_def code_ok_def)

lemma overwrite_with_view:
  assumes be: "backend_ok be" and "account_ok be a other" and "account_ok be a ac"
  shows "view be (ac_overwrite_with be other ac) = view be other" "account_ok be a (ac_overwrite_with be other ac)"
proof -
  show "view be (ac_overwrite_with be other ac) = view be other" by (simp add: ac_overwrite_with_def view_def)
  have "v = be_store be (ac_storage_root other) k"
    if "ac_storage_root ac = ac_storage_root other" "be_cache_add be (ac_storage_cache ac) (ac_storage_cache other) k = Some v" for k v
    using backend_okD(2) [OF be that(2)] assms(2,3) that(1) by (auto simp: account_ok_def)
  then show "account_ok be a (ac_overwrite_with be other ac)" using assms(2) by (auto simp: ac_overwrite_with_def account_ok_def code_ok_def)
qed

section \<open>The state and its snapshots\<close>

definition entry_view :: "backend \<Rightarrow> account_entry \<Rightarrow> account_view option" where
  "entry_view be e = map_option (view be) (ae_account e)"

definition entry_ok :: "backend \<Rightarrow> address \<Rightarrow> account_entry \<Rightarrow> bool" where
  "entry_ok be a e \<longleftrightarrow> (\<forall>ac. ae_account e = Some ac \<longrightarrow> account_ok be a ac) \<and> (ae_state e \<noteq> Dirty \<longrightarrow> entry_view be e = base be a)"

definition world_ok :: "backend \<Rightarrow> world \<Rightarrow> bool" where
  "world_ok be s \<longleftrightarrow> (\<forall>a e. w_cache s a = Some e \<longrightarrow> entry_ok be a e) \<and>
     (\<forall>c \<in> set (w_checkpoints s). \<forall>a v. c a = Some (Some v) \<longrightarrow> entry_ok be a v)"

definition current :: "backend \<Rightarrow> world \<Rightarrow> address \<Rightarrow> account_view option" where
  "current be s a = (case w_cache s a of Some e \<Rightarrow> entry_view be e | None \<Rightarrow> base be a)"

definition undo :: "backend \<Rightarrow> (address \<rightharpoonup> account_entry option) \<Rightarrow> (address \<Rightarrow> account_view option) \<Rightarrow> address \<Rightarrow> account_view option" where
  "undo be c cur a = (case c a of None \<Rightarrow> cur a | Some (Some v) \<Rightarrow> entry_view be v | Some None \<Rightarrow> base be a)"

fun history :: "backend \<Rightarrow> (address \<Rightarrow> account_view option) \<Rightarrow> (address \<rightharpoonup> account_entry option) list \<Rightarrow> (address \<Rightarrow> account_view option) list" where
  "history be cur [] = []"
| "history be cur (c # cs) = undo be c cur # history be (undo be c cur) cs"

definition snapshots :: "backend \<Rightarrow> world \<Rightarrow> (address \<Rightarrow> account_view option) list" where
  "snapshots be s = history be (current be s) (w_checkpoints s)"

lemma world_okD:
  assumes "world_ok be s"
  shows "w_cache s a = Some e \<Longrightarrow> entry_ok be a e" "c \<in> set (w_checkpoints s) \<Longrightarrow> c a = Some (Some v) \<Longrightarrow> entry_ok be a v"
  using assms unfolding world_ok_def by blast+

lemma entry_clone_dirty_ok:
  assumes "entry_ok be a e"
  shows "entry_ok be a (entry_clone_dirty e)" "entry_view be (entry_clone_dirty e) = entry_view be e"
proof -
  show v: "entry_view be (entry_clone_dirty e) = entry_view be e"
    by (cases "ae_account e") (simp_all add: entry_view_def entry_clone_dirty_def clone_dirty_view)
  show "entry_ok be a (entry_clone_dirty e)"
    using assms v clone_dirty_view(2) by (auto simp: entry_ok_def entry_clone_dirty_def)
qed

text \<open>The state for its users: the accounts now and at each checkpoint.\<close>

record accounts =
  a_start_nonce :: u256
  a_now :: "address \<Rightarrow> account_view option"
  a_saved :: "(address \<Rightarrow> account_view option) list"

definition accounts_of :: "backend \<Rightarrow> world \<Rightarrow> accounts" where
  "accounts_of be s = \<lparr>a_start_nonce = w_start_nonce s, a_now = current be s, a_saved = snapshots be s\<rparr>"

lemma entry_ok_account: "entry_ok be a e \<Longrightarrow> ae_account e = Some ac \<Longrightarrow> account_ok be a ac"
  by (simp add: entry_ok_def)

lemma current_entry: "w_cache s a = Some e \<Longrightarrow> current be s a = entry_view be e"
  by (simp add: current_def)

lemma current_base: "w_cache s a = None \<Longrightarrow> current be s a = base be a"
  by (simp add: current_def)

text \<open>Caching an account as it is.\<close>

lemma recache:
  assumes ok: "world_ok be s" and e: "entry_ok be a e" "entry_view be e = current be s a"
  shows "world_ok be (s\<lparr>w_cache := (w_cache s)(a \<mapsto> e)\<rparr>)" "accounts_of be (s\<lparr>w_cache := (w_cache s)(a \<mapsto> e)\<rparr>) = accounts_of be s"
proof -
  show "world_ok be (s\<lparr>w_cache := (w_cache s)(a \<mapsto> e)\<rparr>)" using ok e(1) by (simp add: world_ok_def)
  have "current be (s\<lparr>w_cache := (w_cache s)(a \<mapsto> e)\<rparr>) = current be s" using e(2) by (auto simp: current_def)
  then show "accounts_of be (s\<lparr>w_cache := (w_cache s)(a \<mapsto> e)\<rparr>) = accounts_of be s" by (simp add: accounts_of_def snapshots_def)
qed

lemma insert_clean:
  assumes "world_ok be s" and "w_cache s a = None" and "st \<noteq> Dirty" and "map_option (view be) x = base be a"
    and "\<And>ac. x = Some ac \<Longrightarrow> account_ok be a ac"
  shows "world_ok be (insert_cache a (new_entry st x) s)" "accounts_of be (insert_cache a (new_entry st x) s) = accounts_of be s"
proof -
  have "entry_ok be a (new_entry st x)" "entry_view be (new_entry st x) = current be s a"
    using assms by (auto simp: entry_ok_def entry_view_def new_entry_def current_def)
  from recache [OF assms(1) this] assms(3)
  show "world_ok be (insert_cache a (new_entry st x) s)" "accounts_of be (insert_cache a (new_entry st x) s) = accounts_of be s"
    by (simp_all add: insert_cache_def new_entry_def)
qed

text \<open>Changing an account, after its former entry was kept.\<close>

lemma undo_keep:
  assumes "c a = None" and "case v of Some e \<Rightarrow> entry_view be e = cur a | None \<Rightarrow> base be a = cur a"
  shows "undo be (c(a \<mapsto> v)) (cur(a := x)) = undo be c cur"
  using assms by (auto simp: undo_def fun_eq_iff split: option.splits)

lemma undo_other: "c a \<noteq> None \<Longrightarrow> undo be c (cur(a := x)) = undo be c cur"
  by (auto simp: undo_def fun_eq_iff split: option.splits)

lemma change_entry:
  assumes ok: "world_ok be s" and e: "entry_ok be a e"
    and v: "case v of Some o' \<Rightarrow> entry_ok be a o' \<and> entry_view be o' = current be s a | None \<Rightarrow> base be a = current be s a"
    and s': "s' = (keep_in_checkpoint a v s)\<lparr>w_cache := (w_cache s)(a \<mapsto> e)\<rparr>"
  shows "world_ok be s'" "accounts_of be s' = (accounts_of be s)\<lparr>a_now := (current be s)(a := entry_view be e)\<rparr>"
proof -
  have cache: "w_cache s' = (w_cache s)(a \<mapsto> e)" and nonce: "w_start_nonce s' = w_start_nonce s"
    by (simp_all add: s' keep_in_checkpoint_def split: list.splits)
  then have cur: "current be s' = (current be s)(a := entry_view be e)" by (auto simp: current_def)
  have "world_ok be s' \<and> snapshots be s' = snapshots be s"
  proof (cases "w_checkpoints s")
    case Nil
    then show ?thesis using ok e cache by (simp add: s' keep_in_checkpoint_def world_ok_def snapshots_def)
  next
    case (Cons c cs)
    have cps: "w_checkpoints s' = (if c a = None then c(a \<mapsto> v) else c) # cs" using Cons by (simp add: s' keep_in_checkpoint_def)
    have "undo be (if c a = None then c(a \<mapsto> v) else c) (current be s') = undo be c (current be s)"
      unfolding cur using undo_keep [where c = c and a = a and v = v and be = be and cur = "current be s"] undo_other [of c a be "current be s"] v
      by (auto split: option.splits)
    then have "snapshots be s' = snapshots be s" by (simp add: snapshots_def cps Cons)
    moreover have "world_ok be s'" using ok e v Cons by (auto simp: world_ok_def cache cps split: option.splits)
    ultimately show ?thesis by simp
  qed
  then show "world_ok be s'" "accounts_of be s' = (accounts_of be s)\<lparr>a_now := (current be s)(a := entry_view be e)\<rparr>"
    using cur nonce by (simp_all add: accounts_of_def)
qed

lemma insert_dirty:
  assumes ok: "world_ok be s" and "\<And>ac. x = Some ac \<Longrightarrow> account_ok be a ac"
  shows "world_ok be (insert_cache a (new_entry Dirty x) s)"
    "accounts_of be (insert_cache a (new_entry Dirty x) s) = (accounts_of be s)\<lparr>a_now := (current be s)(a := map_option (view be) x)\<rparr>"
proof -
  let ?e = "new_entry Dirty x"
  have e: "entry_ok be a ?e" "entry_view be ?e = map_option (view be) x" using assms(2) by (simp_all add: entry_ok_def entry_view_def new_entry_def)
  have v: "case w_cache s a of Some o' \<Rightarrow> entry_ok be a o' \<and> entry_view be o' = current be s a | None \<Rightarrow> base be a = current be s a"
    using world_okD(1) [OF ok] by (simp add: current_def split: option.splits)
  have s': "insert_cache a ?e s = (keep_in_checkpoint a (w_cache s a) s)\<lparr>w_cache := (w_cache s)(a \<mapsto> ?e)\<rparr>"
    by (simp add: insert_cache_def new_entry_def keep_in_checkpoint_def Let_def split: list.splits)
  show "world_ok be (insert_cache a ?e s)"
    "accounts_of be (insert_cache a ?e s) = (accounts_of be s)\<lparr>a_now := (current be s)(a := map_option (view be) x)\<rparr>"
    using change_entry [OF ok e(1) v s'] e(2) by simp_all
qed

section \<open>Checkpoints\<close>

lemma checkpoint_refines:
  assumes "world_ok be s"
  shows "world_ok be (snd (checkpoint s))" "accounts_of be (snd (checkpoint s)) = (accounts_of be s)\<lparr>a_saved := current be s # snapshots be s\<rparr>"
proof -
  have cur: "current be (snd (checkpoint s)) = current be s" by (auto simp: checkpoint_def current_def)
  have "undo be Map.empty cur' = cur'" for cur' by (simp add: undo_def fun_eq_iff)
  then show "accounts_of be (snd (checkpoint s)) = (accounts_of be s)\<lparr>a_saved := current be s # snapshots be s\<rparr>"
    by (simp add: accounts_of_def snapshots_def cur) (simp add: checkpoint_def)
  show "world_ok be (snd (checkpoint s))" using assms by (simp add: world_ok_def checkpoint_def)
qed

lemma undo_add: "undo be (c ++ p) cur = undo be p (undo be c cur)"
  by (auto simp: undo_def map_add_def fun_eq_iff split: option.splits)

lemma discard_refines:
  assumes "world_ok be s"
  shows "world_ok be (discard_checkpoint s)" "accounts_of be (discard_checkpoint s) = (accounts_of be s)\<lparr>a_saved := List.tl (snapshots be s)\<rparr>"
proof -
  have cur: "current be (discard_checkpoint s) = current be s" "w_start_nonce (discard_checkpoint s) = w_start_nonce s"
    by (auto simp: discard_checkpoint_def current_def split: list.splits)
  consider "w_checkpoints s = []" | c where "w_checkpoints s = [c]" | c p cs where "w_checkpoints s = c # p # cs"
    by (cases "w_checkpoints s" rule: remdups_adj.cases) auto
  then have "world_ok be (discard_checkpoint s) \<and> snapshots be (discard_checkpoint s) = List.tl (snapshots be s)"
  proof cases
    case 1
    then show ?thesis using assms by (simp add: discard_checkpoint_def snapshots_def)
  next
    case (2 c)
    then show ?thesis using assms by (simp add: discard_checkpoint_def snapshots_def world_ok_def)
  next
    case (3 c p cs)
    then have d: "discard_checkpoint s = s\<lparr>w_checkpoints := (c ++ p) # cs\<rparr>" by (simp add: discard_checkpoint_def)
    have "world_ok be (s\<lparr>w_checkpoints := (c ++ p) # cs\<rparr>)" using assms 3 by (auto simp: world_ok_def map_add_def split: option.splits)
    moreover have "snapshots be (s\<lparr>w_checkpoints := (c ++ p) # cs\<rparr>) = List.tl (snapshots be s)"
      using cur(1) unfolding d by (simp add: snapshots_def 3 undo_add)
    ultimately show ?thesis unfolding d by simp
  qed
  then show "world_ok be (discard_checkpoint s)" "accounts_of be (discard_checkpoint s) = (accounts_of be s)\<lparr>a_saved := List.tl (snapshots be s)\<rparr>"
    using cur by (simp_all add: accounts_of_def)
qed

lemma entry_overwrite_refines:
  assumes be: "backend_ok be" and v: "entry_ok be a v" and e: "entry_ok be a e"
  shows "entry_view be (entry_overwrite_with be v e) = entry_view be v" "entry_ok be a (entry_overwrite_with be v e)"
proof -
  have acc: "map_option (view be) (ae_account (entry_overwrite_with be v e)) = map_option (view be) (ae_account v) \<and>
    (\<forall>ac. ae_account (entry_overwrite_with be v e) = Some ac \<longrightarrow> account_ok be a ac)"
  proof (cases "ae_account v")
    case None
    then show ?thesis by (simp add: entry_overwrite_with_def)
  next
    case (Some other)
    note ok = entry_ok_account [OF v Some]
    show ?thesis
    proof (cases "ae_account e")
      case None
      then show ?thesis using Some ok by (simp add: entry_overwrite_with_def)
    next
      case (Some ours)
      then show ?thesis using \<open>ae_account v = Some other\<close> overwrite_with_view [OF be ok entry_ok_account [OF e Some]]
        by (simp add: entry_overwrite_with_def)
    qed
  qed
  then show view: "entry_view be (entry_overwrite_with be v e) = entry_view be v" by (simp add: entry_view_def)
  have "ae_state (entry_overwrite_with be v e) = ae_state v" by (simp add: entry_overwrite_with_def)
  then show "entry_ok be a (entry_overwrite_with be v e)" using acc view v by (simp add: entry_ok_def)
qed

lemma revert_entry_refines:
  assumes be: "backend_ok be" and v: "\<And>v. c a = Some (Some v) \<Longrightarrow> entry_ok be a v" and e: "\<And>e. w_cache s a = Some e \<Longrightarrow> entry_ok be a e"
  shows "(case revert_entry be (c a) (w_cache s a) of Some e \<Rightarrow> entry_view be e | None \<Rightarrow> base be a) = undo be c (current be s) a"
    "revert_entry be (c a) (w_cache s a) = Some e' \<Longrightarrow> entry_ok be a e'"
proof -
  have "(case revert_entry be (c a) (w_cache s a) of Some e \<Rightarrow> entry_view be e | None \<Rightarrow> base be a) = undo be c (current be s) a \<and>
    (\<forall>e'. revert_entry be (c a) (w_cache s a) = Some e' \<longrightarrow> entry_ok be a e')"
  proof (cases "c a")
    case None
    then show ?thesis using e by (simp add: revert_entry_def undo_def current_def)
  next
    case (Some saved)
    show ?thesis
    proof (cases saved)
      case None
      then show ?thesis using Some e by (auto simp: revert_entry_def undo_def entry_ok_def split: option.splits)
    next
      case (Some w)
      then have w: "c a = Some (Some w)" using \<open>c a = Some saved\<close> by simp
      show ?thesis
        using w v [OF w] entry_overwrite_refines [OF be v [OF w] e] by (cases "w_cache s a") (simp_all add: revert_entry_def undo_def)
    qed
  qed
  then show "(case revert_entry be (c a) (w_cache s a) of Some e \<Rightarrow> entry_view be e | None \<Rightarrow> base be a) = undo be c (current be s) a"
    "revert_entry be (c a) (w_cache s a) = Some e' \<Longrightarrow> entry_ok be a e'" by simp_all
qed

definition restore :: "accounts \<Rightarrow> accounts" where
  "restore st = (case a_saved st of [] \<Rightarrow> st | m # ms \<Rightarrow> st\<lparr>a_now := m, a_saved := ms\<rparr>)"

lemma revert_refines:
  assumes be: "backend_ok be" and ok: "world_ok be s"
  shows "world_ok be (revert_to_checkpoint be s)" "accounts_of be (revert_to_checkpoint be s) = restore (accounts_of be s)"
proof -
  have "world_ok be (revert_to_checkpoint be s) \<and> accounts_of be (revert_to_checkpoint be s) = restore (accounts_of be s)"
  proof (cases "w_checkpoints s")
    case Nil
    then show ?thesis using ok by (simp add: revert_to_checkpoint_def restore_def accounts_of_def snapshots_def)
  next
    case (Cons c cs)
    let ?s = "s\<lparr>w_cache := (\<lambda>a. revert_entry be (c a) (w_cache s a)), w_checkpoints := cs\<rparr>"
    have s: "revert_to_checkpoint be s = ?s" using Cons by (simp add: revert_to_checkpoint_def)
    have saved: "c a = Some (Some v) \<Longrightarrow> entry_ok be a v" for a v using world_okD(2) [OF ok, of c] Cons by simp
    note one = revert_entry_refines [OF be saved world_okD(1) [OF ok]]
    have "current be ?s = undo be c (current be s)" using one(1) by (simp add: current_def fun_eq_iff)
    then have "accounts_of be ?s = restore (accounts_of be s)" by (simp add: accounts_of_def restore_def snapshots_def Cons)
    moreover have "world_ok be ?s" using one(2) ok by (auto simp: world_ok_def Cons)
    ultimately show ?thesis unfolding s by simp
  qed
  then show "world_ok be (revert_to_checkpoint be s)" "accounts_of be (revert_to_checkpoint be s) = restore (accounts_of be s)" by simp_all
qed

section \<open>Queries\<close>

definition code_at_hand :: "backend \<Rightarrow> require_cache \<Rightarrow> account \<Rightarrow> bool" where
  "code_at_hand be req ac \<longleftrightarrow> (req = RequireCode \<longrightarrow> (\<exists>c. ac_code be ac = Some c \<and> be_keccak be c = ac_code_hash ac))"

lemma update_account_cache_refines:
  assumes "backend_ok be" and "account_ok be a ac"
  obtains ac1 where "update_account_cache be req ac = Some ac1" "view be ac1 = view be ac" "account_ok be a ac1" "code_at_hand be req ac1"
proof -
  obtain ac1 where ac1: "update_account_cache be req ac = Some ac1" "view be ac1 = view be ac" "account_ok be a ac1"
    "req = RequireCode \<longrightarrow> (\<exists>c. ac_code be ac1 = Some c \<and> be_keccak be c = ac_code_hash ac)"
    using update_account_cache_view [OF assms] by blast
  moreover have "ac_code_hash ac1 = ac_code_hash ac" using ac1(2) by (simp add: view_def)
  ultimately show ?thesis using that by (simp add: code_at_hand_def)
qed

lemma ensure_cached_refines:
  assumes be: "backend_ok be" and ok: "world_ok be s"
  shows "\<exists>x s1. ensure_cached be a req check_null s = (Inr x, s1) \<and> world_ok be s1 \<and> accounts_of be s1 = accounts_of be s \<and>
    map_option (view be) x = current be s a \<and> (\<forall>ac. x = Some ac \<longrightarrow> code_at_hand be req ac)"
proof (cases "w_cache s a")
  case (Some e)
  note e = world_okD(1) [OF ok Some]
  show ?thesis
  proof (cases "ae_account e")
    case None
    then show ?thesis using Some ok by (simp add: ensure_cached_def current_def entry_view_def)
  next
    case (Some ac)
    obtain ac1 where ac1: "update_account_cache be req ac = Some ac1" "view be ac1 = view be ac" "account_ok be a ac1" "code_at_hand be req ac1"
      by (rule update_account_cache_refines [OF be entry_ok_account [OF e Some]]) (rule that)
    let ?e = "e\<lparr>ae_account := Some ac1\<rparr>"
    have view: "entry_view be ?e = entry_view be e" using Some ac1(2) by (simp add: entry_view_def)
    then have "entry_ok be a ?e" using e ac1(3) by (simp add: entry_ok_def)
    from recache [OF ok this] show ?thesis
      using view Some ac1 \<open>w_cache s a = Some e\<close> by (simp add: ensure_cached_def current_def entry_view_def)
  qed
next
  case None
  note cur = current_base [OF None, of be]
  show ?thesis
  proof (cases "be_cached be a")
    case cached: (Some x)
    note x = backend_okD(8) [OF be cached]
    show ?thesis
    proof (cases x)
      case None
      then show ?thesis using x ok cur cached \<open>w_cache s a = None\<close> by (simp add: ensure_cached_def)
    next
      case (Some ac)
      obtain ac1 where "update_account_cache be req ac = Some ac1" "view be ac1 = view be ac" "code_at_hand be req ac1"
        by (rule update_account_cache_refines [OF be backend_okD(9) [OF be cached [unfolded Some]]]) (rule that)
      then show ?thesis using x ok cur cached Some None by (simp add: ensure_cached_def)
    qed
  next
    case uncached: None
    show ?thesis
    proof (cases "be_account be a")
      case absent: None
      then have "base be a = None" by (simp add: base_def)
      then show ?thesis using insert_clean [OF ok None, of CleanFresh None] None uncached absent ok cur by (simp add: ensure_cached_def)
    next
      case (Some ac)
      then have b: "base be a = Some (view be ac)" "\<not> be_known_null be a" using backend_okD(10) [OF be, of a] by (auto simp: base_def)
      obtain ac1 where ac1: "update_account_cache be req ac = Some ac1" "view be ac1 = view be ac" "account_ok be a ac1" "code_at_hand be req ac1"
        by (rule update_account_cache_refines [OF be backend_okD(7) [OF be Some]]) (rule that)
      then show ?thesis using insert_clean [OF ok None, of CleanFresh "Some ac1"] None uncached Some cur b by (simp add: ensure_cached_def)
    qed
  qed
qed

lemma base_store:
  assumes be: "backend_ok be" and ok: "account_ok be a ac" and miss: "cached_storage_at be k ac = None" and b: "base be a = Some v"
  shows "v_storage v k = v_storage (view be ac) k"
proof -
  have "ac_storage_changes ac k = None" "ac_storage_root ac \<noteq> be_null_rlp be"
    using miss by (auto simp: cached_storage_at_def cached_moved_original_storage_at_def split: option.splits if_splits)
  moreover obtain ac0 where ac0: "be_account be a = Some ac0" "v = view be ac0" using b by (auto simp: base_def)
  ultimately show ?thesis using ok backend_okD(6) [OF be ac0(1)] by (simp add: account_ok_def view_def overlay_def)
qed

definition slot :: "account_view option \<Rightarrow> h256 \<Rightarrow> h256" where
  "slot x k = (case x of Some v \<Rightarrow> v_storage v k | None \<Rightarrow> 0)"

lemma shared_slot:
  assumes be: "backend_ok be" and c: "be_cached be a = Some x"
  shows "(case x of Some ac \<Rightarrow> fst (ac_storage_at be k ac) | None \<Rightarrow> 0) = slot (base be a) k"
proof (cases x)
  case None
  then show ?thesis using backend_okD(8) [OF be c] by (simp add: slot_def)
next
  case (Some ac)
  obtain v ac1 where r: "ac_storage_at be k ac = (v, ac1)" by (cases "ac_storage_at be k ac") simp
  then show ?thesis using ac_storage_at_view(1) [OF be backend_okD(9) [OF be c [unfolded Some]] r] backend_okD(8) [OF be c, symmetric] Some
    by (simp add: slot_def)
qed

lemma storage_at_cached:
  assumes be: "backend_ok be" and ok: "world_ok be s" and e: "w_cache s a = Some e"
  shows "\<exists>s1. storage_at be a k s = (slot (current be s a) k, s1) \<and> world_ok be s1 \<and> accounts_of be s1 = accounts_of be s"
proof (cases "ae_account e")
  case None
  then show ?thesis using e ok by (simp add: storage_at_def current_def entry_view_def slot_def)
next
  case (Some ac)
  note ac = entry_ok_account [OF world_okD(1) [OF ok e] Some]
  have cur: "slot (current be s a) k = v_storage (view be ac) k" using e Some by (simp add: current_def entry_view_def slot_def)
  show ?thesis
  proof (cases "cached_storage_at be k ac")
    case (Some v)
    then show ?thesis using e \<open>ae_account e = Some ac\<close> ok cached_storage_at_view [OF be ac Some] cur by (simp add: storage_at_def)
  next
    case miss: None
    obtain v ac1 where r: "ac_storage_at be k ac = (v, ac1)" by (cases "ac_storage_at be k ac") simp
    note r' = ac_storage_at_view [OF be ac r]
    show ?thesis
    proof (cases "be_cached be a")
      case (Some x)
      have "ac_storage_root ac \<noteq> be_null_rlp be"
        using miss by (auto simp: cached_storage_at_def cached_moved_original_storage_at_def split: option.splits if_splits)
      then obtain b where b: "base be a = Some b" using ac by (auto simp: account_ok_def base_def)
      have "slot (base be a) k = slot (current be s a) k" using base_store [OF be ac miss b] b cur by (simp add: slot_def)
      then show ?thesis using e \<open>ae_account e = Some ac\<close> ok miss Some shared_slot [OF be Some, of k]
        by (cases x) (simp_all add: storage_at_def)
    next
      case None
      let ?e = "e\<lparr>ae_account := Some ac1\<rparr>"
      have view: "entry_view be ?e = entry_view be e" using Some r'(2) by (simp add: entry_view_def)
      then have "entry_ok be a ?e" using world_okD(1) [OF ok e] r'(3) by (simp add: entry_ok_def)
      from recache [OF ok this] show ?thesis
        using view None e \<open>ae_account e = Some ac\<close> miss r r'(1) cur by (simp add: storage_at_def current_entry)
    qed
  qed
qed

lemma storage_at_refines:
  assumes be: "backend_ok be" and ok: "world_ok be s"
  shows "\<exists>s1. storage_at be a k s = (slot (current be s a) k, s1) \<and> world_ok be s1 \<and> accounts_of be s1 = accounts_of be s"
proof (cases "w_cache s a")
  case (Some e)
  show ?thesis by (rule storage_at_cached [OF be ok Some])
next
  case None
  note cur = current_base [OF None, of be]
  show ?thesis
  proof (cases "be_cached be a")
    case (Some x)
    then show ?thesis using shared_slot [OF be Some, of k] cur ok None by (cases x) (simp_all add: storage_at_def)
  next
    case uncached: None
    show ?thesis
    proof (cases "be_account be a")
      case absent: None
      then have "base be a = None" by (simp add: base_def)
      then show ?thesis using insert_clean [OF ok None, of CleanFresh None] None uncached absent ok cur by (simp add: storage_at_def slot_def)
    next
      case (Some ac)
      then have b: "base be a = Some (view be ac)" "\<not> be_known_null be a" using backend_okD(10) [OF be, of a] by (auto simp: base_def)
      obtain v ac1 where r: "ac_storage_at be k ac = (v, ac1)" by (cases "ac_storage_at be k ac") simp
      then show ?thesis
        using ac_storage_at_view [OF be backend_okD(7) [OF be Some] r] insert_clean [OF ok None, of CleanFresh "Some ac1"] None uncached Some cur b
        by (simp add: storage_at_def slot_def)
    qed
  qed
qed

section \<open>Changes\<close>

text \<open>An operation of the state implements one on the accounts, up to a translation of the results.\<close>

definition implements :: "backend \<Rightarrow> ('r \<Rightarrow> 'q) \<Rightarrow> ('r \<times> world) res \<Rightarrow> ('q \<times> accounts) res \<Rightarrow> bool" where
  "implements be ans r q \<longleftrightarrow>
     (case q of Panic p \<Rightarrow> r = Panic p
      | Ok (y, st) \<Rightarrow> \<exists>x s. r = Ok (x, s) \<and> world_ok be s \<and> accounts_of be s = st \<and> ans x = y)"

lemma implements_ok: "world_ok be s \<Longrightarrow> accounts_of be s = st \<Longrightarrow> ans x = y \<Longrightarrow> implements be ans (Ok (x, s)) (Ok (y, st))"
  by (simp add: implements_def)

lemma implements_bind:
  assumes "implements be ans r q" and "\<And>x s. world_ok be s \<Longrightarrow> implements be ans' (f x s) (g (ans x) (accounts_of be s))"
  shows "implements be ans' (rbind r (\<lambda>(x, s). f x s)) (rbind q (\<lambda>(y, st). g y st))"
proof (cases q)
  case (Ok z)
  then obtain x s where "r = Ok (x, s)" "q = Ok (ans x, accounts_of be s)" "world_ok be s"
    using assms(1) by (cases z) (auto simp: implements_def)
  then show ?thesis using assms(2) by simp
next
  case (Panic p)
  then show ?thesis using assms(1) by (simp add: implements_def)
qed

definition blank :: "backend \<Rightarrow> u256 \<Rightarrow> account_view" where
  "blank be nonce = \<lparr>v_balance = 0, v_nonce = nonce, v_code_hash = be_empty_code be, v_version = 0, v_storage = (\<lambda>_. 0)\<rparr>"

definition existing :: "backend \<Rightarrow> accounts \<Rightarrow> address \<Rightarrow> account_view" where
  "existing be st a = (case a_now st a of Some v \<Rightarrow> v | None \<Rightarrow> blank be (a_start_nonce st))"

definition change :: "backend \<Rightarrow> address \<Rightarrow> (account_view \<Rightarrow> account_view res) \<Rightarrow> accounts \<Rightarrow> (trie_error option \<times> accounts) res" where
  "change be a f st = rbind (f (existing be st a)) (\<lambda>v. Ok (None, st\<lparr>a_now := (a_now st)(a := Some v)\<rparr>))"

lemma new_account_view:
  assumes "backend_ok be"
  shows "view be (new_basic be 0 nonce) = blank be nonce" "account_ok be a (new_basic be bal nonce)"
    "view be (contract_account be bal nonce ver root) = (blank be nonce)\<lparr>v_balance := bal, v_version := ver\<rparr>"
    "account_ok be a (contract_account be bal nonce ver root)"
  using backend_okD(1) [OF assms]
  by (simp_all add: new_basic_def contract_account_def view_def blank_def overlay_def account_ok_def code_ok_def fun_eq_iff)

lemma load_refines:
  assumes be: "backend_ok be" and ok: "world_ok be s"
  shows "world_ok be (load be a s) \<and> accounts_of be (load be a s) = accounts_of be s \<and> (\<exists>e. w_cache (load be a s) a = Some e)"
proof (cases "w_cache s a")
  case (Some e)
  then show ?thesis using ok by (simp add: load_def)
next
  case None
  show ?thesis
  proof (cases "be_cached be a")
    case (Some x)
    show ?thesis
      using insert_clean [OF ok None, of CleanCached x, OF _ backend_okD(8) [OF be Some]] backend_okD(9) [OF be] None Some
      by (simp add: load_def) (simp add: insert_cache_def new_entry_def)
  next
    case uncached: None
    have "(if be_known_null be a then None else be_account be a) = be_account be a" using backend_okD(10) [OF be, of a] by simp
    then show ?thesis
      using insert_clean [OF ok None, of CleanFresh "be_account be a", OF _ base_def [symmetric]] backend_okD(7) [OF be] None uncached
      by (simp add: load_def) (simp add: insert_cache_def new_entry_def)
  qed
qed

text \<open>What a function on accounts does to their views.\<close>

definition acts :: "backend \<Rightarrow> address \<Rightarrow> (account \<Rightarrow> account res) \<Rightarrow> (account_view \<Rightarrow> account_view res) \<Rightarrow> bool" where
  "acts be a f g \<longleftrightarrow> (\<forall>ac. account_ok be a ac \<longrightarrow>
     (case g (view be ac) of Panic p \<Rightarrow> f ac = Panic p | Ok v \<Rightarrow> \<exists>ac2. f ac = Ok ac2 \<and> view be ac2 = v \<and> account_ok be a ac2))"

lemma require_or_from_refines:
  assumes be: "backend_ok be" and ok: "world_ok be s" and dflt: "account_ok be a dflt" "view be dflt = blank be (w_start_nonce s)"
    and f: "acts be a f g"
  shows "implements be (\<lambda>x. x) (require_or_from be a code dflt f s) (change be a g (accounts_of be s))"
proof -
  let ?s = "load be a s" and ?s1 = "note_cache a (load be a s)"
  obtain e where l: "world_ok be ?s" "accounts_of be ?s = accounts_of be s" "w_cache ?s a = Some e" using load_refines [OF be ok] by blast
  note e = world_okD(1) [OF l(1,3)]
  have cache: "w_cache ?s1 = w_cache ?s" by (simp add: note_cache_def keep_in_checkpoint_def split: list.splits)
  have cur: "current be s a = entry_view be e" "current be s = current be ?s" using l(2) current_entry [OF l(3), of be] by (simp_all add: accounts_of_def)
  define ac where "ac = (case ae_account e of Some ac \<Rightarrow> ac | None \<Rightarrow> dflt)"
  have ac: "account_ok be a ac" "view be ac = existing be (accounts_of be s) a"
    using dflt entry_ok_account [OF e] cur(1) by (auto simp: ac_def existing_def accounts_of_def entry_view_def split: option.splits)
  have "\<exists>ac1. (if code then update_account_cache be RequireCode ac else Some ac) = Some ac1 \<and> view be ac1 = view be ac \<and> account_ok be a ac1"
    using update_account_cache_view [OF be ac(1), of RequireCode] ac(1) by (cases code) auto
  then obtain ac1 where ac1: "(if code then update_account_cache be RequireCode ac else Some ac) = Some ac1" "view be ac1 = view be ac"
    "account_ok be a ac1" by blast
  have run: "require_or_from be a code dflt f s =
    rbind (f ac1) (\<lambda>ac2. Ok (None, ?s1\<lparr>w_cache := (w_cache ?s)(a \<mapsto> e\<lparr>ae_account := Some ac2, ae_state := Dirty\<rparr>)\<rparr>))"
    using l(3) ac1(1) unfolding require_or_from_def Let_def cache ac_def [symmetric] by (simp only: l(3) option.case ac_def [symmetric] ac1(1))
  have put: "world_ok be (?s1\<lparr>w_cache := (w_cache ?s)(a \<mapsto> e\<lparr>ae_account := Some ac2, ae_state := Dirty\<rparr>)\<rparr>) \<and>
      accounts_of be (?s1\<lparr>w_cache := (w_cache ?s)(a \<mapsto> e\<lparr>ae_account := Some ac2, ae_state := Dirty\<rparr>)\<rparr>) =
        (accounts_of be s)\<lparr>a_now := (current be s)(a := Some (view be ac2))\<rparr>" if ac2: "account_ok be a ac2" for ac2
  proof -
    let ?e = "e\<lparr>ae_account := Some ac2, ae_state := Dirty\<rparr>"
    have ok: "entry_ok be a ?e" using ac2 by (simp add: entry_ok_def)
    have kept: "case map_option entry_clone_dirty (w_cache ?s a) of Some o' \<Rightarrow> entry_ok be a o' \<and> entry_view be o' = current be ?s a
      | None \<Rightarrow> base be a = current be ?s a"
      using l(3) entry_clone_dirty_ok [OF e] by (simp add: current_entry)
    show ?thesis
      using change_entry [OF l(1) ok kept refl] l(2) cur(2) by (simp add: note_cache_def entry_view_def)
  qed
  show ?thesis
  proof (cases "g (existing be (accounts_of be s) a)")
    case (Ok v)
    then obtain ac2 where "f ac1 = Ok ac2" "view be ac2 = v" "account_ok be a ac2" using f ac1(2,3) ac(2) by (fastforce simp: acts_def)
    then show ?thesis using put Ok unfolding run change_def by (simp add: implements_def accounts_of_def)
  next
    case (Panic p)
    then have "f ac1 = Panic p" using f ac1(2,3) ac(2) by (fastforce simp: acts_def)
    then show ?thesis using Panic unfolding run change_def by (simp add: implements_def)
  qed
qed

lemma require_refines:
  assumes "backend_ok be" and "world_ok be s" and "acts be a f g"
  shows "implements be (\<lambda>x. x) (require be a f s) (change be a g (accounts_of be s))"
  unfolding require_def by (rule require_or_from_refines [OF assms(1,2) new_account_view(2,1) [OF assms(1)] assms(3)])

end
