(* ===== verification/Prism_State_Safety.thy ===== *)
theory Prism_State_Safety
  imports Prism_State_Inv
begin

text \<open>
  The operations of the account state, one after another: every sequence of them behaves as on a plain map of
  accounts with a stack of copies of it, and reverting undoes all that was done since the checkpoint.
\<close>

section \<open>Operations\<close>

datatype state_op =
    Checkpoint | DiscardCheckpoint | RevertToCheckpoint
  | Exists address | ExistsNotNull address | HasCodeOrNonce address | BalanceOf address | NonceOf address
  | CodeHash address | CodeVersion address | CodeOf address | StorageAt address h256
  | AddBalance address u256 cleanup_mode | SubBalance address u256 cleanup_mode
  | TransferBalance address address u256 cleanup_mode
  | IncNonce address | SetStorage address h256 h256 | InitCode address bytes | PatchAccount address bytes slots
  | NewContract address u256 u256 u256 | KillAccount address

datatype answer =
    Done "trie_error option" | Tracked "trie_error option \<times> cleanup_mode" | Failed trie_error | Index nat
  | Truth bool | Number u256 | Slot h256 | HashIs "h256 option" | CodeIs "bytes option"

definition reply :: "('a \<Rightarrow> answer) \<Rightarrow> (trie_error + 'a) \<times> world \<Rightarrow> (answer \<times> world) res" where
  "reply c q = (case q of (Inl e, s) \<Rightarrow> Ok (Failed e, s) | (Inr x, s) \<Rightarrow> Ok (c x, s))"

definition finish :: "('e \<Rightarrow> answer) \<Rightarrow> ('e \<times> 's) res \<Rightarrow> (answer \<times> 's) res" where
  "finish c r = rbind r (\<lambda>(e, s). Ok (c e, s))"

definition tracked :: "(trie_error option \<times> cleanup_mode \<times> 's) res \<Rightarrow> ((trie_error option \<times> cleanup_mode) \<times> 's) res" where
  "tracked r = rbind r (\<lambda>(e, mode, s). Ok ((e, mode), s))"

fun exec :: "backend \<Rightarrow> state_op \<Rightarrow> world \<Rightarrow> (answer \<times> world) res" where
  "exec be Checkpoint s = Ok (Index (fst (checkpoint s)), snd (checkpoint s))"
| "exec be DiscardCheckpoint s = Ok (Done None, discard_checkpoint s)"
| "exec be RevertToCheckpoint s = Ok (Done None, revert_to_checkpoint be s)"
| "exec be (Exists a) s = reply Truth (state_exists be a s)"
| "exec be (ExistsNotNull a) s = reply Truth (exists_and_not_null be a s)"
| "exec be (HasCodeOrNonce a) s = reply Truth (exists_and_has_code_or_nonce be a s)"
| "exec be (BalanceOf a) s = reply Number (state_balance be a s)"
| "exec be (NonceOf a) s = reply Number (state_nonce be a s)"
| "exec be (CodeHash a) s = reply HashIs (state_code_hash be a s)"
| "exec be (CodeVersion a) s = reply Number (state_code_version be a s)"
| "exec be (CodeOf a) s = reply CodeIs (state_code be a s)"
| "exec be (StorageAt a k) s = (case storage_at be a k s of (v, s1) \<Rightarrow> Ok (Slot v, s1))"
| "exec be (AddBalance a incr mode) s = finish Tracked (tracked (state_add_balance be a incr mode s))"
| "exec be (SubBalance a decr mode) s = finish Tracked (tracked (state_sub_balance be a decr mode s))"
| "exec be (TransferBalance from to val mode) s = finish Tracked (tracked (transfer_balance be from to val mode s))"
| "exec be (IncNonce a) s = finish Done (state_inc_nonce be a s)"
| "exec be (SetStorage a k val) s = finish Done (state_set_storage be a k val s)"
| "exec be (InitCode a code) s = finish Done (state_init_code be a code s)"
| "exec be (PatchAccount a code storage) s = finish Done (patch_account be a code storage s)"
| "exec be (NewContract a bal offset version) s =
     (case state_new_contract be a bal offset version s of (e, s1) \<Rightarrow> Ok (Done e, s1))"
| "exec be (KillAccount a) s = Ok (Done None, kill_account a s)"

section \<open>The same on a map of accounts\<close>

definition sat_add :: "u256 \<Rightarrow> u256 \<Rightarrow> u256" where
  "sat_add x y = word_of_nat (min (unat x + unat y) (2 ^ 256 - 1))"

definition credit :: "u256 \<Rightarrow> account_view \<Rightarrow> account_view res" where
  "credit x v = Ok (v\<lparr>v_balance := sat_add (v_balance v) x\<rparr>)"

definition debit :: "u256 \<Rightarrow> account_view \<Rightarrow> account_view res" where
  "debit x v = (if x \<le> v_balance v then Ok (v\<lparr>v_balance := v_balance v - x\<rparr>) else Panic ExplicitPanic)"

definition touch :: "address \<Rightarrow> cleanup_mode \<Rightarrow> cleanup_mode" where
  "touch a mode = (case mode of TrackTouched t \<Rightarrow> TrackTouched (insert a t) | _ \<Rightarrow> mode)"

definition spec_add :: "backend \<Rightarrow> address \<Rightarrow> u256 \<Rightarrow> cleanup_mode \<Rightarrow> accounts \<Rightarrow> ((trie_error option \<times> cleanup_mode) \<times> accounts) res" where
  "spec_add be a incr mode st =
     (if incr \<noteq> 0 \<or> mode = ForceCreate \<and> a_now st a = None
      then rbind (change be a (credit incr) st) (\<lambda>(e, st1). Ok ((e, mode), st1))
      else Ok ((None, if a_now st a = None then mode else touch a mode), st))"

definition spec_sub :: "backend \<Rightarrow> address \<Rightarrow> u256 \<Rightarrow> cleanup_mode \<Rightarrow> accounts \<Rightarrow> ((trie_error option \<times> cleanup_mode) \<times> accounts) res" where
  "spec_sub be a decr mode st =
     (if decr \<noteq> 0 \<or> a_now st a = None
      then rbind (change be a (debit decr) st) (\<lambda>(e, st1). Ok ((e, touch a mode), st1))
      else Ok ((None, touch a mode), st))"

fun spec :: "backend \<Rightarrow> state_op \<Rightarrow> accounts \<Rightarrow> (answer \<times> accounts) res" where
  "spec be Checkpoint st = Ok (Index (length (a_saved st)), st\<lparr>a_saved := a_now st # a_saved st\<rparr>)"
| "spec be DiscardCheckpoint st = Ok (Done None, st\<lparr>a_saved := List.tl (a_saved st)\<rparr>)"
| "spec be RevertToCheckpoint st = Ok (Done None, restore st)"
| "spec be (Exists a) st = Ok (Truth (a_now st a \<noteq> None), st)"
| "spec be (ExistsNotNull a) st = Ok (Truth (case a_now st a of
       Some v \<Rightarrow> \<not> (v_balance v = 0 \<and> v_nonce v = 0 \<and> v_code_hash v = be_empty_code be) | None \<Rightarrow> False), st)"
| "spec be (HasCodeOrNonce a) st = Ok (Truth (case a_now st a of
       Some v \<Rightarrow> v_code_hash v \<noteq> be_empty_code be \<or> v_nonce v \<noteq> a_start_nonce st | None \<Rightarrow> False), st)"
| "spec be (BalanceOf a) st = Ok (Number (case a_now st a of Some v \<Rightarrow> v_balance v | None \<Rightarrow> 0), st)"
| "spec be (NonceOf a) st = Ok (Number (case a_now st a of Some v \<Rightarrow> v_nonce v | None \<Rightarrow> a_start_nonce st), st)"
| "spec be (CodeHash a) st = Ok (HashIs (map_option v_code_hash (a_now st a)), st)"
| "spec be (CodeVersion a) st = Ok (Number (case a_now st a of Some v \<Rightarrow> v_version v | None \<Rightarrow> 0), st)"
| "spec be (CodeOf a) st = Ok (HashIs (map_option v_code_hash (a_now st a)), st)"
| "spec be (StorageAt a k) st = Ok (Slot (slot (a_now st a) k), st)"
| "spec be (AddBalance a incr mode) st = finish Tracked (spec_add be a incr mode st)"
| "spec be (SubBalance a decr mode) st = finish Tracked (spec_sub be a decr mode st)"
| "spec be (TransferBalance from to val mode) st =
     finish Tracked (rbind (spec_sub be from val mode st) (\<lambda>((_, mode1), st1). spec_add be to val mode1 st1))"
| "spec be (IncNonce a) st = finish Done (change be a (\<lambda>v. Ok (v\<lparr>v_nonce := sat_add (v_nonce v) 1\<rparr>)) st)"
| "spec be (SetStorage a k val) st = finish Done
     (if slot (a_now st a) k \<noteq> val then change be a (\<lambda>v. Ok (v\<lparr>v_storage := (v_storage v)(k := val)\<rparr>)) st else Ok (None, st))"
| "spec be (InitCode a code) st = finish Done (change be a (\<lambda>v. Ok (v\<lparr>v_code_hash := be_keccak be code\<rparr>)) st)"
| "spec be (PatchAccount a code storage) st = finish Done
     (change be a (\<lambda>v. Ok (v\<lparr>v_code_hash := be_keccak be code, v_storage := overlay (\<lambda>_. 0) storage\<rparr>)) st)"
| "spec be (NewContract a bal offset version) st =
     (if 2 ^ 256 \<le> unat (a_start_nonce st) + unat offset then Ok (Done (Some NonceOverflow), st)
      else Ok (Done None, st\<lparr>a_now := (a_now st)(a \<mapsto> (blank be (a_start_nonce st + offset))\<lparr>v_balance := bal, v_version := version\<rparr>)\<rparr>))"
| "spec be (KillAccount a) st = Ok (Done None, st\<lparr>a_now := (a_now st)(a := None)\<rparr>)"

text \<open>Code is compared by its hash.\<close>

definition hashed :: "backend \<Rightarrow> answer \<Rightarrow> answer" where
  "hashed be x = (case x of CodeIs c \<Rightarrow> HashIs (map_option (be_keccak be) c) | _ \<Rightarrow> x)"

section \<open>Every operation\<close>

lemma accounts_of_sel [simp]:
  "a_start_nonce (accounts_of be s) = w_start_nonce s" "a_now (accounts_of be s) = current be s" "a_saved (accounts_of be s) = snapshots be s"
  by (simp_all add: accounts_of_def)

lemma length_history: "length (history be cur cs) = length cs"
  by (induction cs arbitrary: cur) simp_all

lemma checkpoint_index: "fst (checkpoint s) = length (snapshots be s)"
  by (simp add: checkpoint_def snapshots_def length_history)

lemma finish_implements:
  assumes "implements be (\<lambda>x. x) r q" and "\<And>x. ans (c x) = c x"
  shows "implements be ans (finish c r) (finish c q)"
  unfolding finish_def
  using implements_bind [OF assms(1), where f = "\<lambda>e s. Ok (c e, s)" and g = "\<lambda>e st. Ok (c e, st)" and ans' = ans] assms(2)
  by (simp add: implements_def)

lemma reply_implements:
  assumes be: "backend_ok be" and ok: "world_ok be s" and q: "q = (case ensure_cached be a req cn s of (r, s1) \<Rightarrow> (map_sum id f r, s1))"
    and f: "\<And>x. map_option (view be) x = current be s a \<Longrightarrow> (\<And>ac. x = Some ac \<Longrightarrow> code_at_hand be req ac) \<Longrightarrow> ans (c (f x)) = y"
  shows "implements be ans (reply c q) (Ok (y, accounts_of be s))"
proof -
  obtain x s1 where e: "ensure_cached be a req cn s = (Inr x, s1)" "world_ok be s1" "accounts_of be s1 = accounts_of be s"
    "map_option (view be) x = current be s a" "\<forall>ac. x = Some ac \<longrightarrow> code_at_hand be req ac"
    using ensure_cached_refines [OF be ok] by blast
  have "ans (c (f x)) = y" using f e(4,5) by blast
  then show ?thesis using e(1-3) by (simp add: q reply_def implements_def)
qed

lemma acts_changes:
  assumes "backend_ok be"
  shows "acts be a (\<lambda>ac. Ok (ac_add_balance x ac)) (credit x)" "acts be a (ac_sub_balance x) (debit x)" "acts be a Ok Ok"
    "acts be a (\<lambda>ac. Ok (ac_inc_nonce ac)) (\<lambda>v. Ok (v\<lparr>v_nonce := sat_add (v_nonce v) 1\<rparr>))"
    "acts be a (\<lambda>ac. Ok (ac_set_storage k val ac)) (\<lambda>v. Ok (v\<lparr>v_storage := (v_storage v)(k := val)\<rparr>))"
    "acts be a (\<lambda>ac. Ok (ac_init_code be code ac)) (\<lambda>v. Ok (v\<lparr>v_code_hash := be_keccak be code\<rparr>))"
    "acts be a (\<lambda>ac. Ok (reset_code_and_storage be code storage ac))
       (\<lambda>v. Ok (v\<lparr>v_code_hash := be_keccak be code, v_storage := overlay (\<lambda>_. 0) storage\<rparr>))"
proof -
  note defs = acts_def view_def account_ok_def code_ok_def
  show "acts be a (\<lambda>ac. Ok (ac_add_balance x ac)) (credit x)" by (simp add: defs credit_def ac_add_balance_def sat_add_def)
  show "acts be a (ac_sub_balance x) (debit x)" by (simp add: defs debit_def ac_sub_balance_def)
  show "acts be a Ok Ok" by (simp add: acts_def)
  show "acts be a (\<lambda>ac. Ok (ac_inc_nonce ac)) (\<lambda>v. Ok (v\<lparr>v_nonce := sat_add (v_nonce v) 1\<rparr>))"
    by (simp add: defs ac_inc_nonce_def sat_add_def)
  have "overlay st (ch(k \<mapsto> val)) = (overlay st ch)(k := val)" for st ch by (simp add: overlay_def fun_eq_iff)
  then show "acts be a (\<lambda>ac. Ok (ac_set_storage k val ac)) (\<lambda>v. Ok (v\<lparr>v_storage := (v_storage v)(k := val)\<rparr>))"
    by (simp add: defs ac_set_storage_def)
  show "acts be a (\<lambda>ac. Ok (ac_init_code be code ac)) (\<lambda>v. Ok (v\<lparr>v_code_hash := be_keccak be code\<rparr>))"
    using backend_okD(3) [OF assms] by (simp add: defs ac_init_code_def)
  have "be_store be (be_null_rlp be) = (\<lambda>_. 0)" using backend_okD(1) [OF assms] by blast
  then show "acts be a (\<lambda>ac. Ok (reset_code_and_storage be code storage ac))
       (\<lambda>v. Ok (v\<lparr>v_code_hash := be_keccak be code, v_storage := overlay (\<lambda>_. 0) storage\<rparr>))"
    using backend_okD(3) [OF assms] by (simp add: defs reset_code_and_storage_def)
qed

lemma exists_refines:
  assumes "backend_ok be" and "world_ok be s"
  obtains s1 where "state_exists be a s = (Inr (current be s a \<noteq> None), s1)" "world_ok be s1" "accounts_of be s1 = accounts_of be s"
proof -
  obtain x s1 where e: "ensure_cached be a RequireNone False s = (Inr x, s1)" "world_ok be s1" "accounts_of be s1 = accounts_of be s"
    "map_option (view be) x = current be s a"
    using ensure_cached_refines [OF assms] by blast
  have "(x \<noteq> None) = (current be s a \<noteq> None)" using e(4) by (metis option.map_disc_iff)
  then show ?thesis using that e by (simp add: state_exists_def)
qed

lemma require_pair:
  assumes "backend_ok be" and "world_ok be s" and "acts be a f g" and "accounts_of be s = st"
  shows "implements be (\<lambda>x. x) (rbind (require be a f s) (\<lambda>(e, s1). Ok ((e, mode), s1))) (rbind (change be a g st) (\<lambda>(e, st1). Ok ((e, mode), st1)))"
  using require_refines [OF assms(1-3)] unfolding assms(4)
  by (rule implements_bind) (simp add: implements_def)

lemma tracked_bind: "tracked (rbind r (\<lambda>(e, s1). Ok (e, mode, s1))) = rbind r (\<lambda>(e, s1). Ok ((e, mode), s1))"
  by (cases r) (simp_all add: tracked_def split: prod.splits)

lemma change_touch:
  assumes "a_now st a \<noteq> None"
  shows "change be a Ok st = Ok (None, st)"
proof -
  have "(a_now st)(a := Some (existing be st a)) = a_now st" using assms by (auto simp: existing_def fun_eq_iff)
  then show ?thesis by (simp add: change_def)
qed

lemma add_refines:
  assumes be: "backend_ok be" and ok: "world_ok be s"
  shows "implements be (\<lambda>x. x) (tracked (state_add_balance be a incr mode s)) (spec_add be a incr mode (accounts_of be s))"
proof -
  obtain s1 where s1: "state_exists be a s = (Inr (current be s a \<noteq> None), s1)" "world_ok be s1" "accounts_of be s1 = accounts_of be s"
    by (rule exists_refines [OF be ok]) (rule that)
  note add = require_pair [OF be _ acts_changes(1) [OF be, of a incr], where mode = mode]
  show ?thesis
  proof (cases "incr = 0")
    case False
    then show ?thesis using add [OF ok refl] by (simp add: state_add_balance_def spec_add_def tracked_bind)
  next
    case zero: True
    show ?thesis
    proof (cases mode)
      case ForceCreate
      then show ?thesis using zero s1 add [OF s1(2,3)]
        by (cases "current be s a") (simp_all add: state_add_balance_def spec_add_def on_ok_def tracked_bind, simp_all add: tracked_def implements_def touch_def)
    next
      case NoEmpty
      then show ?thesis using zero ok by (simp add: state_add_balance_def spec_add_def tracked_def implements_def touch_def)
    next
      case (TrackTouched t)
      show ?thesis
      proof (cases "current be s a")
        case None
        then show ?thesis using zero s1 TrackTouched by (simp add: state_add_balance_def spec_add_def on_ok_def tracked_def implements_def)
      next
        case (Some v)
        have "implements be (\<lambda>x. x) (tracked (rbind (require be a Ok s1) (\<lambda>(e, s2). Ok (e, TrackTouched (insert a t), s2))))
          (Ok ((None, TrackTouched (insert a t)), accounts_of be s))"
          unfolding tracked_bind
          using require_pair [OF be s1(2) acts_changes(3) [OF be, of a] s1(3), where mode = "TrackTouched (insert a t)"] change_touch [of "accounts_of be s" a be] Some
          by simp
        then show ?thesis using zero s1 TrackTouched Some by (simp add: state_add_balance_def spec_add_def on_ok_def touch_def)
      qed
    qed
  qed
qed

lemma change_done: "change be a g st = Ok (e, st1) \<Longrightarrow> e = None"
  by (cases "g (existing be st a)") (simp_all add: change_def)

lemma sub_refines:
  assumes be: "backend_ok be" and ok: "world_ok be s"
  shows "implements be (\<lambda>x. x) (tracked (state_sub_balance be a decr mode s)) (spec_sub be a decr mode (accounts_of be s))"
proof -
  obtain s1 where s1: "state_exists be a s = (Inr (current be s a \<noteq> None), s1)" "world_ok be s1" "accounts_of be s1 = accounts_of be s"
    by (rule exists_refines [OF be ok]) (rule that)
  let ?sub = "\<lambda>s. rbind (require be a (ac_sub_balance decr) s) (\<lambda>(e, s1). case e of Some err \<Rightarrow> Ok (Some err, mode, s1) | None \<Rightarrow> Ok (None, touch a mode, s1))"
  have sub: "implements be (\<lambda>x. x) (tracked (?sub s)) (rbind (change be a (debit decr) st) (\<lambda>(e, st1). Ok ((e, touch a mode), st1)))"
    if ok: "world_ok be s" and st: "accounts_of be s = st" for s st
  proof -
    note r = require_refines [OF be ok acts_changes(2) [OF be], of a decr]
    show ?thesis
    proof (cases "change be a (debit decr) st")
      case (Ok z)
      obtain e st1 where z: "z = (e, st1)" by (cases z)
      obtain s2 where "require be a (ac_sub_balance decr) s = Ok (None, s2)" "world_ok be s2" "accounts_of be s2 = st1"
        using r Ok change_done [of be a "debit decr" st e st1] unfolding st z by (auto simp: implements_def)
      then show ?thesis using Ok change_done [of be a "debit decr" st e st1] unfolding z by (simp add: tracked_def implements_def)
    next
      case (Panic p)
      then show ?thesis using r unfolding st by (simp add: tracked_def implements_def)
    qed
  qed
  show ?thesis
  proof (cases "decr \<noteq> 0 \<or> current be s a = None")
    case True
    then show ?thesis using sub [OF ok refl] sub [OF s1(2,3)] s1(1)
      by (auto simp: state_sub_balance_def spec_sub_def on_ok_def Let_def touch_def [symmetric])
  next
    case False
    then have "current be s a \<noteq> None" "decr = 0" by simp_all
    then show ?thesis using s1 by (auto simp: state_sub_balance_def spec_sub_def on_ok_def Let_def touch_def [symmetric] tracked_def implements_def)
  qed
qed

lemma spec_sub_done: "spec_sub be a decr mode st = Ok ((e, mode1), st1) \<Longrightarrow> e = None"
  by (cases "change be a (debit decr) st") (auto simp: spec_sub_def change_done split: if_splits)

lemma transfer_refines:
  assumes be: "backend_ok be" and ok: "world_ok be s"
  shows "implements be (\<lambda>x. x) (tracked (transfer_balance be src to val mode s))
    (rbind (spec_sub be src val mode (accounts_of be s)) (\<lambda>((_, mode1), st1). spec_add be to val mode1 st1))"
proof (cases "spec_sub be src val mode (accounts_of be s)")
  case (Ok z)
  obtain e mode1 st1 where z: "z = ((e, mode1), st1)" by (cases z) auto
  note e = spec_sub_done [OF Ok [unfolded z]]
  have "\<exists>s1. tracked (state_sub_balance be src val mode s) = Ok ((None, mode1), s1) \<and> world_ok be s1 \<and> accounts_of be s1 = st1"
    using sub_refines [OF be ok, of src val mode] Ok e unfolding z by (auto simp: implements_def)
  then obtain s1 where s1: "state_sub_balance be src val mode s = Ok (None, mode1, s1)" "world_ok be s1" "accounts_of be s1 = st1"
    by (cases "state_sub_balance be src val mode s") (auto simp: tracked_def)
  show ?thesis using add_refines [OF be s1(2), of to val mode1] s1(1,3) Ok unfolding z by (simp add: transfer_balance_def)
next
  case (Panic p)
  then have "state_sub_balance be src val mode s = Panic p"
    using sub_refines [OF be ok, of src val mode] by (cases "state_sub_balance be src val mode s") (auto simp: implements_def tracked_def)
  then show ?thesis using Panic by (simp add: transfer_balance_def tracked_def implements_def)
qed

lemma storage_refines:
  assumes be: "backend_ok be" and ok: "world_ok be s"
  shows "implements be (hashed be) (exec be (SetStorage a k val) s) (spec be (SetStorage a k val) (accounts_of be s))"
    "implements be (hashed be) (exec be (StorageAt a k) s) (spec be (StorageAt a k) (accounts_of be s))"
proof -
  obtain s1 where s1: "storage_at be a k s = (slot (current be s a) k, s1)" "world_ok be s1" "accounts_of be s1 = accounts_of be s"
    using storage_at_refines [OF be ok] by blast
  show "implements be (hashed be) (exec be (StorageAt a k) s) (spec be (StorageAt a k) (accounts_of be s))"
    using s1 by (simp add: implements_def hashed_def)
  have set: "implements be (\<lambda>x. x) (state_set_storage be a k val s)
    (if slot (current be s a) k \<noteq> val then change be a (\<lambda>v. Ok (v\<lparr>v_storage := (v_storage v)(k := val)\<rparr>)) (accounts_of be s) else Ok (None, accounts_of be s))"
    using require_refines [OF be s1(2) acts_changes(5) [OF be, of a k val]] s1
    by (simp add: state_set_storage_def) (simp add: implements_def)
  show "implements be (hashed be) (exec be (SetStorage a k val) s) (spec be (SetStorage a k val) (accounts_of be s))"
    using finish_implements [OF set, of "hashed be" Done] by (simp add: hashed_def)
qed

lemma new_contract_refines:
  assumes be: "backend_ok be" and ok: "world_ok be s"
  shows "implements be (hashed be) (exec be (NewContract a bal offset version) s) (spec be (NewContract a bal offset version) (accounts_of be s))"
proof -
  obtain x s1 where e: "ensure_cached be a RequireNone True s = (Inr x, s1)" "world_ok be s1" "accounts_of be s1 = accounts_of be s"
    using ensure_cached_refines [OF be ok] by blast
  have s1: "w_start_nonce s1 = w_start_nonce s" "current be s1 = current be s" using e(3) by (simp_all add: accounts_of_def)
  show ?thesis
  proof (cases "2 ^ 256 \<le> unat (w_start_nonce s) + unat offset")
    case True
    then show ?thesis using e s1 by (simp add: state_new_contract_def state_original_storage_root_def implements_def hashed_def)
  next
    case False
    define root where "root = (case x of Some x \<Rightarrow> ac_original_storage_root x | None \<Rightarrow> be_null_rlp be)"
    let ?ac = "contract_account be bal (w_start_nonce s + offset) version root"
    have "exec be (NewContract a bal offset version) s = Ok (Done None, insert_cache a (new_entry Dirty (Some ?ac)) s1)"
      using e(1) s1(1) False by (simp add: state_new_contract_def state_original_storage_root_def root_def)
    then show ?thesis
      using insert_dirty [OF e(2), of "Some ?ac" a] new_account_view(3,4) [OF be] e(3) s1(2) False by (simp add: implements_def hashed_def)
  qed
qed

lemma query_refines:
  assumes be: "backend_ok be" and ok: "world_ok be s"
    and c: "c \<in> {Exists a, ExistsNotNull a, HasCodeOrNonce a, BalanceOf a, NonceOf a, CodeHash a, CodeVersion a, CodeOf a}"
  shows "implements be (hashed be) (exec be c s) (spec be c (accounts_of be s))"
proof -
  note query = reply_implements [OF be ok]
  consider "c = Exists a" | "c = ExistsNotNull a" | "c = HasCodeOrNonce a" | "c = BalanceOf a" | "c = NonceOf a" | "c = CodeHash a"
    | "c = CodeVersion a" | "c = CodeOf a" using c by blast
  then show ?thesis
  proof cases
    case 1
    show ?thesis unfolding 1 exec.simps spec.simps accounts_of_sel
      by (rule query [OF state_exists_def]) (auto simp: hashed_def dest: sym)
  next
    case 2
    show ?thesis unfolding 2 exec.simps spec.simps accounts_of_sel
      by (rule query [OF exists_and_not_null_def]) (auto simp: hashed_def ac_is_null_def view_def dest!: sym [of "map_option _ _"] split: option.splits)
  next
    case 3
    show ?thesis unfolding 3 exec.simps spec.simps accounts_of_sel
      by (rule query [OF exists_and_has_code_or_nonce_def]) (auto simp: hashed_def view_def dest!: sym [of "map_option _ _"] split: option.splits)
  next
    case 4
    show ?thesis unfolding 4 exec.simps spec.simps accounts_of_sel
      by (rule query [OF state_balance_def]) (auto simp: hashed_def view_def dest!: sym [of "map_option _ _"] split: option.splits)
  next
    case 5
    show ?thesis unfolding 5 exec.simps spec.simps accounts_of_sel
      by (rule query [OF state_nonce_def]) (auto simp: hashed_def view_def dest!: sym [of "map_option _ _"] split: option.splits)
  next
    case 6
    show ?thesis unfolding 6 exec.simps spec.simps accounts_of_sel
      by (rule query [OF state_code_hash_def]) (auto simp: hashed_def view_def option.map_comp comp_def dest!: sym [of "map_option _ _"])
  next
    case 7
    show ?thesis unfolding 7 exec.simps spec.simps accounts_of_sel
      by (rule query [OF state_code_version_def]) (auto simp: hashed_def view_def dest!: sym [of "map_option _ _"] split: option.splits)
  next
    case 8
    show ?thesis unfolding 8 exec.simps spec.simps accounts_of_sel
      by (rule query [OF state_code_def]) (auto simp: hashed_def view_def code_at_hand_def dest!: sym [of "map_option _ _"] split: option.splits)
  qed
qed

lemma exec_refines:
  assumes be: "backend_ok be" and ok: "world_ok be s"
  shows "implements be (hashed be) (exec be c s) (spec be c (accounts_of be s))"
proof -
  have fin: "implements be (\<lambda>x. x) r q \<Longrightarrow> implements be (hashed be) (finish Tracked r) (finish Tracked q)" for r q
    by (rule finish_implements) (simp_all add: hashed_def)
  have plain: "implements be (\<lambda>x. x) r q \<Longrightarrow> implements be (hashed be) (finish Done r) (finish Done q)" for r q
    by (rule finish_implements) (simp_all add: hashed_def)
  note changes = plain [OF require_refines [OF be ok acts_changes(4) [OF be]]] plain [OF require_refines [OF be ok acts_changes(7) [OF be]]]
  have init: "implements be (hashed be) (exec be (InitCode a code) s) (spec be (InitCode a code) (accounts_of be s))" for a code
    unfolding exec.simps spec.simps state_init_code_def
    by (rule plain, rule require_or_from_refines [OF be ok _ _ acts_changes(6) [OF be]]) (simp_all add: new_account_view [OF be], simp add: blank_def)
  have kill: "implements be (hashed be) (exec be (KillAccount a) s) (spec be (KillAccount a) (accounts_of be s))" for a
    using insert_dirty [OF ok, of None a] by (simp add: implements_def hashed_def kill_account_def)
  have checkpoints: "implements be (hashed be) (exec be c s) (spec be c (accounts_of be s))"
    if "c \<in> {Checkpoint, DiscardCheckpoint, RevertToCheckpoint}" for c
    using that checkpoint_refines [OF ok] discard_refines [OF ok] revert_refines [OF be ok] checkpoint_index [of s be]
    by (auto simp: implements_def hashed_def)
  show ?thesis
    by (cases c; (simp only: storage_refines [OF be ok] new_contract_refines [OF be ok] init kill
          exec.simps(13-16) spec.simps(13-16) exec.simps(19) spec.simps(19) fin add_refines [OF be ok] sub_refines [OF be ok]
          transfer_refines [OF be ok] state_inc_nonce_def patch_account_def changes; fail)?; (rule checkpoints query_refines [OF be ok], blast)?)
qed

section \<open>Sequences of operations\<close>

fun runs :: "('o \<Rightarrow> 's \<Rightarrow> ('r \<times> 's) res) \<Rightarrow> 'o list \<Rightarrow> 's \<Rightarrow> ('r list \<times> 's) res" where
  "runs f [] s = Ok ([], s)"
| "runs f (c # cs) s = rbind (f c s) (\<lambda>(x, s1). rbind (runs f cs s1) (\<lambda>(xs, s2). Ok (x # xs, s2)))"

lemma runs_append:
  "runs f (cs @ ds) s = rbind (runs f cs s) (\<lambda>(xs, s1). rbind (runs f ds s1) (\<lambda>(ys, s2). Ok (xs @ ys, s2)))"
proof (induction cs arbitrary: s)
  case Nil
  then show ?case by (cases "runs f ds s") auto
next
  case (Cons c cs)
  show ?case
  proof (cases "f c s")
    case (Ok z)
    obtain x s1 where z: "z = (x, s1)" by (cases z)
    show ?thesis
    proof (cases "runs f cs s1")
      case (Ok w)
      obtain xs s2 where "w = (xs, s2)" by (cases w)
      then show ?thesis using \<open>f c s = Ok z\<close> z Ok by (cases "runs f ds s2") (auto simp: Cons.IH)
    next
      case (Panic p)
      then show ?thesis using Ok z by (simp add: Cons.IH)
    qed
  next
    case (Panic p)
    then show ?thesis by simp
  qed
qed

text \<open>An interface of operations on a hidden state, which promise to do what a specification says: so do sequences of them.\<close>

locale simulation =
  fixes conc :: "'o \<Rightarrow> 's \<Rightarrow> ('r \<times> 's) res" and abst :: "'o \<Rightarrow> 'a \<Rightarrow> ('q \<times> 'a) res"
    and good :: "'s \<Rightarrow> bool" and shows_as :: "'s \<Rightarrow> 'a" and reads_as :: "'r \<Rightarrow> 'q"
  assumes panics: "good s \<Longrightarrow> abst c (shows_as s) = Panic p \<Longrightarrow> conc c s = Panic p"
    and returns: "good s \<Longrightarrow> abst c (shows_as s) = Ok (y, st) \<Longrightarrow> \<exists>x s'. conc c s = Ok (x, s') \<and> good s' \<and> shows_as s' = st \<and> reads_as x = y"
begin

lemma runs_simulate:
  assumes "good s"
  shows "case runs abst cs (shows_as s) of
      Panic p \<Rightarrow> runs conc cs s = Panic p
    | Ok (ys, st) \<Rightarrow> \<exists>xs s'. runs conc cs s = Ok (xs, s') \<and> good s' \<and> shows_as s' = st \<and> map reads_as xs = ys"
  using assms
proof (induction cs arbitrary: s)
  case Nil
  then show ?case by simp
next
  case (Cons c cs)
  show ?case
  proof (cases "abst c (shows_as s)")
    case (Panic p)
    then show ?thesis using panics [OF Cons.prems] by simp
  next
    case (Ok z)
    obtain y st where z: "z = (y, st)" by (cases z)
    obtain x s' where step: "conc c s = Ok (x, s')" "good s'" "shows_as s' = st" "reads_as x = y"
      using returns [OF Cons.prems Ok [unfolded z]] by blast
    show ?thesis using Cons.IH [OF step(2)] step Ok z
      by (cases "runs abst cs (shows_as s')") auto
  qed
qed

end

text \<open>The state starts with nothing cached over the accounts of the database.\<close>

definition stored :: "backend \<Rightarrow> u256 \<Rightarrow> accounts" where
  "stored be nonce = \<lparr>a_start_nonce = nonce, a_now = base be, a_saved = []\<rparr>"

lemma from_existing_refines: "world_ok be (from_existing nonce)" "accounts_of be (from_existing nonce) = stored be nonce"
proof -
  show "world_ok be (from_existing nonce)" by (simp add: world_ok_def from_existing_def)
  have "current be (from_existing nonce) = base be" by (simp add: current_def from_existing_def fun_eq_iff)
  then show "accounts_of be (from_existing nonce) = stored be nonce" by (simp add: accounts_of_def stored_def snapshots_def) (simp add: from_existing_def)
qed

interpretation account_state: simulation "exec be" "spec be" "\<lambda>s. backend_ok be \<and> world_ok be s" "accounts_of be" "hashed be" for be
proof
  fix s c p
  assume good: "backend_ok be \<and> world_ok be s" and sp: "spec be c (accounts_of be s) = Panic p"
  show "exec be c s = Panic p" using exec_refines [of be s c] good sp by (simp add: implements_def)
next
  fix s c y st
  assume good: "backend_ok be \<and> world_ok be s" and sp: "spec be c (accounts_of be s) = Ok (y, st)"
  show "\<exists>x s'. exec be c s = Ok (x, s') \<and> (backend_ok be \<and> world_ok be s') \<and> accounts_of be s' = st \<and> hashed be x = y"
    using exec_refines [of be s c] good sp by (simp add: implements_def)
qed

text \<open>The database of the examples: account 1 with a balance of 100 and a value in slot 2, and nothing cached.\<close>

definition example_account :: account where
  "example_account = \<lparr>ac_balance = 100, ac_nonce = 0, ac_storage_root = 9, ac_storage_cache = Map.empty, ac_original_storage_cache = None,
     ac_storage_changes = Map.empty, ac_code_hash = 0, ac_code_size = None, ac_code_cache = [], ac_code_version = 0, ac_code_dirty = False\<rparr>"

definition example_backend :: backend where
  "example_backend = \<lparr>be_account = [1 \<mapsto> example_account], be_cached = Map.empty, be_known_null = (\<lambda>_. False),
     be_store = (\<lambda>root k. if root = 9 \<and> k = 2 then 7 else 0), be_code = Map.empty, be_cached_code = Map.empty,
     be_cache_add = (++), be_null_rlp = 0, be_empty_code = 0, be_keccak = (\<lambda>c. word_of_nat (length c))\<rparr>"

lemma example_backend_ok: "backend_ok example_backend"
  by (auto simp: backend_ok_def example_backend_def example_account_def account_ok_def code_ok_def map_add_Some_iff split: if_splits)



section \<open>Reverting\<close>

text \<open>Operations that close every checkpoint they open, and no other.\<close>

fun closes :: "nat \<Rightarrow> state_op list \<Rightarrow> bool" where
  "closes n [] = (n = 0)"
| "closes n (c # cs) =
     (if c = Checkpoint then closes (Suc n) cs
      else if c = DiscardCheckpoint \<or> c = RevertToCheckpoint then 0 < n \<and> closes (n - 1) cs
      else closes n cs)"

lemma change_saved: "change be a g st = Ok (e, st1) \<Longrightarrow> a_saved st1 = a_saved st \<and> a_start_nonce st1 = a_start_nonce st"
  by (cases "g (existing be st a)") (auto simp: change_def)

lemma balance_saved:
  "spec_add be a x mode st = Ok (r, st1) \<Longrightarrow> a_saved st1 = a_saved st \<and> a_start_nonce st1 = a_start_nonce st"
  "spec_sub be a x mode st = Ok (r, st1) \<Longrightarrow> a_saved st1 = a_saved st \<and> a_start_nonce st1 = a_start_nonce st"
proof -
  show "spec_add be a x mode st = Ok (r, st1) \<Longrightarrow> a_saved st1 = a_saved st \<and> a_start_nonce st1 = a_start_nonce st"
    by (cases "change be a (credit x) st") (auto simp: spec_add_def dest: change_saved split: if_splits)
  show "spec_sub be a x mode st = Ok (r, st1) \<Longrightarrow> a_saved st1 = a_saved st \<and> a_start_nonce st1 = a_start_nonce st"
    by (cases "change be a (debit x) st") (auto simp: spec_sub_def dest: change_saved split: if_splits)
qed

lemma finish_Ok: "finish c r = Ok (y, st) \<Longrightarrow> \<exists>e. r = Ok (e, st)"
  by (cases r) (auto simp: finish_def)

lemma transfer_saved:
  assumes "rbind (spec_sub be src x mode st) (\<lambda>((_, mode1), st1). spec_add be to x mode1 st1) = Ok (e, st2)"
  shows "a_saved st2 = a_saved st \<and> a_start_nonce st2 = a_start_nonce st"
proof (cases "spec_sub be src x mode st")
  case (Ok z)
  then obtain e1 mode1 st1 where z: "spec_sub be src x mode st = Ok ((e1, mode1), st1)" by (cases z) auto
  then show ?thesis using assms balance_saved(2) [OF z] balance_saved(1) [of be to x mode1 st1 e st2] by simp
next
  case (Panic p)
  then show ?thesis using assms by simp
qed

lemma spec_saved:
  assumes "spec be c st = Ok (y, st1)"
  shows "a_start_nonce st1 = a_start_nonce st" "a_saved st1 =
    (if c = Checkpoint then a_now st # a_saved st
     else if c = DiscardCheckpoint \<or> c = RevertToCheckpoint then List.tl (a_saved st) else a_saved st)"
proof -
  have "a_start_nonce st1 = a_start_nonce st \<and> a_saved st1 =
    (if c = Checkpoint then a_now st # a_saved st
     else if c = DiscardCheckpoint \<or> c = RevertToCheckpoint then List.tl (a_saved st) else a_saved st)"
    using assms
    by (cases c) (auto simp: restore_def dest!: finish_Ok dest: change_saved balance_saved transfer_saved split: if_splits list.splits)
  then show "a_start_nonce st1 = a_start_nonce st" "a_saved st1 =
    (if c = Checkpoint then a_now st # a_saved st
     else if c = DiscardCheckpoint \<or> c = RevertToCheckpoint then List.tl (a_saved st) else a_saved st)" by simp_all
qed

lemma closes_saved:
  assumes "runs (spec be) cs st = Ok (ys, st1)" and "closes n cs" and "a_saved st = pre @ rest" and "length pre = n"
  shows "a_saved st1 = rest \<and> a_start_nonce st1 = a_start_nonce st"
  using assms
proof (induction cs arbitrary: n st ys pre)
  case Nil
  then show ?case by simp
next
  case (Cons c cs)
  obtain y st' ys' where c: "spec be c st = Ok (y, st')" and cs: "runs (spec be) cs st' = Ok (ys', st1)"
    using Cons.prems(1) by (auto simp: res_simps split: prod.splits)
  note saved = spec_saved [OF c]
  consider "c = Checkpoint" | "c = DiscardCheckpoint \<or> c = RevertToCheckpoint" | "c \<notin> {Checkpoint, DiscardCheckpoint, RevertToCheckpoint}" by blast
  then show ?case
  proof cases
    case 1
    then show ?thesis using Cons.IH [OF cs, of "Suc n" "a_now st # pre"] Cons.prems saved by simp
  next
    case 2
    then have "c \<noteq> Checkpoint" "0 < n" "closes (n - 1) cs" using Cons.prems(2) by (auto split: if_splits)
    moreover have "List.tl (pre @ rest) = List.tl pre @ rest" using \<open>0 < n\<close> Cons.prems(4) by (cases pre) simp_all
    ultimately show ?thesis using Cons.IH [OF cs, of "n - 1" "List.tl pre"] Cons.prems(3,4) saved 2 by auto
  next
    case 3
    then show ?thesis using Cons.IH [OF cs, of n pre] Cons.prems saved by simp
  qed
qed

lemma runs_ok:
  assumes be: "backend_ok be" and ok: "world_ok be s" and run: "runs (exec be) cs s = Ok (xs, s1)"
  shows "world_ok be s1 \<and> (\<exists>ys. runs (spec be) cs (accounts_of be s) = Ok (ys, accounts_of be s1))"
  using account_state.runs_simulate [of be s cs] be ok run by (cases "runs (spec be) cs (accounts_of be s)") auto



end
